(* ===== verification/DTPrelude.thy ===== *)
theory DTPrelude
  imports Main "HOL-Library.Word"
begin

text \<open>
  Shared vocabulary of the development: machine integer types, the error codes
  the compiler half of libdtrace raises with \<open>longjmp\<close>, the model of an
  allocator that may fail, and the list and word lemmas that the component
  theories use.

  An allocation can fail at any call.  The operations that allocate take an
  \<^emph>\<open>allocation schedule\<close>, a list of booleans with one entry per call in the
  order the code performs them (\<open>False\<close>: this call returns NULL), and return what
  is left of it; an exhausted schedule means that the remaining calls succeed.
\<close>

unbundle bit_operations_syntax

section \<open>Types\<close>

type_synonym u8 = "8 word"
type_synonym u16 = "16 word"
type_synonym u32 = "32 word"
type_synonym u64 = "64 word"
type_synonym alloc = "bool list"

datatype edt = EDT_NOMEM | EDT_NOREG | EDT_STR2BIG | EDT_COMPILER string | EDT_ASSERT

section \<open>Collections used by the component proofs\<close>

named_theorems heap_simps \<open>reads and writes of explicit stores\<close>
named_theorems insn_simps \<open>decoding and execution of BPF instructions\<close>
named_theorems regset_simps \<open>state of the register allocator\<close>

section \<open>Fallible allocation\<close>

fun alloc_ok :: "alloc \<Rightarrow> bool \<times> alloc" where
  "alloc_ok [] = (True, [])"
| "alloc_ok (b # bs) = (b, bs)"

lemma alloc_ok_Nil_iff [simp]: "alloc_ok [] = (b, bs) \<longleftrightarrow> b \<and> bs = []"
  by auto

section \<open>Lists\<close>

definition hd_or :: "'a list \<Rightarrow> 'a option \<Rightarrow> 'a option" where
  "hd_or xs d = (case xs of [] \<Rightarrow> d | x # _ \<Rightarrow> Some x)"

definition last_or :: "'a list \<Rightarrow> 'a option \<Rightarrow> 'a option" where
  "last_or xs d = (if xs = [] then d else Some (last xs))"

lemma hd_or_simps [simp]:
  "hd_or [] d = d"
  "hd_or (x # xs) d = Some x"
  "hd_or (xs @ ys) d = hd_or xs (hd_or ys d)"
  by (auto simp: hd_or_def split: list.splits)

lemma last_or_simps [simp]:
  "last_or [] d = d"
  "last_or (x # xs) d = last_or xs (Some x)"
  "last_or (xs @ ys) d = last_or ys (last_or xs d)"
  by (auto simp: last_or_def)

lemma hd_or_None_iff [simp]: "hd_or xs None = None \<longleftrightarrow> xs = []"
  by (cases xs) auto

lemma last_or_None_iff [simp]: "last_or xs None = None \<longleftrightarrow> xs = []"
  by (simp add: last_or_def)

lemma last_or_SomeD: "last_or xs None = Some x \<Longrightarrow> \<exists>ys. xs = ys @ [x]"
  by (metis last_or_def append_butlast_last_id option.inject option.distinct(1))

lemma nth_mem_take_drop:
  "i < length xs \<Longrightarrow> xs = take i xs @ xs ! i # drop (Suc i) xs"
  by (rule id_take_nth_drop)

section \<open>Number of binary digits\<close>

fun blen :: "nat \<Rightarrow> nat" where
  "blen v = (if v = 0 then 0 else Suc (blen (v div 2)))"
declare blen.simps [simp del]

lemma blen_0 [simp]: "blen 0 = 0" by (simp add: blen.simps)

lemma blen_upper: "v < 2 ^ blen v"
proof (induction v rule: blen.induct)
  case (1 v)
  then show ?case by (cases "v = 0") (auto simp: blen.simps [of v])
qed

lemma blen_lower: "0 < v \<Longrightarrow> 2 ^ (blen v - 1) \<le> v"
proof (induction v rule: blen.induct)
  case (1 v)
  show ?case
  proof (cases "v div 2 = 0")
    case True with 1 show ?thesis by (simp add: blen.simps [of v])
  next
    case False
    with 1 have "2 ^ (blen (v div 2) - 1) \<le> v div 2" by simp
    moreover have "0 < blen (v div 2)" using False by (simp add: blen.simps [of "v div 2"])
    ultimately show ?thesis using 1(2) by (cases "blen (v div 2)") (auto simp: blen.simps [of v])
  qed
qed

lemma blen_le: "v < 2 ^ n \<Longrightarrow> blen v \<le> n"
proof (rule ccontr)
  assume v: "v < 2 ^ n" and "\<not> blen v \<le> n"
  then have "0 < v" "n \<le> blen v - 1" by (auto intro: Nat.gr0I)
  then have "2 ^ n \<le> v"
    by (meson blen_lower le_trans one_le_numeral power_increasing)
  with v show False by simp
qed

end
