(* ===== verification/DTList.thy ===== *)
theory DTList
  imports DTPrelude
begin

text \<open>
  The doubly linked list of \<open>libdtrace/dt_list.c\<close>: every element embeds a
  \<open>dt_list_t\<close>, and a further \<open>dt_list_t\<close> is the list header, whose
  \<open>dl_next\<close> is the head and whose \<open>dl_prev\<close> is the tail.  Headers and
  elements live in one store, because the code treats them alike and the
  interesting question is which links an operation overwrites.  A failed
  \<open>assert\<close> and a NULL dereference are the value \<open>None\<close>.

  \<open>dlist h l xs\<close> says that the header \<open>l\<close> owns exactly the elements \<open>xs\<close>
  in that order, with consistent links both ways; every operation is shown to
  implement the operation on lists of the same name.
\<close>

section \<open>The store\<close>

record dt_list =
  dl_prev :: "nat option"
  dl_next :: "nat option"

type_synonym lstore = "nat \<Rightarrow> dt_list"

definition set_prev :: "lstore \<Rightarrow> nat \<Rightarrow> nat option \<Rightarrow> lstore" where
  "set_prev h a v = h(a := (h a)\<lparr>dl_prev := v\<rparr>)"

definition set_next :: "lstore \<Rightarrow> nat \<Rightarrow> nat option \<Rightarrow> lstore" where
  "set_next h a v = h(a := (h a)\<lparr>dl_next := v\<rparr>)"

section \<open>Operations\<close>

definition dt_list_append :: "lstore \<Rightarrow> nat \<Rightarrow> nat \<Rightarrow> lstore option" where
  "dt_list_append h dlp new =
     (let p = dl_prev (h dlp);
          q = new;
          h = set_prev h dlp (Some q);
          h = set_prev h q p;
          h = set_next h q None
      in case p of
           Some p \<Rightarrow> if dl_next (h p) = None then Some (set_next h p (Some q)) else None
         | None \<Rightarrow> if dl_next (h dlp) = None then Some (set_next h dlp (Some q)) else None)"

definition dt_list_prepend :: "lstore \<Rightarrow> nat \<Rightarrow> nat \<Rightarrow> lstore option" where
  "dt_list_prepend h dlp new =
     (let p = new;
          q = dl_next (h dlp);
          h = set_next h dlp (Some p);
          h = set_prev h p None;
          h = set_next h p q
      in case q of
           Some q \<Rightarrow> if dl_prev (h q) = None then Some (set_prev h q (Some p)) else None
         | None \<Rightarrow> if dl_prev (h dlp) = None then Some (set_prev h dlp (Some p)) else None)"

definition dt_list_insert :: "lstore \<Rightarrow> nat \<Rightarrow> nat option \<Rightarrow> nat \<Rightarrow> lstore option" where
  "dt_list_insert h dlp after_me new =
     (case after_me of
        None \<Rightarrow> dt_list_append h dlp new
      | Some p \<Rightarrow>
          (if dl_next (h p) = None then dt_list_append h dlp new
           else
             (let q = new;
                  h = set_next h q (dl_next (h p));
                  h = set_prev h q (Some p);
                  h = set_next h p (Some q)
              in case dl_next (h q) of
                   None \<Rightarrow> None
                 | Some n \<Rightarrow> Some (set_prev h n (Some q)))))"

definition dt_list_delete :: "lstore \<Rightarrow> nat \<Rightarrow> nat \<Rightarrow> lstore" where
  "dt_list_delete h dlp existing =
     (let p = existing;
          h = (case dl_prev (h p) of
                 Some pp \<Rightarrow> set_next h pp (dl_next (h p))
               | None \<Rightarrow> set_next h dlp (dl_next (h p)))
      in case dl_next (h p) of
           Some pn \<Rightarrow> set_prev h pn (dl_prev (h p))
         | None \<Rightarrow> set_prev h dlp (dl_prev (h p)))"

partial_function (option) dt_list_length_loop ::
  "lstore \<Rightarrow> nat option \<Rightarrow> nat \<Rightarrow> nat option" where
  "dt_list_length_loop h p len =
     (case p of None \<Rightarrow> Some len
      | Some a \<Rightarrow> dt_list_length_loop h (dl_next (h a)) (Suc len))"

definition dt_list_length :: "lstore \<Rightarrow> nat \<Rightarrow> nat option" where
  "dt_list_length h dlp = dt_list_length_loop h (dl_next (h dlp)) 0"

section \<open>Abstraction\<close>

fun linked :: "lstore \<Rightarrow> nat option \<Rightarrow> nat list \<Rightarrow> nat option \<Rightarrow> bool" where
  "linked h pr [] nx = True"
| "linked h pr (x # xs) nx \<longleftrightarrow>
     dl_prev (h x) = pr \<and> dl_next (h x) = hd_or xs nx \<and> linked h (Some x) xs nx"

definition dlist :: "lstore \<Rightarrow> nat \<Rightarrow> nat list \<Rightarrow> bool" where
  "dlist h l xs \<longleftrightarrow>
     distinct (l # xs) \<and> dl_next (h l) = hd_or xs None \<and> dl_prev (h l) = last_or xs None \<and>
     linked h None xs None"

definition same_except :: "nat set \<Rightarrow> lstore \<Rightarrow> lstore \<Rightarrow> bool" where
  "same_except A h h' \<longleftrightarrow> (\<forall>a. a \<notin> A \<longrightarrow> h' a = h a)"

text \<open>A series of operations on one list, and a three-node store for the examples.\<close>

fun append_seq :: "('h \<Rightarrow> nat \<Rightarrow> nat \<Rightarrow> 'h option) \<Rightarrow> 'h \<Rightarrow> nat \<Rightarrow> nat list \<Rightarrow> 'h option" where
  "append_seq app h l [] = Some h"
| "append_seq app h l (n # ns) =
     (case app h l n of None \<Rightarrow> None | Some h' \<Rightarrow> append_seq app h' l ns)"

fun delete_seq :: "('h \<Rightarrow> nat \<Rightarrow> nat \<Rightarrow> 'h) \<Rightarrow> 'h \<Rightarrow> nat \<Rightarrow> nat list \<Rightarrow> 'h" where
  "delete_seq del h l [] = h"
| "delete_seq del h l (n # ns) = delete_seq del (del h l n) l ns"

definition demo_store :: lstore where
  "demo_store = (\<lambda>_. \<lparr>dl_prev = None, dl_next = None\<rparr>)
     (0 := \<lparr>dl_prev = Some 2, dl_next = Some 1\<rparr>,
      1 := \<lparr>dl_prev = None, dl_next = Some 2\<rparr>,
      2 := \<lparr>dl_prev = Some 1, dl_next = None\<rparr>)"

section \<open>Lemmas on stores and segments\<close>

lemma set_prev_simps [heap_simps]:
  "dl_prev (set_prev h a v b) = (if a = b then v else dl_prev (h b))"
  "dl_next (set_prev h a v b) = dl_next (h b)"
  by (auto simp: set_prev_def)

lemma set_next_simps [heap_simps]:
  "dl_next (set_next h a v b) = (if a = b then v else dl_next (h b))"
  "dl_prev (set_next h a v b) = dl_prev (h b)"
  by (auto simp: set_next_def)

lemma set_link_other [heap_simps]:
  "a \<noteq> b \<Longrightarrow> set_prev h a v b = h b"
  "a \<noteq> b \<Longrightarrow> set_next h a v b = h b"
  by (auto simp: set_prev_def set_next_def)

lemma linked_append [simp]:
  "linked h pr (xs @ ys) nx \<longleftrightarrow>
     linked h pr xs (hd_or ys nx) \<and> linked h (last_or xs pr) ys nx"
  by (induction xs arbitrary: pr) auto

lemma linked_cong:
  "(\<And>a. a \<in> set xs \<Longrightarrow> h' a = h a) \<Longrightarrow> linked h' pr xs nx = linked h pr xs nx"
  by (induction xs arbitrary: pr) auto

lemma linked_set_prev [heap_simps]:
  "a \<notin> set xs \<Longrightarrow> linked (set_prev h a v) pr xs nx = linked h pr xs nx"
  by (rule linked_cong) (metis set_link_other(1))

lemma linked_set_next [heap_simps]:
  "a \<notin> set xs \<Longrightarrow> linked (set_next h a v) pr xs nx = linked h pr xs nx"
  by (rule linked_cong) (metis set_link_other(2))

lemma linked_set_next_last:
  "x \<notin> set xs \<Longrightarrow> linked h pr (xs @ [x]) nx \<Longrightarrow>
     linked (set_next h x nx') pr (xs @ [x]) nx'"
  by (auto simp: heap_simps)

lemma linked_set_prev_first:
  "x \<notin> set xs \<Longrightarrow> linked h pr (x # xs) nx \<Longrightarrow>
     linked (set_prev h x pr') pr' (x # xs) nx"
  by (auto simp: heap_simps)

section \<open>Every operation implements its list counterpart\<close>

lemma dlist_append:
  assumes "dlist h l xs" and "n \<notin> set (l # xs)"
  shows "\<exists>h'. dt_list_append h l n = Some h' \<and> dlist h' l (xs @ [n]) \<and>
           same_except ({l, n} \<union> set xs) h h'"
proof (cases xs rule: rev_cases)
  case Nil
  with assms show ?thesis
    by (auto simp: dt_list_append_def dlist_def same_except_def heap_simps Let_def)
next
  case (snoc ys y)
  with assms show ?thesis
    by (auto simp: dt_list_append_def dlist_def same_except_def heap_simps Let_def)
qed

lemma dlist_prepend:
  assumes "dlist h l xs" and "n \<notin> set (l # xs)"
  shows "\<exists>h'. dt_list_prepend h l n = Some h' \<and> dlist h' l (n # xs) \<and>
           same_except ({l, n} \<union> set xs) h h'"
proof (cases xs)
  case Nil
  with assms show ?thesis
    by (auto simp: dt_list_prepend_def dlist_def same_except_def heap_simps Let_def)
next
  case (Cons y ys)
  with assms show ?thesis
    by (auto simp: dt_list_prepend_def dlist_def same_except_def heap_simps Let_def)
qed

lemma dlist_insert:
  assumes "dlist h l (xs @ p # ys)" and "n \<notin> set (l # xs @ p # ys)"
  shows "\<exists>h'. dt_list_insert h l (Some p) n = Some h' \<and> dlist h' l (xs @ p # n # ys) \<and>
           same_except ({l, n} \<union> set (xs @ p # ys)) h h'"
proof (cases ys)
  case Nil
  with assms dlist_append [of h l "xs @ [p]" n] show ?thesis
    by (auto simp: dt_list_insert_def dlist_def)
next
  case (Cons y zs)
  with assms show ?thesis
    by (auto simp: dt_list_insert_def dlist_def same_except_def heap_simps Let_def)
qed

lemma dlist_delete:
  assumes "dlist h l (xs @ p # ys)"
  shows "dlist (dt_list_delete h l p) l (xs @ ys) \<and>
         same_except ({l} \<union> set (xs @ ys)) h (dt_list_delete h l p)"
proof (cases xs rule: rev_cases; cases ys)
  qed (use assms in \<open>auto simp: dt_list_delete_def dlist_def same_except_def heap_simps Let_def\<close>)

lemma dt_list_length_loop_linked:
  "linked h pr xs None \<Longrightarrow> dt_list_length_loop h (hd_or xs None) n = Some (n + length xs)"
proof (induction xs arbitrary: pr n)
  case Nil
  then show ?case by (simp add: dt_list_length_loop.simps)
next
  case (Cons x xs)
  from Cons.prems have "linked h (Some x) xs None" by simp
  from Cons.IH [OF this, of "Suc n"] Cons.prems show ?case
    by (simp add: dt_list_length_loop.simps [of h "Some x"])
qed

lemma dlist_length: "dlist h l xs \<Longrightarrow> dt_list_length h l = Some (length xs)"
  using dt_list_length_loop_linked [of h None xs 0] by (simp add: dt_list_length_def dlist_def)

section \<open>The interface its clients use\<close>

text \<open>
  Clients (statement lists, provider lists, buffer lists) see a list header and
  the sequence of elements behind it.  The locale states what they rely on; the
  lemma about a series of appends is proved from the laws alone.
\<close>

locale intrusive_list =
  fixes rep :: "'h \<Rightarrow> nat \<Rightarrow> nat list \<Rightarrow> bool"
    and app :: "'h \<Rightarrow> nat \<Rightarrow> nat \<Rightarrow> 'h option"
    and del :: "'h \<Rightarrow> nat \<Rightarrow> nat \<Rightarrow> 'h"
    and len :: "'h \<Rightarrow> nat \<Rightarrow> nat option"
  assumes app_rep: "rep h l xs \<Longrightarrow> n \<notin> set (l # xs) \<Longrightarrow>
                      \<exists>h'. app h l n = Some h' \<and> rep h' l (xs @ [n])"
    and del_rep: "rep h l (xs @ n # ys) \<Longrightarrow> rep (del h l n) l (xs @ ys)"
    and len_rep: "rep h l xs \<Longrightarrow> len h l = Some (length xs)"
    and rep_distinct: "rep h l xs \<Longrightarrow> distinct (l # xs)"
begin

lemma append_seq_rep:
  "rep h l xs \<Longrightarrow> distinct ns \<Longrightarrow> set ns \<inter> set (l # xs) = {} \<Longrightarrow>
     \<exists>h'. append_seq app h l ns = Some h' \<and> rep h' l (xs @ ns)"
proof (induction ns arbitrary: h xs)
  case Nil
  then show ?case by auto
next
  case (Cons n ns)
  from Cons.prems obtain h1 where h1: "app h l n = Some h1" "rep h1 l (xs @ [n])"
    using app_rep [of h l xs n] by auto
  from Cons.prems have "distinct ns" "set ns \<inter> set (l # xs @ [n]) = {}" by auto
  from Cons.IH [OF h1(2) this] h1(1) show ?case by simp
qed

lemma delete_seq_rep: "rep h l (ns @ xs) \<Longrightarrow> rep (delete_seq del h l ns) l xs"
proof (induction ns arbitrary: h)
  case (Cons n ns)
  then show ?case using del_rep [of h l "[]" n "ns @ xs"] by simp
qed simp

lemma fill_and_drain:
  assumes "rep h l []" and "distinct ns" and "l \<notin> set ns"
  shows "\<exists>h'. append_seq app h l ns = Some h' \<and> len h' l = Some (length ns) \<and>
           rep (delete_seq del h' l ns) l []"
proof -
  from assms append_seq_rep [of h l "[]" ns] obtain h' where
    h': "append_seq app h l ns = Some h'" "rep h' l ns" by auto
  with delete_seq_rep [of h' l ns "[]"] len_rep [of h' l ns] show ?thesis by auto
qed

end

interpretation dtl: intrusive_list dlist dt_list_append dt_list_delete dt_list_length
proof unfold_locales
  fix h l xs n
  assume "dlist h l xs" and "n \<notin> set (l # xs)"
  from dlist_append [OF this]
  show "\<exists>h'. dt_list_append h l n = Some h' \<and> dlist h' l (xs @ [n])" by blast
next
  fix h l xs n ys
  assume "dlist h l (xs @ n # ys)"
  from dlist_delete [OF this] show "dlist (dt_list_delete h l n) l (xs @ ys)" by blast
qed (auto simp: dlist_length dlist_def)

text \<open>Insertion into a list behind a given element, or at its end when there is none.\<close>

fun insert_after :: "nat list \<Rightarrow> nat option \<Rightarrow> nat \<Rightarrow> nat list" where
  "insert_after xs None n = xs @ [n]"
| "insert_after [] (Some a) n = [n]"
| "insert_after (x # xs) (Some a) n = (if x = a then x # n # xs else x # insert_after xs (Some a) n)"

lemma insert_after_split: "a \<notin> set xs \<Longrightarrow> insert_after (xs @ a # ys) (Some a) n = xs @ a # n # ys"
  by (induction xs) auto

text \<open>
  C17: On a consistent list, \<open>dt_list_insert\<close> never fails an assertion or dereferences NULL, puts the new element
  directly behind the given element of the list, or at the end of the list when the given pointer is NULL,
  keeps every link consistent in both directions, and writes only to the header, the
  new element and the elements of the list.
\<close>

theorem dt_list_insert_correct:
  assumes "dlist h l xs" and "n \<notin> set (l # xs)" and "\<forall>a. p = Some a \<longrightarrow> a \<in> set xs"
  shows "\<exists>h'. dt_list_insert h l p n = Some h' \<and> dlist h' l (insert_after xs p n) \<and>
           same_except ({l, n} \<union> set xs) h h'"
proof (cases p)
  case None
  then show ?thesis using dlist_append [OF assms(1,2)] by (simp add: dt_list_insert_def)
next
  case (Some a)
  then obtain ys zs where xs: "xs = ys @ a # zs" "a \<notin> set ys" using assms(3) split_list_first by metis
  then show ?thesis using dlist_insert [of h l ys a zs n] assms(1,2) by (simp add: Some insert_after_split)
qed

theorem dt_list_insert_correct_witness:
  "(\<exists>h'. dt_list_insert demo_store 0 (Some 1) 7 = Some h' \<and> dlist h' 0 [1, 7, 2] \<and> same_except {0, 7, 1, 2} demo_store h') \<and>
   (\<exists>h'. dt_list_insert demo_store 0 None 7 = Some h' \<and> dlist h' 0 [1, 2, 7] \<and> same_except {0, 7, 1, 2} demo_store h')"
  using dt_list_insert_correct [of demo_store 0 "[1, 2]" 7 "Some 1"] dt_list_insert_correct [of demo_store 0 "[1, 2]" 7 None]
  by (simp add: dlist_def demo_store_def insert_commute)

text \<open>
  C18: Appending distinct fresh elements to an empty list one after the other
  succeeds, the list then reports exactly that many elements (so the traversal ends),
  and deleting them again in order leaves a consistent empty list.
\<close>

theorem dt_list_fill_and_drain:
  assumes "dlist h l []" and "distinct ns" and "l \<notin> set ns"
  shows "\<exists>h'. append_seq dt_list_append h l ns = Some h' \<and>
           dt_list_length h' l = Some (length ns) \<and>
           dlist (delete_seq dt_list_delete h' l ns) l []"
  using assms by (rule dtl.fill_and_drain)

theorem dt_list_fill_and_drain_witness:
  "\<exists>h'. append_seq dt_list_append (\<lambda>_. \<lparr>dl_prev = None, dl_next = None\<rparr>) 0 [3, 1, 2] = Some h' \<and>
     dt_list_length h' 0 = Some 3 \<and>
     dlist (delete_seq dt_list_delete h' 0 [3, 1, 2]) 0 []"
  using dt_list_fill_and_drain [of "\<lambda>_. \<lparr>dl_prev = None, dl_next = None\<rparr>" 0 "[3, 1, 2]"]
  by (simp add: dlist_def numeral_3_eq_3)

end
