(* ===== verification/DTArith128.thy ===== *)
theory DTArith128
  imports DTPrelude "HOL-Library.Signed_Division"
begin

text \<open>
  The 128-bit arithmetic of \<open>libdtrace/dt_consume.c\<close> that supports the
  \<open>stddev()\<close> aggregating action.  A 128-bit quantity is an array of two
  \<open>uint64_t\<close>, low word first; here a pair.  \<open>w128\<close> reads such a pair as one
  128-bit word, and the routines are related to the word operations of that width:
  comparison, shift, addition, subtraction, multiplication, division and integer
  square root.  The two division loops return an option (\<open>None\<close>: the assertion
  failed or the loop does not return), and it is proved that they do return.
\<close>

section \<open>Routines\<close>

type_synonym u128 = "u64 \<times> u64"

definition dt_gt_128 :: "u128 \<Rightarrow> u128 \<Rightarrow> bool" where
  "dt_gt_128 a b \<longleftrightarrow> snd a > snd b \<or> (snd a = snd b \<and> fst a > fst b)"

definition dt_ge_128 :: "u128 \<Rightarrow> u128 \<Rightarrow> bool" where
  "dt_ge_128 a b \<longleftrightarrow> snd a > snd b \<or> (snd a = snd b \<and> fst a \<ge> fst b)"

definition dt_le_128 :: "u128 \<Rightarrow> u128 \<Rightarrow> bool" where
  "dt_le_128 a b \<longleftrightarrow> snd a < snd b \<or> (snd a = snd b \<and> fst a \<le> fst b)"

definition dt_shift_128 :: "u128 \<Rightarrow> int \<Rightarrow> u128" where
  "dt_shift_128 a b =
     (if b = 0 then a
      else if b < 0 then
        (let b = nat (- b) in
         if b \<ge> 64 then (drop_bit (b - 64) (snd a), 0)
         else
           (let a0 = drop_bit b (fst a);
                msk = push_bit (64 - b) 1 - 1;
                a0 = a0 OR push_bit (64 - b) (snd a AND msk)
            in (a0, drop_bit b (snd a))))
      else
        (let b = nat b in
         if b \<ge> 64 then (0, push_bit (b - 64) (fst a))
         else
           (let a1 = push_bit b (snd a);
                msk = drop_bit (64 - b) (fst a)
            in (push_bit b (fst a), a1 OR msk))))"

partial_function (option) dt_nbits_128_loop :: "u128 \<Rightarrow> nat \<Rightarrow> nat option" where
  "dt_nbits_128_loop tmp nbits =
     (if dt_gt_128 tmp (0, 0)
      then dt_nbits_128_loop (dt_shift_128 tmp (- 1)) (Suc nbits)
      else Some nbits)"

definition dt_nbits_128 :: "u128 \<Rightarrow> nat option" where
  "dt_nbits_128 a = dt_nbits_128_loop (dt_shift_128 a (- 1)) 0"

definition dt_subtract_128 :: "u128 \<Rightarrow> u128 \<Rightarrow> u128" where
  "dt_subtract_128 minuend subtrahend =
     (fst minuend - fst subtrahend,
      snd minuend - snd subtrahend - (if fst minuend < fst subtrahend then 1 else 0))"

definition dt_add_128 :: "u128 \<Rightarrow> u128 \<Rightarrow> u128" where
  "dt_add_128 addend1 addend2 =
     (let r0 = fst addend1 + fst addend2 in
      (r0, snd addend1 + snd addend2 +
             (if r0 < fst addend1 \<or> r0 < fst addend2 then 1 else 0)))"

definition dt_multiply_128 :: "u64 \<Rightarrow> u64 \<Rightarrow> u128" where
  "dt_multiply_128 factor1 factor2 =
     (let hi1 = drop_bit 32 factor1;
          hi2 = drop_bit 32 factor2;
          lo1 = factor1 AND 0x00000000FFFFFFFF;
          lo2 = factor2 AND 0x00000000FFFFFFFF;
          product = (lo1 * lo2, hi1 * hi2);
          tmp = dt_shift_128 (hi1 * lo2, 0) 32;
          product = dt_add_128 product tmp;
          tmp = dt_shift_128 (hi2 * lo1, 0) 32
      in dt_add_128 product tmp)"

function divisor_log :: "nat \<Rightarrow> u64 \<Rightarrow> nat" where
  "divisor_log log divisor =
     (if divisor > 0 then divisor_log (Suc log) (drop_bit 1 divisor) else log)"
  by pat_completeness auto
termination
  by (relation "measure (\<lambda>(log, divisor). unat divisor)")
    (auto simp: drop_bit_eq_div unat_div word_greater_zero_iff unat_gt_0)

declare divisor_log.simps [simp del]

partial_function (option) dt_divide_128_loop ::
  "u128 \<Rightarrow> u128 \<Rightarrow> u128 \<Rightarrow> u128 \<Rightarrow> u128 \<Rightarrow> u128 option" where
  "dt_divide_128_loop divisor_128 remainder subtrahend msk result =
     (if dt_ge_128 remainder divisor_128
      then
        (if dt_ge_128 remainder subtrahend
         then dt_divide_128_loop divisor_128 (dt_subtract_128 remainder subtrahend)
                (dt_shift_128 subtrahend (- 1)) (dt_shift_128 msk (- 1))
                (fst result OR fst msk, snd result OR snd msk)
         else dt_divide_128_loop divisor_128 remainder
                (dt_shift_128 subtrahend (- 1)) (dt_shift_128 msk (- 1)) result)
      else Some result)"

definition dt_divide_128 :: "u128 \<Rightarrow> u64 \<Rightarrow> u128 option" where
  "dt_divide_128 dividend divisor =
     (if divisor = 0 then None
      else
        (let log = divisor_log 0 divisor;
             subtrahend = dt_shift_128 (divisor, 0) (128 - int log);
             msk = dt_shift_128 (1, 0) (128 - int log)
         in dt_divide_128_loop (divisor, 0) dividend subtrahend msk (0, 0)))"

fun dt_sqrt_128_loop :: "u128 \<Rightarrow> nat \<Rightarrow> nat \<Rightarrow> u128 \<Rightarrow> u128 \<Rightarrow> u128" where
  "dt_sqrt_128_loop square 0 pair_shift diff result = result"
| "dt_sqrt_128_loop square (Suc n) pair_shift diff result =
     (let next_pair = dt_shift_128 square (- int pair_shift);
          next_pair = (fst next_pair AND 3, 0);
          diff = dt_shift_128 diff 2;
          diff = dt_add_128 diff next_pair;
          next_try = dt_shift_128 result 2;
          next_try = dt_add_128 next_try (1, 0)
      in if dt_le_128 next_try diff
         then dt_sqrt_128_loop square n (pair_shift - 2) (dt_subtract_128 diff next_try)
                (dt_add_128 (dt_shift_128 result 1) (1, 0))
         else dt_sqrt_128_loop square n (pair_shift - 2) diff (dt_shift_128 result 1))"

definition dt_sqrt_128 :: "u128 \<Rightarrow> u64 option" where
  "dt_sqrt_128 square =
     (case dt_nbits_128 square of
        None \<Rightarrow> None
      | Some nbits \<Rightarrow>
          (let bit_pairs = nbits div 2;
               result = dt_sqrt_128_loop square (Suc bit_pairs) (bit_pairs * 2) (0, 0) (0, 0)
           in if snd result = 0 then Some (fst result) else None))"

text \<open>
  The C division of two \<open>int64_t\<close>: it truncates towards zero and traps on a zero
  divisor and on the one quotient that does not fit.
\<close>

definition div_s64 :: "u64 \<Rightarrow> u64 \<Rightarrow> u64 option" where
  "div_s64 a b =
     (if b = 0 \<or> (sint a = - (2 ^ 63) \<and> sint b = - 1) then None
      else Some (word_of_int (sint a sdiv sint b)))"

definition dt_stddev :: "u64 \<Rightarrow> u64 \<Rightarrow> u128 \<Rightarrow> u64 \<Rightarrow> u64 option" where
  "dt_stddev data0 data1 data2 normal =
     (case dt_divide_128 data2 normal of
        None \<Rightarrow> None
      | Some avg_of_squares \<Rightarrow>
     (case dt_divide_128 avg_of_squares data0 of
        None \<Rightarrow> None
      | Some avg_of_squares \<Rightarrow>
     (case div_s64 data1 normal of
        None \<Rightarrow> None
      | Some norm_avg \<Rightarrow>
     (case div_s64 norm_avg data0 of
        None \<Rightarrow> None
      | Some norm_avg \<Rightarrow>
          (let norm_avg = (if sint norm_avg < 0 then - norm_avg else norm_avg);
               square_of_avg = dt_multiply_128 norm_avg norm_avg
           in dt_sqrt_128 (dt_subtract_128 avg_of_squares square_of_avg))))))"

section \<open>Reading a pair as a 128-bit word\<close>

definition w128 :: "u128 \<Rightarrow> 128 word" where
  "w128 a = word_cat (snd a) (fst a)"

lemma u64_bitD: "bit (w :: u64) n \<Longrightarrow> n < 64"
  using bit_imp_le_length [of w n] by simp

lemma push_bit_1_minus_1: "push_bit k 1 - 1 = (mask k :: 'a::len word)"
  by (simp add: push_bit_eq_mult mask_eq_exp_minus_1)

lemma bit_w128: "bit (w128 a) n = (if n < 64 then bit (fst a) n else bit (snd a) (n - 64))"
  by (auto simp: w128_def bit_word_cat_iff dest: bit_imp_le_length)

lemma w128_eq: "w128 a = ucast (fst a) + push_bit 64 (ucast (snd a))"
proof -
  have "w128 a = ucast (fst a) OR push_bit 64 (ucast (snd a))"
   by (rule bit_word_eqI) (auto simp: bit_w128 bit_simps dest: u64_bitD)
  also have "\<dots> = ucast (fst a) + push_bit 64 (ucast (snd a))"
   by (rule disjunctive_add [symmetric]) (auto simp: bit_simps dest: u64_bitD)
  finally show ?thesis .
qed

lemma unat_lt64: "unat (w::u64) < 2 ^ 64"
  using unsigned_less[of w, where ?'a=nat] by simp

lemma w128_of_nat: "w128 a = of_nat (unat (fst a) + 2 ^ 64 * unat (snd a))"
    by (simp add: w128_eq push_bit_eq_mult mult.commute)

lemma unat_w128: "unat (w128 a) = unat (fst a) + 2 ^ 64 * unat (snd a)"
proof -
  have lt: "unat (fst a) + 2 ^ 64 * unat (snd a) < 2 ^ 128"
    using unat_lt64 [of "fst a"] unat_lt64 [of "snd a"] by simp
  show ?thesis
    unfolding w128_of_nat unat_of_nat using lt by simp
qed

lemma w128_shiftr:
  assumes "0 < b" "b \<le> 32 \<or> 64 \<le> b"
  shows "w128 (dt_shift_128 a (- int b)) = drop_bit b (w128 a)"
  using assms
  by (intro bit_word_eqI) (auto simp: bit_w128 dt_shift_128_def bit_simps Let_def
      mask_eq_exp_minus_1 [symmetric] add.commute dest: u64_bitD)

lemma w128_shiftl: "0 < b \<Longrightarrow> w128 (dt_shift_128 a (int b)) = push_bit b (w128 a)"
  by (rule bit_word_eqI)
    (auto simp: bit_w128 dt_shift_128_def bit_simps Let_def add.commute dest: u64_bitD)

lemma less_cat: "a1 < b1 \<Longrightarrow> a0 < M \<Longrightarrow> a0 + M * a1 < b0 + M * b1" for a0 a1 b1 b0 M :: nat
proof -
  assume "a1 < b1" and a0: "a0 < M"
  then have "M * Suc a1 \<le> M * b1" by (simp only: mult_le_mono2 Suc_le_eq)
  with a0 show ?thesis by simp
qed

lemma less_cat_iff: "a0 < M \<Longrightarrow> b0 < M \<Longrightarrow> a0 + M * a1 < b0 + M * b1 \<longleftrightarrow> a1 < b1 \<or> a1 = b1 \<and> a0 < b0"
  for a0 a1 b1 b0 M :: nat
  using less_cat [of a1 b1 a0 M b0] less_cat [of b1 a1 b0 M a0]
  by (cases a1 b1 rule: linorder_cases) auto

lemma w128_less: "w128 a < w128 b \<longleftrightarrow> snd a < snd b \<or> snd a = snd b \<and> fst a < fst b"
  by (simp only: word_less_nat_alt unat_w128 word_unat_eq_iff less_cat_iff [OF unat_lt64 unat_lt64])

lemma dt_gt_128_iff: "dt_gt_128 a b \<longleftrightarrow> w128 a > w128 b"
  by (auto simp: dt_gt_128_def w128_less)

lemma dt_ge_128_iff: "dt_ge_128 a b \<longleftrightarrow> w128 a \<ge> w128 b"
  by (auto simp: dt_ge_128_def w128_less not_less[symmetric])

lemma dt_le_128_iff: "dt_le_128 a b \<longleftrightarrow> w128 a \<le> w128 b"
  by (auto simp: dt_le_128_def w128_less not_less[symmetric])

lemma cat_mod: "r < M \<Longrightarrow> (r + M * k) mod (M * M) = r + M * (k mod M)" for r k M :: nat
  using mod_mult2_eq [of "r + M * k" M M] by simp

lemma carry_div: "x < M \<Longrightarrow> y < M \<Longrightarrow> (x + y) div M = (if M \<le> x + y then 1 else 0)" for x y M :: nat
  by (auto simp: div_if)

lemma carry_mod: "x < M \<Longrightarrow> y < M \<Longrightarrow> (x + y) mod M < x \<or> (x + y) mod M < y \<longleftrightarrow> M \<le> x + y" for x y M :: nat
  by (auto simp: mod_if)

lemma w128_add: "w128 (dt_add_128 a b) = w128 a + w128 b"
proof -
  define M :: nat where "M = 2 ^ 64"
  have lt: "unat w < M" for w :: u64 unfolding M_def by (rule unat_lt64)
  let ?x = "unat (fst a)" and ?y = "unat (fst b)"
  define c where "c = (?x + ?y) div M"
  have r: "unat (fst a + fst b) = (?x + ?y) mod M" by (simp add: M_def unat_word_ariths)
  have "fst a + fst b < fst a \<or> fst a + fst b < fst b \<longleftrightarrow> M \<le> ?x + ?y"
    using carry_mod [OF lt lt, of "fst a" "fst b"] by (simp only: word_less_nat_alt r)
  then have carry: "(if fst a + fst b < fst a \<or> fst a + fst b < fst b then 1 else 0 :: u64) = of_nat c"
    using carry_div [OF lt lt, of "fst a" "fst b"] by (simp add: c_def)
  have hi: "unat (snd (dt_add_128 a b)) = (unat (snd a) + unat (snd b) + c) mod M"
    unfolding dt_add_128_def Let_def snd_conv carry M_def
    by (simp add: unat_word_ariths unat_of_nat mod_simps)
  have "unat (w128 (dt_add_128 a b)) = (?x + ?y) mod M + M * ((unat (snd a) + unat (snd b) + c) mod M)"
    unfolding unat_w128 hi by (simp add: dt_add_128_def Let_def r M_def)
  also have "\<dots> = ((?x + ?y) mod M + M * (unat (snd a) + unat (snd b) + c)) mod (M * M)"
    by (rule cat_mod [symmetric]) (simp add: M_def)
  also have "(?x + ?y) mod M + M * (unat (snd a) + unat (snd b) + c) = (?x + ?y) + M * (unat (snd a) + unat (snd b))"
    using mod_mult_div_eq [of "?x + ?y" M] by (simp only: c_def distrib_left ac_simps)
  also have "\<dots> = unat (w128 a) + unat (w128 b)" by (simp add: unat_w128 M_def algebra_simps)
  also have "M * M = 2 ^ 128" by (simp add: M_def)
  finally show ?thesis by (simp add: word_unat_eq_iff unat_word_ariths)
qed

lemma dt_add_subtract: "dt_add_128 (dt_subtract_128 a b) b = a"
proof -
  have "fst a < fst a - fst b \<or> fst a < fst b \<longleftrightarrow> fst a < fst b"
    using word_sub_le [of "fst b" "fst a"] by (auto simp: not_le [symmetric])
  then show ?thesis by (auto simp: dt_add_128_def dt_subtract_128_def Let_def prod_eq_iff)
qed

lemma w128_subtract: "w128 (dt_subtract_128 a b) = w128 a - w128 b"
  using w128_add [of "dt_subtract_128 a b" b] by (simp add: dt_add_subtract)

lemma unat_mult_small: "unat a < 2 ^ 32 \<Longrightarrow> unat b < 2 ^ 32 \<Longrightarrow> unat (a * b) = unat a * unat (b :: u64)"
proof -
  assume "unat a < 2 ^ 32" and "unat b < 2 ^ 32"
  then have "unat a * unat b < 2 ^ 32 * 2 ^ 32" by (intro mult_strict_mono) auto
  then show ?thesis by (simp add: unat_word_ariths)
qed

lemma w128_multiply_eq: "w128 (dt_multiply_128 f g) = of_nat (unat f * unat g)"
proof -
  let ?M = "0x00000000FFFFFFFF :: u64"
  define h1 l1 h2 l2 where "h1 = unat f div 2 ^ 32" and "l1 = unat f mod 2 ^ 32"
    and "h2 = unat g div 2 ^ 32" and "l2 = unat g mod 2 ^ 32"
  note defs = h1_def l1_def h2_def l2_def
  have m: "?M = mask 32" by (simp add: mask_eq_exp_minus_1)
  have u: "unat (drop_bit 32 f) = h1" "unat (f AND ?M) = l1" "unat (drop_bit 32 g) = h2" "unat (g AND ?M) = l2"
    by (simp_all only: m defs take_bit_eq_mask [symmetric])
       (simp_all add: unsigned_drop_bit_eq unsigned_take_bit_eq drop_bit_eq_div take_bit_eq_mod unat_div unat_mod)
  have b: "h1 < 2 ^ 32" "l1 < 2 ^ 32" "h2 < 2 ^ 32" "l2 < 2 ^ 32"
    using unat_lt64 [of f] unat_lt64 [of g] by (simp_all add: defs less_mult_imp_div_less)
  have w: "w128 (x, y) = of_nat (unat x + 2 ^ 64 * unat y)" for x y by (simp add: w128_of_nat)
  have s: "w128 (dt_shift_128 (x, 0) 32) = of_nat (2 ^ 32 * unat x)" for x
    using w128_shiftl [of 32 "(x, 0)"] by (simp add: w push_bit_eq_mult)
  have "unat f * unat g = (2 ^ 32 * h1 + l1) * (2 ^ 32 * h2 + l2)" by (simp add: defs)
  also have "\<dots> = l1 * l2 + 2 ^ 64 * (h1 * h2) + 2 ^ 32 * (h1 * l2) + 2 ^ 32 * (h2 * l1)"
    by (simp add: algebra_simps)
  finally show ?thesis
    using b by (simp add: dt_multiply_128_def Let_def w128_add s w unat_mult_small u)
qed

lemma unat_shiftr1: "unat (w128 (dt_shift_128 a (- 1))) = unat (w128 a) div 2"
  using w128_shiftr [of 1 a] by (simp add: unsigned_drop_bit_eq drop_bit_eq_div unat_div)

lemma w128_zero [simp]: "w128 (0, 0) = 0" by (simp add: w128_of_nat)

lemma dt_nbits_128_loop_eq: "dt_nbits_128_loop a n = Some (n + blen (unat (w128 a)))"
proof (induction "unat (w128 a)" arbitrary: a n rule: less_induct)
  case less
  show ?case
  proof (cases "unat (w128 a) = 0")
    case True
    then have "\<not> dt_gt_128 a (0, 0)" by (simp add: dt_gt_128_iff word_less_nat_alt)
    with True show ?thesis by (simp add: dt_nbits_128_loop.simps)
  next
    case False
    then have g: "dt_gt_128 a (0, 0)" by (simp add: dt_gt_128_iff word_greater_zero_iff word_unat_eq_iff)
    from False less [of "dt_shift_128 a (- 1)" "Suc n"] g show ?thesis
      by (simp add: dt_nbits_128_loop.simps [of a] blen.simps [of "unat (w128 a)"] unat_shiftr1)
  qed
qed

lemma dt_nbits_128_eq: "dt_nbits_128 a = Some (blen (unat (w128 a) div 2))"
  by (simp add: dt_nbits_128_def dt_nbits_128_loop_eq unat_shiftr1)

lemma divisor_log_eq: "divisor_log n d = n + blen (unat d)"
proof (induction n d rule: divisor_log.induct)
  case (1 n d)
  show ?case
  proof (cases "d > 0")
    case True
    with 1 have "divisor_log n d = Suc n + blen (unat d div 2)"
      by (simp add: divisor_log.simps [of n d] unsigned_drop_bit_eq drop_bit_eq_div unat_div)
    moreover from True have "0 < unat d" by (simp add: word_greater_zero_iff unat_gt_0)
    ultimately show ?thesis by (simp add: blen.simps [of "unat d"])
  qed (simp add: divisor_log.simps word_greater_zero_iff)
qed

lemma w128_or: "w128 (fst a OR fst b, snd a OR snd b) = w128 a OR w128 b"
  by (rule bit_word_eqI) (auto simp: bit_w128 bit_simps)

lemma or_power_eq_add: "2 ^ Suc k dvd x \<Longrightarrow> x OR 2 ^ k = x + 2 ^ k" for x :: nat
proof -
  assume "2 ^ Suc k dvd x"
  then obtain m where x: "x = 2 ^ k * (2 * m)" by (auto simp: dvd_def)
  have "\<not> bit x k" unfolding bit_iff_odd x by simp
  then have "x + 2 ^ k = x OR 2 ^ k"
    by (intro disjunctive_add) (auto simp: bit_exp_iff)
  then show ?thesis by simp
qed

text \<open>The state of the long division before the step for bit \<open>k\<close>.\<close>

definition div_inv :: "nat \<Rightarrow> nat \<Rightarrow> nat \<Rightarrow> u128 \<Rightarrow> u128 \<Rightarrow> u128 \<Rightarrow> u128 \<Rightarrow> bool" where
  "div_inv D d k rm sb mk q \<longleftrightarrow>
     D = unat (w128 q) * d + unat (w128 rm) \<and> unat (w128 sb) = d * 2 ^ k \<and>
     unat (w128 mk) = 2 ^ k \<and> unat (w128 rm) < d * 2 ^ Suc k \<and> 2 ^ Suc k dvd unat (w128 q)"

lemma pow_dvd_Suc: "2 ^ Suc k dvd x \<Longrightarrow> 2 ^ k dvd (x :: nat)"
  by (metis dvd_mult_right power_Suc)

lemma div_take:
  assumes inv: "div_inv D d k rm sb mk q"
  defines "rm' \<equiv> if dt_ge_128 rm sb then dt_subtract_128 rm sb else rm"
    and "q' \<equiv> if dt_ge_128 rm sb then (fst q OR fst mk, snd q OR snd mk) else q"
  shows "D = unat (w128 q') * d + unat (w128 rm') \<and> unat (w128 rm') < d * 2 ^ k \<and>
         2 ^ k dvd unat (w128 q')"
proof (cases "dt_ge_128 rm sb")
  case True
  then have ge: "w128 sb \<le> w128 rm" by (simp add: dt_ge_128_iff)
  then have r: "unat (w128 rm') = unat (w128 rm) - unat (w128 sb)"
    using True by (simp add: rm'_def w128_subtract unat_sub)
  have q: "unat (w128 q') = unat (w128 q) + 2 ^ k"
    using inv True by (simp add: q'_def w128_or unsigned_or_eq div_inv_def or_power_eq_add)
  have "2 ^ k dvd unat (w128 q)"
    using inv pow_dvd_Suc [of k "unat (w128 q)"] by (simp add: div_inv_def)
  moreover have "d * 2 ^ k \<le> unat (w128 rm)" using ge inv by (simp add: div_inv_def word_le_nat_alt)
  ultimately show ?thesis using inv unfolding r q by (auto simp: div_inv_def algebra_simps)
next
  case False
  then have "unat (w128 rm) < unat (w128 sb)" by (simp add: dt_ge_128_iff word_le_nat_alt)
  moreover have "2 ^ k dvd unat (w128 q)"
    using inv pow_dvd_Suc [of k "unat (w128 q)"] by (simp add: div_inv_def)
  ultimately show ?thesis using inv False by (simp add: rm'_def q'_def div_inv_def)
qed

lemma dt_divide_128_loop_exit:
  "\<not> dt_ge_128 rm dv \<Longrightarrow> dt_divide_128_loop dv rm sb mk q = Some q"
  by (simp add: dt_divide_128_loop.simps [of dv rm])

lemma dt_divide_128_loop_step:
  "dt_ge_128 rm dv \<Longrightarrow> dt_divide_128_loop dv rm sb mk q =
     dt_divide_128_loop dv (if dt_ge_128 rm sb then dt_subtract_128 rm sb else rm)
       (dt_shift_128 sb (- 1)) (dt_shift_128 mk (- 1))
       (if dt_ge_128 rm sb then (fst q OR fst mk, snd q OR snd mk) else q)"
  by (subst dt_divide_128_loop.simps) simp

lemma dt_divide_128_loop_eq:
  assumes "unat (w128 dv) = d" and "0 < d"
  shows "div_inv D d k rm sb mk q \<Longrightarrow>
     \<exists>q'. dt_divide_128_loop dv rm sb mk q = Some q' \<and> unat (w128 q') = D div d"
proof (induction k arbitrary: rm sb mk q)
  case (0 rm sb mk q)
  show ?case
  proof (cases "dt_ge_128 rm dv")
    case True
    let ?rm = "if dt_ge_128 rm sb then dt_subtract_128 rm sb else rm"
    from div_take [OF 0] have "unat (w128 ?rm) < d" by simp
    then have "\<not> dt_ge_128 ?rm dv" using assms by (simp only: dt_ge_128_iff word_le_nat_alt not_le)
    with True div_take [OF 0] \<open>unat (w128 ?rm) < d\<close> show ?thesis
      by (simp add: dt_divide_128_loop_step dt_divide_128_loop_exit)
  next
    case False
    with 0 assms show ?thesis
      by (auto simp: dt_divide_128_loop_exit dt_ge_128_iff word_le_nat_alt div_inv_def)
  qed
next
  case (Suc k rm sb mk q)
  show ?case
  proof (cases "dt_ge_128 rm dv")
    case True
    let ?rm = "if dt_ge_128 rm sb then dt_subtract_128 rm sb else rm"
    let ?q = "if dt_ge_128 rm sb then (fst q OR fst mk, snd q OR snd mk) else q"
    have "div_inv D d k ?rm (dt_shift_128 sb (- 1)) (dt_shift_128 mk (- 1)) ?q"
      using div_take [OF Suc.prems] Suc.prems unfolding div_inv_def unat_shiftr1 by auto
    from Suc.IH [OF this] True show ?thesis by (simp only: dt_divide_128_loop_step)
  next
    case False
    with Suc.prems assms show ?thesis
      by (auto simp: dt_divide_128_loop_exit dt_ge_128_iff word_le_nat_alt div_inv_def)
  qed
qed

lemma unat_push_bit_128:
  assumes "unat (w :: 128 word) * 2 ^ k < 2 ^ 128"
  shows "unat (push_bit k w) = unat w * 2 ^ k"
proof -
  have "unat (push_bit k w) = take_bit 128 (push_bit k (unat w))" by (simp add: unsigned_push_bit_eq)
  with assms show ?thesis by (simp add: push_bit_eq_mult take_bit_nat_eq_self)
qed

lemma w128_low: "w128 (x, 0) = of_nat (unat x)" "unat (w128 (x, 0)) = unat x"
  by (simp add: w128_of_nat, simp add: unat_w128)

lemma unat_shiftl_low:
  assumes "unat x < 2 ^ n" and "n \<le> 64"
  shows "unat (w128 (dt_shift_128 (x, 0) (128 - int n))) = unat x * 2 ^ (128 - n)"
proof -
  have "n + (128 - n) = 128" using assms(2) by simp
  then have "(2::nat) ^ n * 2 ^ (128 - n) = 2 ^ 128" by (simp only: power_add [symmetric])
  then have lt: "unat x * 2 ^ (128 - n) < 2 ^ 128"
    using assms(1) by (metis mult_less_cancel2 zero_less_numeral zero_less_power)
  have "dt_shift_128 (x, 0) (128 - int n) = dt_shift_128 (x, 0) (int (128 - n))"
    using assms(2) by (simp add: of_nat_diff)
  then show ?thesis
    using unat_push_bit_128 [of "w128 (x, 0)" "128 - n"] lt assms(2) w128_shiftl [of "128 - n" "(x, 0)"]
    by (simp only: w128_low(2))
qed

lemma dt_divide_128_eq:
  assumes "d \<noteq> 0"
  shows "\<exists>q. dt_divide_128 a d = Some q \<and> unat (w128 q) = unat (w128 a) div unat d"
proof -
  define n where "n = blen (unat d)"
  have d: "0 < unat d" using assms by (simp add: unat_gt_0)
  have up: "unat d < 2 ^ n" and lo: "2 ^ (n - 1) \<le> unat d" and n64: "n \<le> 64"
    using blen_upper blen_lower [OF d] blen_le [OF unat_lt64] by (auto simp: n_def)
  have n0: "0 < n" using up d by (cases n) auto
  then have one: "unat (1 :: u64) < 2 ^ n" by (simp add: one_less_power del: One_nat_def)
  have "(n - 1) + Suc (128 - n) = 128" using n64 n0 by simp
  then have e: "(2::nat) ^ 128 = 2 ^ (n - 1) * 2 ^ Suc (128 - n)" by (simp only: power_add [symmetric])
  have "unat (w128 a) < 2 ^ 128" using unsigned_less [of "w128 a", where ?'a = nat] by simp
  also note e
  also have "2 ^ (n - 1) * 2 ^ Suc (128 - n) \<le> unat d * 2 ^ Suc (128 - n)"
    using lo by (rule mult_le_mono1)
  finally have "div_inv (unat (w128 a)) (unat d) (128 - n) a
      (dt_shift_128 (d, 0) (128 - int n)) (dt_shift_128 (1, 0) (128 - int n)) (0, 0)"
    using unat_shiftl_low [OF up n64] unat_shiftl_low [OF one n64] by (simp add: div_inv_def)
  from dt_divide_128_loop_eq [OF w128_low(2) d this] assms show ?thesis
    by (simp add: dt_divide_128_def divisor_log_eq n_def Let_def)
qed

lemma next_pair_eq:
  assumes "even ps" and "ps \<le> 126"
  shows "unat (fst (dt_shift_128 a (- int ps)) AND 3) = unat (w128 a) div 2 ^ ps mod 4"
proof -
  have three: "(3 :: u64) = mask 2" by (simp add: mask_eq_exp_minus_1)
  have "ucast (take_bit 2 (fst (dt_shift_128 a (- int ps)))) = take_bit 2 (drop_bit ps (w128 a))"
    using assms by (intro bit_word_eqI)
      (auto simp: bit_simps bit_w128 dt_shift_128_def Let_def add.commute dest: u64_bitD elim!: evenE)
  moreover have "unat (take_bit 2 (drop_bit ps (w128 a))) = take_bit 2 (drop_bit ps (unat (w128 a)))"
    by (rule bit_eqI) (auto simp: bit_simps dest: bit_imp_le_length)
  moreover have "unat (ucast (take_bit 2 (fst (dt_shift_128 a (- int ps)))) :: 128 word) =
      unat (take_bit 2 (fst (dt_shift_128 a (- int ps))))"
    by (rule bit_eqI) (auto simp: bit_simps)
  ultimately show ?thesis
    by (simp add: three take_bit_eq_mask [symmetric]) (simp add: take_bit_eq_mod drop_bit_eq_div)
qed

text \<open>The state of the square root loop with \<open>n\<close> bit pairs left to bring down.\<close>

definition sqrt_inv :: "nat \<Rightarrow> nat \<Rightarrow> u128 \<Rightarrow> u128 \<Rightarrow> bool" where
  "sqrt_inv v n df rs \<longleftrightarrow>
     (let P = v div 4 ^ n; R = unat (w128 rs)
      in unat (w128 df) + R * R = P \<and> P < (R + 1) * (R + 1) \<and> R < 2 ^ 64)"

lemma sq_less: "R * R \<le> v \<Longrightarrow> v < 2 ^ 128 \<Longrightarrow> R < 2 ^ 64" for R v :: nat
proof (rule ccontr)
  assume "R * R \<le> v" "v < 2 ^ 128" "\<not> R < 2 ^ 64"
  then have "2 ^ 64 * 2 ^ 64 \<le> R * R" by (intro mult_le_mono) auto
  with \<open>R * R \<le> v\<close> \<open>v < 2 ^ 128\<close> show False by simp
qed

lemma unat_add_128:
  "unat (w128 a) + unat (w128 b) < 2 ^ 128 \<Longrightarrow>
     unat (w128 (dt_add_128 a b)) = unat (w128 a) + unat (w128 b)"
  by (simp add: w128_add unat_word_ariths)

lemma unat_shl_128:
  "unat (w128 a) < 2 ^ 120 \<Longrightarrow> unat (w128 (dt_shift_128 a 1)) = 2 * unat (w128 a)"
  "unat (w128 a) < 2 ^ 120 \<Longrightarrow> unat (w128 (dt_shift_128 a 2)) = 4 * unat (w128 a)"
  using w128_shiftl [of 1 a] w128_shiftl [of 2 a]
    unat_push_bit_128 [of "w128 a" 1] unat_push_bit_128 [of "w128 a" 2] by simp_all

lemma sqrt_step:
  assumes inv: "sqrt_inv (unat (w128 sq)) (Suc n) df rs" and n: "n \<le> 63"
  defines "np \<equiv> (fst (dt_shift_128 sq (- int (2 * n))) AND 3, 0 :: u64)"
  defines "df1 \<equiv> dt_add_128 (dt_shift_128 df 2) np"
    and "trial \<equiv> dt_add_128 (dt_shift_128 rs 2) (1, 0)"
  shows "dt_le_128 trial df1 \<Longrightarrow>
           sqrt_inv (unat (w128 sq)) n (dt_subtract_128 df1 trial) (dt_add_128 (dt_shift_128 rs 1) (1, 0))"
    and "\<not> dt_le_128 trial df1 \<Longrightarrow>
           sqrt_inv (unat (w128 sq)) n df1 (dt_shift_128 rs 1)"
proof -
  define v where "v = unat (w128 sq)"
  define R where "R = unat (w128 rs)"
  define D where "D = unat (w128 df)"
  define p where "p = v div 4 ^ n mod 4"
  have v: "v < 2 ^ 128" unfolding v_def using unsigned_less [of "w128 sq", where ?'a = nat] by simp
  from inv have D: "D + R * R = v div 4 ^ Suc n" "v div 4 ^ Suc n < (R + 1) * (R + 1)" and R: "R < 2 ^ 64"
    by (auto simp: sqrt_inv_def Let_def v_def R_def D_def)
  have P: "v div 4 ^ n = 4 * (v div 4 ^ Suc n) + p"
    unfolding p_def power_Suc2 div_mult2_eq by simp
  have dl: "D \<le> 2 * R" using D by (simp add: algebra_simps)
  have np: "unat (w128 np) = p"
    using next_pair_eq [of "2 * n" sq] n
    by (simp add: np_def w128_low(2) p_def v_def power_mult power2_eq_square)
  have pl: "p < 4" by (simp add: p_def)
  have df1: "unat (w128 df1) = 4 * D + p"
    using dl R pl by (simp add: df1_def unat_add_128 unat_shl_128 np D_def)
  have tr: "unat (w128 trial) = 4 * R + 1"
    using R by (simp add: trial_def unat_add_128 unat_shl_128 w128_low(2) R_def)
  have le: "dt_le_128 trial df1 \<longleftrightarrow> 4 * R + 1 \<le> 4 * D + p"
    by (simp add: dt_le_128_iff word_le_nat_alt df1 tr)
  have rs1: "unat (w128 (dt_shift_128 rs 1)) = 2 * R"
    and rs2: "unat (w128 (dt_add_128 (dt_shift_128 rs 1) (1, 0))) = 2 * R + 1"
    using R by (simp_all add: unat_add_128 unat_shl_128 w128_low(2) R_def)
  have vn: "v div 4 ^ n \<le> v" by simp
  { assume t: "dt_le_128 trial df1"
    then have sb: "unat (w128 (dt_subtract_128 df1 trial)) = 4 * D + p - (4 * R + 1)"
      by (simp add: w128_subtract unat_sub dt_le_128_iff df1 tr)
    have "(2 * R + 1) * (2 * R + 1) \<le> v div 4 ^ n"
      using t D unfolding le P by (simp add: algebra_simps)
    from sq_less [OF le_trans [OF this vn] v] have "2 * R + 1 < 2 ^ 64" .
    with t D pl show "sqrt_inv (unat (w128 sq)) n (dt_subtract_128 df1 trial)
        (dt_add_128 (dt_shift_128 rs 1) (1, 0))"
      unfolding sqrt_inv_def Let_def sb rs2 v_def [symmetric] P le by (simp add: algebra_simps) }
  { assume t: "\<not> dt_le_128 trial df1"
    have "(2 * R) * (2 * R) \<le> v div 4 ^ n"
      using D unfolding P by (simp add: algebra_simps)
    from sq_less [OF le_trans [OF this vn] v] have "2 * R < 2 ^ 64" .
    with t D show "sqrt_inv (unat (w128 sq)) n df1 (dt_shift_128 rs 1)"
      unfolding sqrt_inv_def Let_def df1 rs1 v_def [symmetric] P le by (simp add: algebra_simps) }
qed

lemma dt_sqrt_128_loop_eq:
  "sqrt_inv (unat (w128 sq)) n df rs \<Longrightarrow> n \<le> 64 \<Longrightarrow> 
     \<exists>df'. sqrt_inv (unat (w128 sq)) 0 df' (dt_sqrt_128_loop sq n (2 * (n - 1)) df rs)"
proof (induction n arbitrary: df rs)
  case (Suc n)
  let ?df = "dt_add_128 (dt_shift_128 df 2) (fst (dt_shift_128 sq (- int (2 * n))) AND 3, 0)"
  let ?trial = "dt_add_128 (dt_shift_128 rs 2) (1, 0)"
  have n: "n \<le> 63" "2 * n - 2 = 2 * (n - 1)" using Suc.prems by auto
  show ?case
  proof (cases "dt_le_128 ?trial ?df")
    case True
    from Suc.IH [OF sqrt_step(1) [OF Suc.prems(1) n(1) True]] True n show ?thesis
      by (simp add: Let_def)
  next
    case False
    from Suc.IH [OF sqrt_step(2) [OF Suc.prems(1) n(1) False]] False n show ?thesis
      by (simp add: Let_def)
  qed
qed auto

lemma dt_sqrt_128_eq:
  "\<exists>r. dt_sqrt_128 sq = Some r \<and> unat r * unat r \<le> unat (w128 sq) \<and>
      unat (w128 sq) < (unat r + 1) * (unat r + 1)"
proof -
  define v where "v = unat (w128 sq)"
  define k where "k = blen (v div 2) div 2"
  have v: "v < 2 ^ 128" unfolding v_def using unsigned_less [of "w128 sq", where ?'a = nat] by simp
  then have "blen (v div 2) \<le> 127" by (intro blen_le) simp
  then have k: "Suc k \<le> 64" by (simp add: k_def)
  have "v div 2 < 2 ^ blen (v div 2)" by (rule blen_upper)
  then have "v < 2 ^ Suc (blen (v div 2))" by simp
  also have "\<dots> \<le> 2 ^ (2 * Suc k)" by (rule power_increasing) (auto simp: k_def)
  finally have "v < 4 ^ Suc k" by (simp add: power_mult)
  then have "sqrt_inv (unat (w128 sq)) (Suc k) (0, 0) (0, 0)"
    by (simp add: sqrt_inv_def v_def [symmetric])
  from dt_sqrt_128_loop_eq [OF this k] obtain df where
    f: "sqrt_inv v 0 df (dt_sqrt_128_loop sq (Suc k) (k * 2) (0, 0) (0, 0))"
    by (auto simp: v_def mult.commute simp del: dt_sqrt_128_loop.simps)
  define rs where "rs = dt_sqrt_128_loop sq (Suc k) (k * 2) (0, 0) (0, 0)"
  from f have r: "unat (w128 rs) < 2 ^ 64" "unat (w128 rs) * unat (w128 rs) \<le> v"
     "v < (unat (w128 rs) + 1) * (unat (w128 rs) + 1)"
    by (auto simp: sqrt_inv_def Let_def rs_def simp del: dt_sqrt_128_loop.simps)
  from r(1) have hi: "snd rs = 0" by (simp add: unat_w128 word_unat_eq_iff)
  then have "unat (w128 rs) = unat (fst rs)" by (simp add: unat_w128)
  with r hi show ?thesis
    by (simp add: dt_sqrt_128_def dt_nbits_128_eq Let_def v_def [symmetric] k_def [symmetric]
        rs_def [symmetric] del: dt_sqrt_128_loop.simps)
qed

section \<open>Standard deviation\<close>

lemma two_mult_sum_le:
  "2 * x * sum_list ys \<le> int (length ys) * (x * x) + (\<Sum>y\<leftarrow>ys. y * y)" for x :: int
proof (induction ys)
  case (Cons y ys)
  have "2 * x * y \<le> x * x + y * y"
    using zero_le_square [of "x - y"] by (simp add: algebra_simps)
  with Cons show ?case by (simp add: algebra_simps)
qed simp

lemma square_sum_le: "sum_list xs * sum_list xs \<le> int (length xs) * (\<Sum>x\<leftarrow>xs. x * x)"
  for xs :: "int list"
proof (induction xs)
  case (Cons x xs)
  then show ?case using two_mult_sum_le [of x xs] by (simp add: algebra_simps)
qed simp

lemma square_avg_le:
  fixes s n q :: nat
  assumes "s * s \<le> n * q" and "0 < n"
  shows "(s div n) * (s div n) \<le> q div n"
proof -
  have "(s div n * n) * (s div n * n) \<le> s * s" by (intro mult_le_mono) simp_all
  from le_trans [OF this assms(1)] have "n * ((s div n) * (s div n) * n) \<le> n * q"
    by (simp only: mult.commute mult.left_commute mult.assoc)
  then have "(s div n) * (s div n) * n \<le> q" using assms(2) by simp
  then show ?thesis using assms(2) by (simp add: less_eq_div_iff_mult_less_eq)
qed

lemma abs_sdiv: "\<bar>a sdiv b\<bar> = \<bar>a\<bar> div \<bar>b\<bar>" for a b :: int
  by (cases "a = 0"; cases "b = 0")
    (simp_all add: signed_divide_int_def abs_mult abs_sgn_eq pos_imp_zdiv_nonneg_iff)

lemma zdiv_le_self: "0 \<le> x \<Longrightarrow> 0 < d \<Longrightarrow> x div d \<le> x" for x d :: int
  using zdiv_mono2 [of x 1 d] by simp

lemma sint_of_int_64: "- (2 ^ 63) \<le> a \<Longrightarrow> a < 2 ^ 63 \<Longrightarrow> sint (word_of_int a :: u64) = a"
  by (simp add: signed_of_int signed_take_bit_int_eq_self)

lemma div_s64_eq:
  assumes "sint b \<noteq> 0" and "sint a > - (2 ^ 63)"
  shows "\<exists>q. div_s64 a b = Some q \<and> sint q = sint a sdiv sint b"
proof -
  have up: "sint a < 2 ^ 63" using sint_lt [of a] by simp
  have "\<bar>sint a sdiv sint b\<bar> \<le> \<bar>sint a\<bar>"
    unfolding abs_sdiv using assms(1) by (simp add: zdiv_le_self)
  then have "sint (word_of_int (sint a sdiv sint b) :: u64) = sint a sdiv sint b"
    using up assms(2) by (intro sint_of_int_64) auto
  then show ?thesis using assms by (auto simp: div_s64_def)
qed

lemma abs_u64:
  assumes "sint a > - (2 ^ 63)"
  shows "unat (if sint a < 0 then - a else a :: u64) = nat \<bar>sint a\<bar>"
proof -
  have up: "sint a < 2 ^ 63" using sint_lt [of a] by simp
  have "unat (word_of_int i :: u64) = nat i" if "0 \<le> i" "i < 2 ^ 63" for i
  proof -
    have "uint (word_of_int i :: u64) = i" using that by (simp add: unsigned_of_int take_bit_int_eq_self)
    then show ?thesis by (simp add: unat_eq_nat_uint)
  qed
  from this [of "\<bar>sint a\<bar>"] show ?thesis using up assms by (auto simp: abs_if)
qed

lemma dt_stddev_raw:
  assumes n: "sint data0 > 0" and s: "\<bar>sint data1\<bar> < 2 ^ 63" and nm: "sint normal > 0"
    and le: "(nat \<bar>sint data1\<bar> div unat normal div unat data0)\<^sup>2 \<le>
        unat (w128 data2) div unat normal div unat data0"
  shows "\<exists>r. dt_stddev data0 data1 data2 normal = Some r \<and>
     (unat r)\<^sup>2 \<le> unat (w128 data2) div unat normal div unat data0 -
        (nat \<bar>sint data1\<bar> div unat normal div unat data0)\<^sup>2 \<and>
     unat (w128 data2) div unat normal div unat data0 -
        (nat \<bar>sint data1\<bar> div unat normal div unat data0)\<^sup>2 < (unat r + 1)\<^sup>2"
proof -
  have nz: "data0 \<noteq> 0" "normal \<noteq> 0" using n nm by auto
  obtain q1 where q1: "dt_divide_128 data2 normal = Some q1"
     "unat (w128 q1) = unat (w128 data2) div unat normal" using dt_divide_128_eq [OF nz(2)] by blast
  obtain q2 where q2: "dt_divide_128 q1 data0 = Some q2" "unat (w128 q2) = unat (w128 q1) div unat data0"
    using dt_divide_128_eq [OF nz(1)] by blast
  obtain a1 where a1: "div_s64 data1 normal = Some a1" "sint a1 = sint data1 sdiv sint normal"
    using div_s64_eq [of normal data1] nm s by (auto simp: abs_less_iff)
  have l1: "\<bar>sint a1\<bar> = \<bar>sint data1\<bar> div sint normal" using nm by (simp add: a1 abs_sdiv)
  then have "\<bar>sint a1\<bar> \<le> \<bar>sint data1\<bar>" using nm by (simp add: zdiv_le_self)
  with s have s1: "\<bar>sint a1\<bar> < 2 ^ 63" by simp
  obtain a2 where a2: "div_s64 a1 data0 = Some a2" "sint a2 = sint a1 sdiv sint data0"
    using div_s64_eq [of data0 a1] n s1 by (auto simp: abs_less_iff)
  have l2: "\<bar>sint a2\<bar> = \<bar>sint data1\<bar> div sint normal div sint data0"
    using n by (simp add: a2 abs_sdiv l1)
  then have "\<bar>sint a2\<bar> \<le> \<bar>sint a1\<bar>" unfolding l1 using n nm
    by (simp add: pos_imp_zdiv_nonneg_iff zdiv_le_self)
  with s1 have "\<bar>sint a2\<bar> < 2 ^ 63" by simp
  then have s2: "sint a2 > - (2 ^ 63)" by (simp add: abs_less_iff)
  define av where "av = (if sint a2 < 0 then - a2 else a2)"
  have u: "nat (sint w) = unat w" if "sint w > 0" for w :: u64
    using abs_u64 [of w] that by simp
  have av: "unat av = nat \<bar>sint data1\<bar> div unat normal div unat data0"
    unfolding av_def abs_u64 [OF s2] l2 using n nm by (simp add: nat_div_distrib' u)
  define sq where "sq = dt_multiply_128 av av"
  have "unat av * unat av < 2 ^ 128" using mult_strict_mono [OF unat_lt64 [of av] unat_lt64 [of av]] by simp
  then have sq: "unat (w128 sq) = (unat av)\<^sup>2"
    unfolding sq_def w128_multiply_eq unat_of_nat by (simp add: power2_eq_square)
  have "unat (w128 (dt_subtract_128 q2 sq)) = unat (w128 q2) - unat (w128 sq)"
    unfolding w128_subtract using le by (intro unat_sub) (simp add: word_le_nat_alt sq av q1 q2)
  then show ?thesis
    using dt_sqrt_128_eq [of "dt_subtract_128 q2 sq"] q1 q2 a1(1) a2(1) sq av
    by (simp add: dt_stddev_def Let_def av_def [symmetric] sq_def [symmetric] power2_eq_square)
qed

text \<open>C8: Division.  \<open>dt_divide_128\<close> fails its assertion exactly on a zero divisor; on
  every other divisor its loop returns, and the quotient is the exact 128-bit quotient.\<close>

theorem dt_divide_128_correct:
  "map_option (\<lambda>q. unat (w128 q)) (dt_divide_128 dividend divisor) =
     (if divisor = 0 then None else Some (unat (w128 dividend) div unat divisor))"
  using dt_divide_128_eq [of divisor dividend] by (auto simp: dt_divide_128_def)

text \<open>C7: Square root.  On every 128-bit input \<open>dt_sqrt_128\<close> returns (its loops end and
  the assertion on the high word holds) the integer square root.\<close>

theorem dt_sqrt_128_correct:
  "\<exists>r. dt_sqrt_128 square = Some r \<and>
     (unat r)\<^sup>2 \<le> unat (w128 square) \<and> unat (w128 square) < (unat r + 1)\<^sup>2"
  using dt_sqrt_128_eq [of square] by (simp add: power2_eq_square)

text \<open>C6: Standard deviation.  When the aggregation record holds the count, the sum and the
  sum of squares of a non-empty list of samples, the sum fits a signed 64-bit and the sum of squares an unsigned
  128-bit number, and the normalization factor is 1, \<open>dt_stddev\<close> returns the integer square root of the average
  of the squares less the square of the average; the 128-bit subtraction does not wrap.\<close>

theorem dt_stddev_correct:
  assumes "xs \<noteq> []" and "length xs < 2 ^ 63" and "\<bar>sum_list xs\<bar> < 2 ^ 63"
    and "data2 = (of_nat (Q mod 2 ^ 64), of_nat (Q div 2 ^ 64))"
    and "int Q = (\<Sum>x\<leftarrow>xs. x * x)" and "Q < 2 ^ 128"
  defines "var \<equiv> Q div length xs - (nat \<bar>sum_list xs\<bar> div length xs)\<^sup>2"
  shows "\<exists>r. dt_stddev (of_nat (length xs)) (of_int (sum_list xs)) data2 1 = Some r \<and>
    (nat \<bar>sum_list xs\<bar> div length xs)\<^sup>2 \<le> Q div length xs \<and>
    (unat r)\<^sup>2 \<le> var \<and> var < (unat r + 1)\<^sup>2"
proof -
  let ?n = "of_nat (length xs) :: u64" and ?s = "of_int (sum_list xs) :: u64"
  have s: "sint ?s = sum_list xs" using assms(3) by (intro sint_of_int_64) (auto simp: abs_less_iff)
  have n: "sint ?n = int (length xs)"
    using sint_of_int_64 [of "int (length xs)"] assms(2) by simp
  have u: "unat ?n = length xs" using assms(2) by (simp add: unat_of_nat)
  have h: "Q div 2 ^ 64 < 2 ^ 64" using assms(6) by (simp add: less_mult_imp_div_less)
  have q: "unat (w128 data2) = Q"
    using h unfolding assms(4) unat_w128 fst_conv snd_conv unat_of_nat by simp
  have "sum_list xs * sum_list xs \<le> int (length xs * Q)"
    using square_sum_le [of xs] assms(5) by simp
  then have "int (nat \<bar>sum_list xs\<bar> * nat \<bar>sum_list xs\<bar>) \<le> int (length xs * Q)" by simp
  then have "nat \<bar>sum_list xs\<bar> * nat \<bar>sum_list xs\<bar> \<le> length xs * Q" by (simp only: of_nat_le_iff)
  then have le: "(nat \<bar>sum_list xs\<bar> div length xs)\<^sup>2 \<le> Q div length xs"
    using assms(1) square_avg_le by (simp add: power2_eq_square)
  from dt_stddev_raw [of ?n ?s 1 data2] show ?thesis
    using assms(1,3) le by (simp add: s n u q var_def)
qed

theorem dt_stddev_correct_witness:
  "\<exists>r. dt_stddev 3 3 (35, 0) 1 = Some r \<and> (unat r)\<^sup>2 \<le> 10 \<and> 10 < (unat r + 1)\<^sup>2"
  using dt_stddev_correct [of "[1, 5, -3]" "(35, 0)" 35] by simp

lemma dt_shift_128_right_drops_bits:
  "dt_shift_128 (0, push_bit 24 1) (- 40) = (0, 0)"
  "drop_bit 40 (w128 (0, push_bit 24 1)) \<noteq> w128 (0, 0)"
  by (simp_all add: dt_shift_128_def w128_of_nat)

lemma isqrt_unique: "r\<^sup>2 \<le> s\<^sup>2 \<Longrightarrow> s\<^sup>2 < (r + 1)\<^sup>2 \<Longrightarrow> r = s" for r s :: nat
  using power2_le_imp_le [of r s] power_less_imp_less_base [of s 2 "r + 1"] by simp

lemma dt_stddev_normalized:
  "dt_stddev 1 4 (16, 0) 1 = Some 0" "dt_stddev 1 4 (16, 0) 2 = Some 2"
  using dt_stddev_raw [of 1 4 1 "(16, 0)"] dt_stddev_raw [of 1 4 2 "(16, 0)"]
    isqrt_unique [of _ 0] isqrt_unique [of _ 2]
  by (auto simp: w128_low word_unat_eq_iff)

end
