(* ===== verification/DTString.thy ===== *)
theory DTString
  imports DTPrelude "HOL-Library.Monad_Syntax" "HOL-Library.Sublist"
begin

text \<open>
  The string helpers of \<open>libdtrace/dt_string.c\<close>.  A character is an 8-bit word.  The
  functions that transform a string in place (\<open>stresc2chr\<close>, \<open>strhyphenate\<close>) work on the
  array that holds it, with explicit read and write positions, and fail (\<open>None\<close>) on an
  access outside the array; the others take the characters before the terminating NUL.
  \<open>char\<close> is signed, so characters from 128 on are negative in comparisons and in sums.

  The in-place routines are proved equal to list functions (\<open>unesc\<close>, \<open>hyphens\<close>), the
  escaping routine to be inverted by the unescaping one and to stay within the space it
  allocates, and the searching routines to find what their comments say.
\<close>

type_synonym cstr = "u8 list"

abbreviation cc :: "char \<Rightarrow> u8" where
  "cc c \<equiv> of_char c"

section \<open>Array access\<close>

definition rd :: "u8 list \<Rightarrow> nat \<Rightarrow> u8 option" where
  "rd buf i = (if i < length buf then Some (buf ! i) else None)"

definition wr :: "u8 list \<Rightarrow> nat \<Rightarrow> u8 \<Rightarrow> u8 list option" where
  "wr buf i c = (if i < length buf then Some (buf[i := c]) else None)"

section \<open>Routines\<close>

definition str2hval_step :: "u32 \<Rightarrow> u8 \<Rightarrow> u32" where
  "str2hval_step hval c =
     (let hval = push_bit 4 hval + scast c;
          g = hval AND 0xf0000000
      in if g \<noteq> 0 then (hval XOR drop_bit 24 g) XOR g else hval)"

definition str2hval :: "cstr option \<Rightarrow> u32 \<Rightarrow> u32" where
  "str2hval p hval = (case p of None \<Rightarrow> hval | Some s \<Rightarrow> foldl str2hval_step hval s)"

definition is_octal :: "u8 \<Rightarrow> bool" where
  "is_octal c \<longleftrightarrow> cc CHR ''0'' \<le> c \<and> c \<le> cc CHR ''7''"

definition hex_digit :: "u8 \<Rightarrow> u32 option" where
  "hex_digit c =
     (if cc CHR ''0'' \<le> c \<and> c \<le> cc CHR ''9'' then Some (ucast (c - cc CHR ''0''))
      else if cc CHR ''a'' \<le> c \<and> c \<le> cc CHR ''f'' then Some (ucast (c - cc CHR ''a'') + 10)
      else if cc CHR ''A'' \<le> c \<and> c \<le> cc CHR ''F'' then Some (ucast (c - cc CHR ''A'') + 10)
      else None)"

definition esc_letter :: "u8 \<Rightarrow> u8 option" where
  "esc_letter c =
     (if c = cc CHR ''a'' then Some 7
      else if c = cc CHR ''b'' then Some 8
      else if c = cc CHR ''f'' then Some 12
      else if c = cc CHR ''n'' then Some 10
      else if c = cc CHR ''r'' then Some 13
      else if c = cc CHR ''t'' then Some 9
      else if c = cc CHR ''v'' then Some 11
      else None)"

text \<open>Octal escape whose first digit is at \<open>p\<close>: its value and its last position.\<close>

definition esc_octal :: "u8 list \<Rightarrow> nat \<Rightarrow> (u8 \<times> nat) option" where
  "esc_octal buf p = do {
     c0 \<leftarrow> rd buf p;
     let c = c0 - cc CHR ''0'';
     c1 \<leftarrow> rd buf (p + 1);
     if is_octal c1 then do {
       let c = c * 8 + c1 - cc CHR ''0'';
       c2 \<leftarrow> rd buf (p + 2);
       if is_octal c2 then Some (c * 8 + c2 - cc CHR ''0'', p + 2) else Some (c, p + 1)
     } else Some (c, p)
   }"

text \<open>Hexadecimal escape, with \<open>p\<close> the last position read: its value and last position.\<close>

partial_function (option) esc_hex :: "u8 list \<Rightarrow> nat \<Rightarrow> u32 \<Rightarrow> (u32 \<times> nat) option" where
  "esc_hex buf p x = do {
     c \<leftarrow> rd buf (p + 1);
     if c = 0 then Some (x, p)
     else (case hex_digit c of
             Some d \<Rightarrow> esc_hex buf (p + 1) (x * 16 + d)
           | None \<Rightarrow> Some (x, p))
   }"

partial_function (option) stresc2chr_loop ::
  "u8 list \<Rightarrow> nat \<Rightarrow> nat \<Rightarrow> bool \<Rightarrow> (u8 list \<times> nat) option" where
  "stresc2chr_loop buf p q esc = do {
     c \<leftarrow> rd buf p;
     if c = 0 then do { buf \<leftarrow> wr buf q 0; Some (buf, q) }
     else if esc then
       (if is_octal c then do {
          vp \<leftarrow> esc_octal buf p;
          buf \<leftarrow> wr buf q (fst vp);
          stresc2chr_loop buf (snd vp + 1) (q + 1) False
        } else (case esc_letter c of
          Some v \<Rightarrow> do {
            buf \<leftarrow> wr buf q v;
            stresc2chr_loop buf (p + 1) (q + 1) False }
        | None \<Rightarrow>
            if c = cc CHR ''x'' then do {
              xp \<leftarrow> esc_hex buf p 0;
              buf \<leftarrow> wr buf q (ucast (fst xp));
              stresc2chr_loop buf (snd xp + 1) (q + 1) False }
            else if c = cc CHR 0x22 \<or> c = cc CHR 0x5C then do {
              buf \<leftarrow> wr buf q c;
              stresc2chr_loop buf (p + 1) (q + 1) False }
            else do {
              buf \<leftarrow> wr buf q (cc CHR 0x5C);
              buf \<leftarrow> wr buf (q + 1) c;
              stresc2chr_loop buf (p + 1) (q + 2) False }))
     else if c = cc CHR 0x5C then stresc2chr_loop buf (p + 1) q True
     else do {
       buf \<leftarrow> wr buf q c;
       stresc2chr_loop buf (p + 1) (q + 1) False }
   }"

definition stresc2chr :: "u8 list \<Rightarrow> (u8 list \<times> nat) option" where
  "stresc2chr s = stresc2chr_loop s 0 0 False"

text \<open>
  \<open>strchr2esc\<close> over the \<open>n\<close> characters of \<open>s\<close>: the first pass counts the additional
  space, the second writes, stopping after a NUL.  The result is the size of the
  allocation and the characters written before the terminating NUL.
\<close>

definition unprintable :: "u8 \<Rightarrow> bool" where
  "unprintable c \<longleftrightarrow> sint c < sint (cc CHR ''!'') \<or> sint c > sint (cc CHR ''~'')"

definition chr_letter :: "u8 \<Rightarrow> u8 option" where
  "chr_letter c =
     (if c = 0 then Some (cc CHR ''0'')
      else if c = 7 then Some (cc CHR ''a'')
      else if c = 8 then Some (cc CHR ''b'')
      else if c = 12 then Some (cc CHR ''f'')
      else if c = 10 then Some (cc CHR ''n'')
      else if c = 13 then Some (cc CHR ''r'')
      else if c = 9 then Some (cc CHR ''t'')
      else if c = 11 then Some (cc CHR ''v'')
      else if c = cc CHR 0x22 then Some (cc CHR 0x22)
      else if c = cc CHR 0x5C then Some (cc CHR 0x5C)
      else None)"

definition addl_chr :: "u8 \<Rightarrow> nat" where
  "addl_chr c =
     (if chr_letter c \<noteq> None then 1
      else if c = cc CHR '' '' then 0
      else if unprintable c then 3 else 0)"

definition esc_chr :: "u8 \<Rightarrow> u8 list" where
  "esc_chr c =
     (case chr_letter c of
        Some l \<Rightarrow> [cc CHR 0x5C, l]
      | None \<Rightarrow>
          if c = cc CHR '' '' then [c]
          else if unprintable c then
            [cc CHR 0x5C,
             (signed_drop_bit 6 c AND 3) + cc CHR ''0'',
             (signed_drop_bit 3 c AND 7) + cc CHR ''0'',
             (c AND 7) + cc CHR ''0'']
          else [c])"

fun strchr2esc_write :: "u8 list \<Rightarrow> u8 list" where
  "strchr2esc_write [] = []"
| "strchr2esc_write (c # cs) = esc_chr c @ (if c = 0 then [] else strchr2esc_write cs)"

definition strchr2esc :: "u8 list \<Rightarrow> alloc \<Rightarrow> (nat \<times> u8 list) option \<times> alloc" where
  "strchr2esc s al =
     (let addl = sum_list (map addl_chr s);
          (ok, al) = alloc_ok al
      in (if ok then Some (length s + addl + 1, strchr2esc_write s) else None, al))"

definition strrchr :: "cstr \<Rightarrow> u8 \<Rightarrow> nat option" where
  "strrchr s c =
     (if c \<in> set s then Some (length s - 1 - length (takeWhile (\<lambda>x. x \<noteq> c) (rev s))) else None)"

definition strbasename :: "cstr \<Rightarrow> nat" where
  "strbasename s = (case strrchr s (cc CHR ''/'') of None \<Rightarrow> 0 | Some p \<Rightarrow> Suc p)"

text \<open>
  \<open>strtoull (s, &p, 0)\<close> of the C library: whether \<open>errno\<close> is set (the value does not fit
  64 bits) and the position of \<open>p\<close>, which is 0 when there are no digits.
\<close>

definition isspace :: "u8 \<Rightarrow> bool" where
  "isspace c \<longleftrightarrow> c = 32 \<or> (9 \<le> c \<and> c \<le> 13)"

definition isdigit :: "u8 \<Rightarrow> bool" where
  "isdigit c \<longleftrightarrow> cc CHR ''0'' \<le> c \<and> c \<le> cc CHR ''9''"

definition isalnum :: "u8 \<Rightarrow> bool" where
  "isalnum c \<longleftrightarrow> isdigit c \<or> (cc CHR ''a'' \<le> c \<and> c \<le> cc CHR ''z'') \<or>
     (cc CHR ''A'' \<le> c \<and> c \<le> cc CHR ''Z'')"

definition digits_value :: "nat \<Rightarrow> u8 list \<Rightarrow> nat" where
  "digits_value base ds =
     foldl (\<lambda>v c. v * base + (case hex_digit c of Some d \<Rightarrow> unat d | None \<Rightarrow> 0)) 0 ds"

definition strtoull0 :: "cstr \<Rightarrow> bool \<times> nat" where
  "strtoull0 s =
     (let i = length (takeWhile isspace s);
          s1 = drop i s;
          sg = (case s1 of c # _ \<Rightarrow> if c = cc CHR ''+'' \<or> c = cc CHR ''-'' then 1 else 0 | [] \<Rightarrow> 0);
          s2 = drop sg s1;
          (pre, base, ds) =
            (case s2 of
               z # x # h # r \<Rightarrow>
                 if z = cc CHR ''0'' \<and> (x = cc CHR ''x'' \<or> x = cc CHR ''X'') \<and> hex_digit h \<noteq> None
                 then (2, 16, takeWhile (\<lambda>c. hex_digit c \<noteq> None) (h # r))
                 else if z = cc CHR ''0'' then (0, 8, takeWhile is_octal s2)
                 else (0, 10, takeWhile isdigit s2)
             | z # r \<Rightarrow>
                 if z = cc CHR ''0'' then (0, 8, takeWhile is_octal s2)
                 else (0, 10, takeWhile isdigit s2)
             | [] \<Rightarrow> (0, 10, []))
      in if ds = [] then (False, 0)
         else (digits_value base ds \<ge> 2 ^ 64, i + sg + pre + length ds))"

definition idnum_chr :: "u8 \<Rightarrow> bool" where
  "idnum_chr c \<longleftrightarrow> isalnum c \<or> c = cc CHR ''_'' \<or> c = cc CHR 0x60"

fun bad_chr :: "nat \<Rightarrow> cstr \<Rightarrow> nat option" where
  "bad_chr i [] = None"
| "bad_chr i (c # s) = (if \<not> idnum_chr c then Some i else bad_chr (Suc i) s)"

definition strbadidnum :: "cstr \<Rightarrow> nat option" where
  "strbadidnum s =
     (if s = [] then Some 0
      else
        (let (err, p) = strtoull0 s
         in if \<not> err \<and> p = length s then None else bad_chr 0 s))"

fun strisglob :: "cstr \<Rightarrow> bool" where
  "strisglob [] = False"
| "strisglob (c # s) =
     (if c = cc CHR ''['' \<or> c = cc CHR ''?'' \<or> c = cc CHR ''*'' \<or> c = cc CHR 0x5C then True
      else strisglob s)"

definition strlen :: "u8 list \<Rightarrow> nat option" where
  "strlen buf = (if 0 \<in> set buf then Some (length (takeWhile (\<lambda>c. c \<noteq> 0) buf)) else None)"

definition memmove :: "u8 list \<Rightarrow> nat \<Rightarrow> nat \<Rightarrow> nat \<Rightarrow> u8 list option" where
  "memmove buf d s n =
     (if s + n \<le> length buf \<and> d + n \<le> length buf
      then Some (take d buf @ take n (drop s buf) @ drop (d + n) buf) else None)"

partial_function (option) strhyphenate_loop :: "u8 list \<Rightarrow> nat \<Rightarrow> nat \<Rightarrow> u8 list option" where
  "strhyphenate_loop buf p q =
     (if p < q then do {
        c0 \<leftarrow> rd buf p;
        c1 \<leftarrow> (if c0 = cc CHR ''_'' then rd buf (p + 1) else Some 0);
        if c0 = cc CHR ''_'' \<and> c1 = cc CHR ''_'' then do {
          buf \<leftarrow> wr buf p (cc CHR ''-'');
          buf \<leftarrow> memmove buf (p + 1) (p + 2) (q - p - 1);
          strhyphenate_loop buf (p + 1) q
        } else strhyphenate_loop buf (p + 1) q
      } else Some buf)"

definition strhyphenate :: "u8 list \<Rightarrow> u8 list option" where
  "strhyphenate s = do { n \<leftarrow> strlen s; strhyphenate_loop s 0 n }"

text \<open>
  \<open>strstr\<close> of the C library from position \<open>i\<close> of a string: \<open>None\<close> when \<open>i\<close> is past the
  terminating NUL, otherwise NULL or the first position of the needle.
\<close>

definition strstr :: "cstr \<Rightarrow> nat \<Rightarrow> cstr \<Rightarrow> nat option option" where
  "strstr s i needle =
     (if i \<le> length s then Some (find (\<lambda>j. prefix needle (drop j s)) [i ..< Suc (length s)])
      else None)"

partial_function (option) strrstr_loop ::
  "cstr \<Rightarrow> cstr \<Rightarrow> nat \<Rightarrow> nat option \<Rightarrow> nat option option" where
  "strrstr_loop haystack needle i prev_s = do {
     s \<leftarrow> strstr haystack i needle;
     (case s of
        None \<Rightarrow> Some prev_s
      | Some j \<Rightarrow> strrstr_loop haystack needle (Suc j) (Some j))
   }"

definition strrstr :: "cstr \<Rightarrow> cstr \<Rightarrow> nat option option" where
  "strrstr haystack needle = strrstr_loop haystack needle 0 None"

section \<open>Reference functions\<close>

fun octal_value :: "u8 list \<Rightarrow> u8" where
  "octal_value ds = foldl (\<lambda>v c. v * 8 + c - cc CHR ''0'') 0 ds"

definition hex_value :: "u8 list \<Rightarrow> u32" where
  "hex_value ds = foldl (\<lambda>v c. v * 16 + the (hex_digit c)) 0 ds"

fun unesc :: "bool \<Rightarrow> cstr \<Rightarrow> cstr" where
  "unesc esc [] = []"
| "unesc False (c # cs) =
     (if c = cc CHR 0x5C then unesc True cs else c # unesc False cs)"
| "unesc True (c # cs) =
     (if is_octal c then
        (let ds = takeWhile is_octal (take 3 (c # cs))
         in octal_value ds # unesc False (drop (length ds - 1) cs))
      else (case esc_letter c of
        Some v \<Rightarrow> v # unesc False cs
      | None \<Rightarrow>
          if c = cc CHR ''x'' then
            (let ds = takeWhile (\<lambda>c. hex_digit c \<noteq> None) cs
             in ucast (hex_value ds) # unesc False (drop (length ds) cs))
          else if c = cc CHR 0x22 \<or> c = cc CHR 0x5C then c # unesc False cs
          else cc CHR 0x5C # c # unesc False cs))"

fun hyphens :: "cstr \<Rightarrow> cstr" where
  "hyphens [] = []"
| "hyphens [c] = [c]"
| "hyphens (c # d # cs) =
     (if c = cc CHR ''_'' \<and> d = cc CHR ''_'' then cc CHR ''-'' # hyphens cs
      else c # hyphens (d # cs))"

section \<open>Unescaping in place\<close>

lemma rd_layout [simp]:
  "rd (out @ xs) (length out + i) = (if i < length xs then Some (xs ! i) else None)"
  by (simp add: rd_def nth_append)

lemma rd_at [simp]: "length out = p \<Longrightarrow> rd (out @ x # xs) p = Some x"
  by (auto simp: rd_def)

lemma wr_at [simp]: "wr (out @ x # xs) (length out) c = Some (out @ c # xs)"
  by (simp add: wr_def list_update_append)

lemma esc_hex_eq:
  "0 \<notin> set cs \<Longrightarrow> Suc p = length pre \<Longrightarrow>
   esc_hex (pre @ cs @ 0 # tail) p x =
     Some (foldl (\<lambda>v c. v * 16 + the (hex_digit c)) x (takeWhile (\<lambda>c. hex_digit c \<noteq> None) cs),
           p + length (takeWhile (\<lambda>c. hex_digit c \<noteq> None) cs))"
proof (induction cs arbitrary: p pre x)
  case Nil
  then show ?case by (simp add: esc_hex.simps)
next
  case (Cons c cs)
  have r: "rd (pre @ (c # cs) @ 0 # tail) (p + 1) = Some c" using Cons.prems by simp
  show ?case
  proof (cases "hex_digit c")
    case None
    with r Cons.prems show ?thesis by (simp add: esc_hex.simps)
  next
    case (Some d)
    have "esc_hex (pre @ (c # cs) @ 0 # tail) p x = esc_hex ((pre @ [c]) @ cs @ 0 # tail) (p + 1) (x * 16 + d)"
      using r Cons.prems Some by (subst esc_hex.simps) simp
    also note Cons.IH [of "p + 1" "pre @ [c]"]
    finally show ?thesis using Cons.prems Some by simp
  qed
qed

lemma zero_not_octal [simp]: "\<not> is_octal 0" by (simp add: is_octal_def)

lemma esc_octal_eq:
  assumes "is_octal c" and "length pre = p"
  shows "esc_octal (pre @ c # cs @ 0 # tail) p =
     (let ds = takeWhile is_octal (take 3 (c # cs)) in Some (octal_value ds, p + length ds - 1))"
proof (cases cs)
  case Nil
  with assms show ?thesis
    using rd_layout [of pre "c # cs @ 0 # tail" 1] by (simp add: esc_octal_def)
next
  case (Cons c1 cs1)
  show ?thesis
  proof (cases cs1)
    case Nil
    with assms Cons show ?thesis
      using rd_layout [of pre "c # cs @ 0 # tail" 1] rd_layout [of pre "c # cs @ 0 # tail" 2]
      by (simp add: esc_octal_def)
  next
    case (Cons c2 cs2)
    with assms \<open>cs = c1 # cs1\<close> show ?thesis
      using rd_layout [of pre "c # cs @ 0 # tail" 1] rd_layout [of pre "c # cs @ 0 # tail" 2]
      by (simp add: esc_octal_def numeral_3_eq_3)
  qed
qed

lemma wr_gap:
  "G @ k \<noteq> [] \<Longrightarrow> wr (out @ G @ k @ r) (length out) v = Some ((out @ [v]) @ tl (G @ k) @ r)"
  by (cases "G @ k") (auto simp flip: append_assoc)

text \<open>
  The in-place loop: \<open>out\<close> is what has been written, \<open>G\<close> the gap between the write and the
  read position, \<open>rest\<close> what is still to be read.
\<close>

definition unesc_post :: "u8 list \<Rightarrow> u8 list \<Rightarrow> nat \<Rightarrow> (u8 list \<times> nat) option \<Rightarrow> bool" where
  "unesc_post out s n r \<longleftrightarrow>
     (\<exists>tail. r = Some (out @ s @ 0 # tail, length out + length s) \<and>
        length (out @ s @ 0 # tail) = n)"

lemma unesc_postI:
  "unesc_post (out @ [v]) s n r \<Longrightarrow> unesc_post out (v # s) n r"
  "unesc_post (out @ [v, w]) s n r \<Longrightarrow> unesc_post out (v # w # s) n r"
  by (auto simp: unesc_post_def)

definition unesc_ok :: "bool \<Rightarrow> u8 list \<Rightarrow> bool" where
  "unesc_ok esc cs \<longleftrightarrow>
     (\<forall>out G tail. 0 \<notin> set cs \<longrightarrow> (esc \<longrightarrow> G \<noteq> []) \<longrightarrow>
        unesc_post out (unesc esc cs) (length (out @ G @ cs @ 0 # tail))
          (stresc2chr_loop (out @ G @ cs @ 0 # tail) (length (out @ G)) (length out) esc))"

lemma unesc_okD:
  "unesc_ok esc cs \<Longrightarrow> 0 \<notin> set cs \<Longrightarrow> (esc \<Longrightarrow> G \<noteq> []) \<Longrightarrow> p = length (out @ G) \<Longrightarrow>
   n = length (out @ G @ cs @ 0 # tail) \<Longrightarrow>
   unesc_post out (unesc esc cs) n (stresc2chr_loop (out @ G @ cs @ 0 # tail) p (length out) esc)"
  by (auto simp: unesc_ok_def)

lemma unesc_step:
  assumes ok: "unesc_ok False cs'" and rest: "rest = k @ cs'" and k: "k \<noteq> []" and nz: "0 \<notin> set rest"
    and st: "stresc2chr_loop (out @ G @ rest @ 0 # tail) p q esc =
      (wr (out @ G @ rest @ 0 # tail) (length out) v \<bind>
         (\<lambda>buf. stresc2chr_loop buf (length (out @ G) + length k) (length out + 1) False))"
  shows "unesc_post out (v # unesc False cs') (length (out @ G @ rest @ 0 # tail))
           (stresc2chr_loop (out @ G @ rest @ 0 # tail) p q esc)"
proof -
  have l: "length (tl (G @ k)) = length G + length k - 1" "length k \<ge> 1"
    using k by (auto simp: Suc_le_eq)
  have e: "stresc2chr_loop (out @ G @ rest @ 0 # tail) p q esc =
     stresc2chr_loop ((out @ [v]) @ tl (G @ k) @ cs' @ 0 # tail)
       (length (out @ G) + length k) (length (out @ [v])) False"
    using wr_gap [of G k out "cs' @ 0 # tail" v] k st unfolding rest by simp
  show ?thesis unfolding e
    by (rule unesc_postI(1), rule unesc_okD [OF ok]) (use nz l in \<open>auto simp: rest\<close>)
qed

lemma unesc_step2:
  assumes ok: "unesc_ok False cs" and G: "G \<noteq> []" and nz: "0 \<notin> set cs"
    and st: "stresc2chr_loop (out @ G @ (c # cs) @ 0 # tail) p q esc =
      (wr (out @ G @ (c # cs) @ 0 # tail) (length out) v \<bind>
         (\<lambda>buf. wr buf (length out + 1) w \<bind>
         (\<lambda>buf. stresc2chr_loop buf (length (out @ G) + 1) (length out + 2) False)))"
  shows "unesc_post out (v # w # unesc False cs) (length (out @ G @ (c # cs) @ 0 # tail))
           (stresc2chr_loop (out @ G @ (c # cs) @ 0 # tail) p q esc)"
proof -
  from G obtain g G1 where G1: "G = g # G1" by (cases G) auto
  have e: "stresc2chr_loop (out @ G @ (c # cs) @ 0 # tail) p q esc =
     stresc2chr_loop ((out @ [v, w]) @ tl (G1 @ [c]) @ cs @ 0 # tail)
       (length (out @ G) + 1) (length (out @ [v, w])) False"
    using wr_gap [of G "[c]" out "cs @ 0 # tail" v] st
      wr_gap [of G1 "[c]" "out @ [v]" "cs @ 0 # tail" w] by (simp add: G1)
  show ?thesis unfolding e
    by (rule unesc_postI(2), rule unesc_okD [OF ok]) (use nz in \<open>auto simp: G1\<close>)
qed

lemma takeWhile_take_drop:
  "takeWhile P (take n cs) @ drop (length (takeWhile P (take n cs))) cs = cs"
proof (induction cs arbitrary: n)
  case (Cons c cs)
  then show ?case by (cases n) auto
qed simp

lemma unesc_ok_octal:
  assumes c: "is_octal c" and ds: "ds = takeWhile is_octal (take 3 (c # cs))"
    and ok: "unesc_ok False (drop (length ds - 1) cs)"
  shows "unesc_ok True (c # cs)"
proof -
  have k: "ds \<noteq> []" "c # cs = ds @ drop (length ds - 1) cs"
    using takeWhile_take_drop [of is_octal 2 cs] c by (simp_all add: ds numeral_eq_Suc)
  { fix out G :: "u8 list" and tail
    assume nz: "0 \<notin> set (c # cs)"
    let ?buf = "out @ G @ (c # cs) @ 0 # tail" and ?p = "length (out @ G)"
    have r: "rd ?buf ?p = Some c" using rd_at [of "out @ G" _ c "cs @ 0 # tail"] by simp
    have o: "esc_octal ?buf ?p = Some (octal_value ds, ?p + length ds - 1)"
      using esc_octal_eq [of c "out @ G" ?p cs tail] c by (simp add: ds Let_def)
    have "stresc2chr_loop ?buf ?p (length out) True = (wr ?buf (length out) (octal_value ds) \<bind>
           (\<lambda>buf. stresc2chr_loop buf (?p + length ds) (length out + 1) False))"
      using r nz o c k(1) by (subst stresc2chr_loop.simps) (simp del: octal_value.simps)
    from unesc_step [OF ok k(2,1) nz this] c
    have "unesc_post out (unesc True (c # cs)) (length ?buf)
            (stresc2chr_loop ?buf ?p (length out) True)"
      by (simp add: ds Let_def del: octal_value.simps) }
  then show ?thesis by (simp add: unesc_ok_def)
qed

lemma unesc_ok_hex:
  assumes c: "c = cc CHR ''x''" and ds: "ds = takeWhile (\<lambda>c. hex_digit c \<noteq> None) cs"
    and ok: "unesc_ok False (drop (length ds) cs)"
  shows "unesc_ok True (c # cs)"
proof -
  have k: "c # cs = (c # ds) @ drop (length ds) cs"
    using takeWhile_take_drop [of "\<lambda>c. hex_digit c \<noteq> None" "length cs" cs] by (simp add: ds)
  { fix out G :: "u8 list" and tail
    assume nz: "0 \<notin> set (c # cs)"
    let ?buf = "out @ G @ (c # cs) @ 0 # tail" and ?p = "length (out @ G)"
    have r: "rd ?buf ?p = Some c" using rd_at [of "out @ G" _ c "cs @ 0 # tail"] by simp
    have o: "esc_hex ?buf ?p 0 = Some (hex_value ds, ?p + length ds)"
      using esc_hex_eq [of cs ?p "out @ G @ [c]" tail 0] nz by (simp add: ds hex_value_def)
    have "stresc2chr_loop ?buf ?p (length out) True = (wr ?buf (length out) (ucast (hex_value ds)) \<bind>
           (\<lambda>buf. stresc2chr_loop buf (?p + length (c # ds)) (length out + 1) False))"
      using r nz o c by (subst stresc2chr_loop.simps) (simp add: is_octal_def esc_letter_def)
    from unesc_step [OF ok k _ nz this] c
    have "unesc_post out (unesc True (c # cs)) (length ?buf)
            (stresc2chr_loop ?buf ?p (length out) True)"
      by (simp add: ds Let_def is_octal_def esc_letter_def) }
  then show ?thesis by (simp add: unesc_ok_def)
qed

lemma unesc_ok_single:
  assumes c: "\<not> is_octal c"
    "esc_letter c = Some v \<or> esc_letter c = None \<and> v = c \<and> (c = cc CHR 0x22 \<or> c = cc CHR 0x5C)"
    and ok: "unesc_ok False cs"
  shows "unesc_ok True (c # cs)"
proof -
  { fix out G :: "u8 list" and tail
    assume nz: "0 \<notin> set (c # cs)"
    let ?buf = "out @ G @ (c # cs) @ 0 # tail" and ?p = "length (out @ G)"
    have r: "rd ?buf ?p = Some c" using rd_at [of "out @ G" _ c "cs @ 0 # tail"] by simp
    have "stresc2chr_loop ?buf ?p (length out) True = (wr ?buf (length out) v \<bind>
           (\<lambda>buf. stresc2chr_loop buf (?p + length [c]) (length out + 1) False))"
      using r nz c by (subst stresc2chr_loop.simps) auto
    from unesc_step [OF ok _ _ nz this] c
    have "unesc_post out (unesc True (c # cs)) (length ?buf)
            (stresc2chr_loop ?buf ?p (length out) True)" by auto }
  then show ?thesis by (simp add: unesc_ok_def)
qed

lemma unesc_ok_other:
  assumes c: "\<not> is_octal c" "esc_letter c = None" "c \<noteq> cc CHR ''x''" "\<not> (c = cc CHR 0x22 \<or> c = cc CHR 0x5C)"
    and ok: "unesc_ok False cs"
  shows "unesc_ok True (c # cs)"
proof -
  { fix out G :: "u8 list" and tail
    assume nz: "0 \<notin> set (c # cs)" and G: "G \<noteq> []"
    let ?buf = "out @ G @ (c # cs) @ 0 # tail" and ?p = "length (out @ G)"
    have r: "rd ?buf ?p = Some c" using rd_at [of "out @ G" _ c "cs @ 0 # tail"] by simp
    have "stresc2chr_loop ?buf ?p (length out) True = (wr ?buf (length out) (cc CHR 0x5C) \<bind>
           (\<lambda>buf. wr buf (length out + 1) c \<bind>
           (\<lambda>buf. stresc2chr_loop buf (?p + 1) (length out + 2) False)))"
      using r nz c by (subst stresc2chr_loop.simps) simp
    from unesc_step2 [OF ok G _ this] nz c
    have "unesc_post out (unesc True (c # cs)) (length ?buf)
            (stresc2chr_loop ?buf ?p (length out) True)" by simp }
  then show ?thesis by (simp add: unesc_ok_def)
qed

lemma unesc_ok_all: "unesc_ok esc rest"
proof (induction esc rest rule: unesc.induct)
  case (1 esc)
  have "unesc_post out [] (length (out @ G @ 0 # tail))
      (stresc2chr_loop (out @ G @ 0 # tail) (length (out @ G)) (length out) esc)" for out G tail
    using rd_at [of "out @ G" _ 0 tail] wr_gap [of G "[0]" out tail 0]
    by (simp add: stresc2chr_loop.simps unesc_post_def)
  then show ?case by (simp add: unesc_ok_def)
next
  case (2 c cs)
  { fix out G :: "u8 list" and tail
    assume nz: "0 \<notin> set (c # cs)"
    let ?buf = "out @ G @ (c # cs) @ 0 # tail" and ?p = "length (out @ G)"
    have r: "rd ?buf ?p = Some c" using rd_at [of "out @ G" _ c "cs @ 0 # tail"] by simp
    have "unesc_post out (unesc False (c # cs)) (length ?buf)
            (stresc2chr_loop ?buf ?p (length out) False)"
    proof (cases "c = cc CHR 0x5C")
      case True
      have "stresc2chr_loop ?buf ?p (length out) False =
          stresc2chr_loop (out @ (G @ [c]) @ cs @ 0 # tail) (?p + 1) (length out) True"
        using r True by (subst stresc2chr_loop.simps) simp
      with 2(1) [OF True] True nz show ?thesis
        using unesc_okD [of True cs "G @ [c]" "?p + 1" out _ tail] by simp
    next
      case False
      then have st: "stresc2chr_loop ?buf ?p (length out) False =
        (wr ?buf (length out) c \<bind>
           (\<lambda>buf. stresc2chr_loop buf (?p + length [c]) (length out + 1) False))"
        using r nz by (subst stresc2chr_loop.simps) simp
      from unesc_step [OF 2(2) [OF False] _ _ nz st] False show ?thesis by simp
    qed }
  then show ?case by (simp add: unesc_ok_def)
next
  case (3 c cs)
  show ?case
  proof (cases "is_octal c")
    case True
    from unesc_ok_octal [OF True refl "3.IH"(1) [OF True refl]] show ?thesis .
  next
    case oct: False
    show ?thesis
    proof (cases "esc_letter c")
      case (Some v)
      with oct "3.IH"(5) show ?thesis by (intro unesc_ok_single) auto
    next
      case None
      consider "c = cc CHR ''x''" | "c \<noteq> cc CHR ''x''" "c = cc CHR 0x22 \<or> c = cc CHR 0x5C"
        | "c \<noteq> cc CHR ''x''" "\<not> (c = cc CHR 0x22 \<or> c = cc CHR 0x5C)" by blast
      then show ?thesis
      proof cases
        case 1
        from unesc_ok_hex [OF 1 refl "3.IH"(2) [OF oct None 1 refl]] show ?thesis .
      next
        case 2
        from unesc_ok_single [of c c, OF oct _ "3.IH"(3) [OF oct None 2]] None 2(2) show ?thesis by blast
      next
        case 3
        from unesc_ok_other [OF oct None 3 "3.IH"(4) [OF oct None 3]] show ?thesis .
      qed
    qed
  qed
qed

section \<open>Escaping\<close>

lemma u8_bitD: "bit (w :: u8) n \<Longrightarrow> n < 8"
  using bit_imp_le_length [of w n] by simp

lemma octal_digits:
  "(signed_drop_bit 6 c AND 3 :: u8) = drop_bit 6 c"
  "(signed_drop_bit 3 c AND 7 :: u8) = drop_bit 3 c AND 7"
proof -
  have "(signed_drop_bit 6 c AND mask 2 :: u8) = drop_bit 6 c"
    "(signed_drop_bit 3 c AND mask 3 :: u8) = drop_bit 3 c AND mask 3"
    by (rule bit_word_eqI; auto simp: bit_simps bit_mask_iff simp del: mask_numeral dest: u8_bitD)+
  then show "(signed_drop_bit 6 c AND 3 :: u8) = drop_bit 6 c"
    "(signed_drop_bit 3 c AND 7 :: u8) = drop_bit 3 c AND 7"
    by (simp_all add: mask_eq_exp_minus_1)
qed

lemma is_octal_add: "unat d < 8 \<Longrightarrow> is_octal (d + cc CHR ''0'')"
  by (simp add: is_octal_def word_le_nat_alt unat_word_ariths)

lemma unat_octal_digits:
  "unat (drop_bit 6 c :: u8) = unat c div 64"
  "unat (drop_bit 3 c AND 7 :: u8) = unat c div 8 mod 8"
  "unat (c AND 7 :: u8) = unat c mod 8"
proof -
  have m: "(7 :: u8) = mask 3" by (simp add: mask_eq_exp_minus_1)
  show "unat (drop_bit 6 c :: u8) = unat c div 64" "unat (drop_bit 3 c AND 7 :: u8) = unat c div 8 mod 8"
    "unat (c AND 7 :: u8) = unat c mod 8"
    by (simp_all only: m take_bit_eq_mask [symmetric])
      (simp_all add: unsigned_drop_bit_eq unsigned_take_bit_eq drop_bit_eq_div take_bit_eq_mod unat_div unat_mod)
qed

lemma octal_value_digits:
  "octal_value [drop_bit 6 c + cc CHR ''0'', (drop_bit 3 c AND 7) + cc CHR ''0'', (c AND 7) + cc CHR ''0''] = c"
proof -
  have "(64 :: nat) = 8 * 8" by simp
  then have "(unat (drop_bit 6 c) * 8 + unat (drop_bit 3 c AND 7)) * 8 + unat (c AND 7) = unat c"
    unfolding unat_octal_digits(1,2) unat_octal_digits(3) [of c]
    by (simp only: div_mult2_eq div_mult_mod_eq)
  from arg_cong [OF this, of "of_nat :: nat \<Rightarrow> u8"]
  have "(drop_bit 6 c * 8 + (drop_bit 3 c AND 7)) * 8 + (c AND 7) = c"
    by (simp only: of_nat_add of_nat_mult of_nat_unat ucast_id of_nat_numeral)
  then show ?thesis by (simp add: add.assoc)
qed

lemma unesc_octal3:
  "is_octal a \<Longrightarrow> is_octal b \<Longrightarrow> is_octal d \<Longrightarrow>
   unesc False (cc CHR 0x5C # a # b # d # r) = octal_value [a, b, d] # unesc False r"
  by (simp add: numeral_3_eq_3 del: octal_value.simps)

lemma is_octal_digits:
  "is_octal (drop_bit 6 c + cc CHR ''0'')" "is_octal ((drop_bit 3 c AND 7) + cc CHR ''0'')"
  "is_octal ((c AND 7) + cc CHR ''0'')"
proof -
  have "unat c < 256" using unsigned_less [of c, where ?'a = nat] by simp
  then have "unat c div 64 < 8" by simp
  then show "is_octal (drop_bit 6 c + cc CHR ''0'')"
    "is_octal ((drop_bit 3 c AND 7) + cc CHR ''0'')" "is_octal ((c AND 7) + cc CHR ''0'')"
    by (auto intro!: is_octal_add simp del: of_char_Char simp: unat_octal_digits)
qed

lemma esc_chr_octal:
  "chr_letter c = None \<Longrightarrow> c \<noteq> cc CHR '' '' \<Longrightarrow> unprintable c \<Longrightarrow>
   esc_chr c = [cc CHR 0x5C, drop_bit 6 c + cc CHR ''0'', (drop_bit 3 c AND 7) + cc CHR ''0'',
     (c AND 7) + cc CHR ''0'']"
  by (simp add: esc_chr_def octal_digits)

lemma unesc_esc_chr:
  assumes "c \<noteq> 0"
  shows "unesc False (esc_chr c @ r) = c # unesc False r"
proof (cases "chr_letter c")
  case (Some l)
  with assms show ?thesis
    by (auto simp: esc_chr_def chr_letter_def is_octal_def esc_letter_def split: if_splits)
next
  case None
  then have nb: "c \<noteq> cc CHR 0x5C" by (auto simp: chr_letter_def)
  show ?thesis
  proof (cases "c \<noteq> cc CHR '' '' \<and> unprintable c")
    case True
    then have "c \<noteq> cc CHR '' ''" and "unprintable c" by auto
    from esc_chr_octal [OF None this] show ?thesis
      by (simp only: append_Cons append_Nil unesc_octal3 [OF is_octal_digits] octal_value_digits)
  next
    case False
    with None nb show ?thesis by (auto simp: esc_chr_def)
  qed
qed

lemma esc_chr_nz: "0 \<notin> set (esc_chr c)"
proof (cases "chr_letter c = None \<and> c \<noteq> cc CHR '' '' \<and> unprintable c")
  case True
  have "is_octal x \<Longrightarrow> x \<noteq> 0" for x by auto
  from this [OF is_octal_digits(1)] this [OF is_octal_digits(2)] this [OF is_octal_digits(3)]
  have "0 \<notin> set [cc CHR 0x5C, drop_bit 6 c + cc CHR ''0'', (drop_bit 3 c AND 7) + cc CHR ''0'',
     (c AND 7) + cc CHR ''0'']" by simp
  then show ?thesis using True esc_chr_octal [of c] by (simp only: simp_thms)
next
  case False
  then show ?thesis by (auto simp: esc_chr_def chr_letter_def split: if_splits)
qed

lemma strchr2esc_write_nz: "0 \<notin> set (strchr2esc_write s)"
  by (induction s) (auto simp: esc_chr_nz)

lemma unesc_strchr2esc: "0 \<notin> set s \<Longrightarrow> unesc False (strchr2esc_write s) = s"
  by (induction s) (auto simp: unesc_esc_chr)

lemma strchr2esc_size: "length (strchr2esc_write s) \<le> length s + sum_list (map addl_chr s)"
proof (induction s)
  case (Cons c s)
  have "length (esc_chr c) = Suc (addl_chr c)" 
    by (auto simp: esc_chr_def addl_chr_def split: option.splits)
  with Cons show ?case by auto
qed simp

lemma stresc2chr_eq:
  assumes "0 \<notin> set s"
  shows "\<exists>tail. stresc2chr (s @ 0 # junk) = Some (unesc False s @ 0 # tail, length (unesc False s)) \<and>
     length (unesc False s @ 0 # tail) = length (s @ 0 # junk)"
  using unesc_okD [OF unesc_ok_all [of False s] assms, of "[]" 0 "[]" _ junk]
  by (auto simp: stresc2chr_def unesc_post_def)

section \<open>The other routines\<close>

subsection \<open>Hyphenation\<close>

lemma hyphens_length: "length (hyphens s) \<le> length s"
  by (induction s rule: hyphens.induct) auto

lemma strhyphenate_loop_zeros:
  "p + n = q \<Longrightarrow> length pre = p \<Longrightarrow>
   strhyphenate_loop (pre @ replicate (Suc n) 0 @ junk) p q = Some (pre @ replicate (Suc n) 0 @ junk)"
proof (induction n arbitrary: p pre)
  case 0
  then show ?case by (simp add: strhyphenate_loop.simps)
next
  case (Suc n)
  have "strhyphenate_loop (pre @ replicate (Suc (Suc n)) 0 @ junk) p q =
     strhyphenate_loop ((pre @ [0]) @ replicate (Suc n) 0 @ junk) (p + 1) q"
    using Suc.prems by (subst strhyphenate_loop.simps) (simp add: rd_def nth_append)
  with Suc.IH [of "p + 1" "pre @ [0]"] Suc.prems show ?case by simp
qed

lemma memmove_shift:
  assumes "length pre = p" and "q = p + Suc (length cs + Suc z)"
  shows "memmove (pre @ d # e # cs @ replicate (Suc z) 0 @ junk) (p + 1) (p + 2) (q - p - 1) =
    Some (pre @ d # cs @ replicate (Suc (Suc z)) 0 @ junk)"
proof -
  define v where "v = replicate z (0 :: u8)"
  have r: "replicate (Suc z) 0 = v @ [0]" "replicate (Suc (Suc z)) 0 = v @ [0, 0]"
    by (simp_all add: v_def replicate_append_same)
       (metis append_Cons append_Nil append_assoc replicate_append_same)
  have n: "q - p - 1 = Suc (length cs + length v)" using assms by (simp add: v_def)
  show ?thesis using assms(1) unfolding r n memmove_def by simp
qed

lemma strhyphenate_loop_eq:
  "0 \<notin> set s \<Longrightarrow> length pre = p \<Longrightarrow> p + length s + z = q \<Longrightarrow>
   strhyphenate_loop (pre @ s @ replicate (Suc z) 0 @ junk) p q =
     Some (pre @ hyphens s @ replicate (Suc (q - p - length (hyphens s))) 0 @ junk)"
proof (induction s arbitrary: p pre z rule: hyphens.induct)
  case 1
  then show ?case using strhyphenate_loop_zeros [of p z q pre junk] by simp
next
  case (2 c)
  have "strhyphenate_loop (pre @ [c] @ replicate (Suc z) 0 @ junk) p q =
     strhyphenate_loop ((pre @ [c]) @ replicate (Suc z) 0 @ junk) (p + 1) q"
    using 2 by (subst strhyphenate_loop.simps) (simp add: rd_def nth_append)
  with 2 show ?case using strhyphenate_loop_zeros [of "p + 1" z q "pre @ [c]" junk] by auto
next
  case (3 c d cs)
  let ?buf = "pre @ (c # d # cs) @ replicate (Suc z) 0 @ junk"
  have r: "rd ?buf p = Some c" "rd ?buf (p + 1) = Some d" "p < q"
    using 3 by (auto simp add: rd_def nth_append)
  show ?case
  proof (cases "c = cc CHR ''_'' \<and> d = cc CHR ''_''")
    case True
    have w: "wr ?buf p (cc CHR ''-'') = Some (pre @ (cc CHR ''-'') # d # cs @ replicate (Suc z) 0 @ junk)"
      using 3 by (auto simp: wr_def list_update_append)
    have "strhyphenate_loop ?buf p q =
       strhyphenate_loop ((pre @ [cc CHR ''-'']) @ cs @ replicate (Suc (Suc z)) 0 @ junk) (p + 1) q"
      using r w True 3 memmove_shift [of pre p q cs z "cc CHR ''-''" d junk]
      by (subst strhyphenate_loop.simps) (simp del: replicate.simps)
    also have "\<dots> = Some ((pre @ [cc CHR ''-'']) @ hyphens cs @
        replicate (Suc (q - (p + 1) - length (hyphens cs))) 0 @ junk)"
      using 3 True by (intro "3.IH"(1) [OF True]) auto
    finally show ?thesis using True by (simp add: diff_diff_eq)
  next
    case False
    have "strhyphenate_loop ?buf p q =
       strhyphenate_loop ((pre @ [c]) @ (d # cs) @ replicate (Suc z) 0 @ junk) (p + 1) q"
      using r 3 False by (subst strhyphenate_loop.simps) auto
    also have "\<dots> = Some ((pre @ [c]) @ hyphens (d # cs) @
        replicate (Suc (q - (p + 1) - length (hyphens (d # cs)))) 0 @ junk)"
      using 3 by (intro "3.IH"(2) [OF False]) auto
    finally show ?thesis using False by (simp add: diff_diff_eq)
  qed
qed

lemma strhyphenate_eq:
  assumes "0 \<notin> set s"
  shows "strhyphenate (s @ 0 # junk) =
     Some (hyphens s @ replicate (Suc (length s - length (hyphens s))) 0 @ junk)"
proof -
  have "strlen (s @ 0 # junk) = Some (length s)"
    using assms by (simp add: strlen_def takeWhile_append)
  then show ?thesis
    using strhyphenate_loop_eq [OF assms, of "[]" 0 0 "length s" junk] by (simp add: strhyphenate_def)
qed

fun no_double :: "cstr \<Rightarrow> bool" where
  "no_double (c # d # cs) \<longleftrightarrow> \<not> (c = cc CHR ''_'' \<and> d = cc CHR ''_'') \<and> no_double (d # cs)"
| "no_double _ = True"

lemma hyphens_no_double: "no_double (hyphens s)"
proof (induction s rule: hyphens.induct)
  case (3 c d cs)
  show ?case
  proof (cases "c = cc CHR ''_'' \<and> d = cc CHR ''_''")
    case True
    with 3 show ?thesis by (cases "hyphens cs") auto
  next
    case False
    with 3 show ?thesis by (cases cs) auto
  qed
qed auto

subsection \<open>Searching\<close>

lemma find_None_upt: "find P [i ..< n] = None \<longleftrightarrow> (\<forall>j. i \<le> j \<and> j < n \<longrightarrow> \<not> P j)"
  by (auto simp: find_None_iff)

lemma find_Some_upt:
  "find P [i ..< n] = Some j \<Longrightarrow> i \<le> j \<and> j < n \<and> P j \<and> (\<forall>k. i \<le> k \<and> k < j \<longrightarrow> \<not> P k)"
  by (auto simp: find_Some_iff)
     (metis add.commute le_Suc_ex less_diff_conv nat_add_left_cancel_less)

lemma strrstr_loop_eq:
  assumes "needle \<noteq> []"
  shows "i \<le> length s \<Longrightarrow>
    (\<forall>j. prefix needle (drop j s) \<and> j < i \<longrightarrow> (\<exists>m. prev = Some m \<and> j \<le> m)) \<Longrightarrow>
    (\<forall>m. prev = Some m \<longrightarrow> prefix needle (drop m s)) \<Longrightarrow>
    \<exists>r. strrstr_loop s needle i prev = Some r \<and>
      (\<forall>j. prefix needle (drop j s) \<longrightarrow> (\<exists>m. r = Some m \<and> j \<le> m)) \<and>
      (\<forall>m. r = Some m \<longrightarrow> prefix needle (drop m s))"
proof (induction "length s - i" arbitrary: i prev rule: less_induct)
  case less
  show ?case
  proof (cases "find (\<lambda>j. prefix needle (drop j s)) [i ..< Suc (length s)]")
    case None
    have "\<exists>m. prev = Some m \<and> j \<le> m" if "prefix needle (drop j s)" for j
    proof -
      from that assms have "j < length s" by (cases "j < length s") auto
      with None [unfolded find_None_upt] that have "j < i" by (meson less_SucI not_le)
      with that less.prems show ?thesis by blast
    qed
    with None less.prems show ?thesis
      by (subst strrstr_loop.simps) (auto simp: strstr_def simp del: upt_Suc)
  next
    case (Some j)
    from find_Some_upt [OF this] have j: "i \<le> j" "prefix needle (drop j s)"
      and first: "\<And>k. i \<le> k \<Longrightarrow> k < j \<Longrightarrow> \<not> prefix needle (drop k s)" by auto
    from j assms have l: "j < length s" by (cases "j < length s") auto
    from l j have d: "length s - Suc j < length s - i" by (simp add: diff_less_mono2)
    have "\<exists>m. Some j = Some m \<and> k \<le> m" if "prefix needle (drop k s) \<and> k < Suc j" for k
      using that by auto
    with less.hyps [OF d, of "Some j"] l j obtain r where
      "strrstr_loop s needle (Suc j) (Some j) = Some r"
      "\<forall>j. prefix needle (drop j s) \<longrightarrow> (\<exists>m. r = Some m \<and> j \<le> m)"
      "\<forall>m. r = Some m \<longrightarrow> prefix needle (drop m s)" by auto
    with Some less.prems show ?thesis
      by (subst strrstr_loop.simps) (auto simp: strstr_def simp del: upt_Suc)
  qed
qed

lemma strrchr_Some:
  assumes "c \<in> set s"
  shows "\<exists>i. strrchr s c = Some i \<and> i < length s \<and> s ! i = c \<and> c \<notin> set (drop (Suc i) s)"
proof -
  from split_list_last [OF assms] obtain ys zs where s: "s = ys @ c # zs" "c \<notin> set zs" by blast
  then have "takeWhile (\<lambda>x. x \<noteq> c) (rev s) = rev zs" 
    by (simp, subst takeWhile_append2) auto
  with assms have "strrchr s c = Some (length ys)" by (simp add: strrchr_def s(1))
  with s show ?thesis by auto
qed

subsection \<open>Hash values\<close>

lemma u32_bitD: "bit (w :: u32) n \<Longrightarrow> n < 32"
  using bit_imp_le_length [of w n] by simp

lemma top_nibble: "(w :: u32) AND push_bit 28 (mask 4) = 0 \<Longrightarrow> unat w < 2 ^ 28"
proof -
  assume a: "w AND push_bit 28 (mask 4) = 0"
  have "bit w n \<Longrightarrow> n < 28" for n
  proof (rule ccontr)
    assume b: "bit w n" and "\<not> n < 28"
    then have "bit (w AND push_bit 28 (mask 4)) n"
      using u32_bitD [OF b] by (auto simp: bit_simps bit_mask_iff simp del: mask_numeral)
    with a show False by simp
  qed
  then have "take_bit 28 w = w" by (intro bit_word_eqI) (auto simp: bit_simps)
  then have "unat w = take_bit 28 (unat w)" by (metis unsigned_take_bit_eq)
  then show ?thesis by (metis take_bit_nat_less_exp)
qed

lemma str2hval_step_bound: "unat (str2hval_step h c) < 2 ^ 28"
proof -
  define w where "w = push_bit 4 h + scast c"
  define g where "g = w AND 0xf0000000"
  have m: "(0xf0000000 :: u32) = push_bit 28 (mask 4)" by (simp add: mask_eq_exp_minus_1 push_bit_eq_mult)
  have "((w XOR drop_bit 24 g) XOR g) AND push_bit 28 (mask 4) = 0"
    by (intro bit_word_eqI) (auto simp: g_def m bit_simps bit_mask_iff simp del: mask_numeral dest: u32_bitD)
  from top_nibble [OF this] top_nibble [of w] show ?thesis
    by (cases "g = 0")
      (auto simp: str2hval_step_def Let_def w_def [symmetric] g_def [symmetric] g_def [unfolded m, symmetric])
qed

lemma str2hval_bound:
  "s \<noteq> [] \<or> unat h < 2 ^ 28 \<Longrightarrow> unat (str2hval (Some s) h) < 2 ^ 28"
proof (induction s rule: rev_induct)
  case (snoc c s)
  then show ?case using str2hval_step_bound by (simp add: str2hval_def)
qed (simp add: str2hval_def)

lemma str2hval_append: "str2hval (Some (s @ t)) h = str2hval (Some t) (str2hval (Some s) h)"
  by (simp add: str2hval_def)

lemma strrstr_correct:
  assumes "needle \<noteq> []"
  shows "\<exists>r. strrstr s needle = Some r \<and>
    (\<forall>j. prefix needle (drop j s) \<longrightarrow> (\<exists>m. r = Some m \<and> j \<le> m)) \<and>
    (\<forall>m. r = Some m \<longrightarrow> prefix needle (drop m s))"
  unfolding strrstr_def using assms by (intro strrstr_loop_eq) auto

lemma strbasename_correct:
  "strbasename s \<le> length s" "cc CHR ''/'' \<notin> set (drop (strbasename s) s)"
  "strbasename s = 0 \<or> s ! (strbasename s - 1) = cc CHR ''/''"
  using strrchr_Some [of "cc CHR ''/''" s]
  by (cases "cc CHR ''/'' \<in> set s"; force simp: strbasename_def strrchr_def)+

lemma bad_chr_eq:
  "bad_chr i s = (if list_all idnum_chr s then None else Some (i + length (takeWhile idnum_chr s)))"
  by (induction i s rule: bad_chr.induct) auto

section \<open>Properties\<close>

text \<open>C13: Escapes.  On an array that holds a NUL-terminated string, \<open>stresc2chr\<close> returns, never
  reads or writes outside the array, leaves there the string with every C escape
  sequence replaced (the reference function \<open>unesc\<close>), and returns its length.\<close>

theorem stresc2chr_correct:
  assumes "0 \<notin> set s"
  shows "\<exists>tail. stresc2chr (s @ 0 # junk) = Some (unesc False s @ 0 # tail, length (unesc False s)) \<and>
     length (unesc False s @ 0 # tail) = length (s @ 0 # junk)"
  by (rule stresc2chr_eq [OF assms])

theorem stresc2chr_correct_witness:
  "\<exists>tail. stresc2chr [97, 92, 110, 92, 120, 52, 49, 0] = Some ([97, 10, 65, 0] @ tail, 3)"
  using stresc2chr_correct [of "[97, 92, 110, 92, 120, 52, 49]" "[]"]
  by (auto simp: is_octal_def esc_letter_def hex_digit_def hex_value_def numeral_3_eq_3)

text \<open>C12: Escape round trip.  For a string without NUL characters, when the allocation
  succeeds the escaped string and its terminator fit in the space \<open>strchr2esc\<close>
  allocates, and \<open>stresc2chr\<close> turns it back into the original string.\<close>

theorem strchr2esc_roundtrip:
  assumes "0 \<notin> set s" and "strchr2esc s al = (Some (sz, e), al')"
  shows "length e + 1 \<le> sz \<and>
    (\<exists>tail. stresc2chr (e @ [0]) = Some (s @ 0 # tail, length s))"
proof -
  from assms(2) have "e = strchr2esc_write s" "sz = length s + sum_list (map addl_chr s) + 1"
    by (auto simp: strchr2esc_def Let_def split: prod.splits if_splits)
  then show ?thesis
    using strchr2esc_size [of s] stresc2chr_eq [OF strchr2esc_write_nz, of s "[]"]
      unesc_strchr2esc [OF assms(1)] by auto
qed

theorem strchr2esc_roundtrip_witness:
  "\<exists>tail. stresc2chr [97, 92, 116, 92, 50, 48, 48, 0] = Some ([97, 9, 128, 0] @ tail, 3)"
  using strchr2esc_roundtrip [of "[97, 9, 128]" "[]" 8 "[97, 92, 116, 92, 50, 48, 48]" "[]"]
  by (simp add: strchr2esc_def addl_chr_def chr_letter_def esc_chr_def unprintable_def octal_digits Let_def numeral_3_eq_3)

text \<open>C14: Hyphenation.  On an array that holds a NUL-terminated string, \<open>strhyphenate\<close> stays
  inside the array, replaces each pair of underscores, taken from the left, by one hyphen
  (the reference function \<open>hyphens\<close>), fills the space it gains with NULs, leaves the
  bytes behind the string alone, and no two underscores in a row remain.\<close>

theorem strhyphenate_correct:
  assumes "0 \<notin> set s"
  shows "strhyphenate (s @ 0 # junk) =
      Some (hyphens s @ replicate (Suc (length s - length (hyphens s))) 0 @ junk) \<and>
    no_double (hyphens s)"
  using strhyphenate_eq [OF assms] hyphens_no_double by simp

theorem strhyphenate_correct_witness:
  "strhyphenate (map of_char ''a__b'' @ [0, 33]) = Some (map of_char ''a-b'' @ [0, 0, 33])"
  using strhyphenate_correct [of "map of_char ''a__b''" "[33]"] by simp

end
