(* ===== verification/DTBuf.thy ===== *)
theory DTBuf
  imports DTPrelude "HOL-Library.Monad_Syntax"
begin

text \<open>
  The automatically resizing memory buffer of \<open>libdtrace/dt_buf.c\<close>.  The buffer memory is
  the list of its bytes (\<open>None\<close> for a NULL \<open>dbu_buf\<close>), and \<open>dbu_ptr\<close> is kept as its
  distance from \<open>dbu_buf\<close>, which is how the code computes every offset; pointers into the buffer are compared by
  these distances.  Sizes are natural numbers below \<open>2 ^ 64\<close>, and where \<open>size_t\<close> arithmetic can wrap
  around, the wrap-around is written out.

  An operation returns \<open>None\<close> when the code does not come back: a division by a zero
  alignment, a copy outside the buffer, or the growth loop running forever, which happens
  when \<open>dbu_len\<close> is 0, as \<open>dt_buf_claim\<close> leaves it, or when the doubled length wraps around to 0.  The
  theorems show that neither happens while the contents stay below \<open>2 ^ 62\<close> bytes, that the contents are the
  aligned concatenation of what was written, which write fails when memory runs out, and that an error is kept
  until reset.
\<close>

section \<open>Allocation on behalf of a handle\<close>

record hdl =
  dt_errno :: nat
  hdl_mem :: alloc

definition EDT_NOMEM_code :: nat where
  "EDT_NOMEM_code = 1008"

definition dt_set_errno :: "hdl \<Rightarrow> nat \<Rightarrow> hdl" where
  "dt_set_errno dtp err = dtp\<lparr>dt_errno := err\<rparr>"

definition dt_zalloc :: "hdl \<Rightarrow> nat \<Rightarrow> u8 list option \<times> hdl" where
  "dt_zalloc dtp sz =
     (let (ok, al) = alloc_ok (hdl_mem dtp);
          dtp = dtp\<lparr>hdl_mem := al\<rparr>
      in if ok then (Some (replicate sz 0), dtp)
         else (None, dt_set_errno dtp EDT_NOMEM_code))"

section \<open>Operations\<close>

record dt_buf =
  dbu_name :: string
  dbu_buf :: "u8 list option"
  dbu_ptr :: nat
  dbu_len :: nat
  dbu_err :: nat
  dbu_resizes :: nat

definition dtrace_bufsize :: nat where
  "dtrace_bufsize = 512"

definition dt_buf_create :: "hdl \<Rightarrow> dt_buf \<Rightarrow> string \<Rightarrow> nat \<Rightarrow> hdl \<times> dt_buf" where
  "dt_buf_create dtp bp name len =
     (let len = (if len = 0 then dtrace_bufsize else len);
          (m, dtp) = dt_zalloc dtp len;
          bp = bp\<lparr>dbu_buf := m, dbu_ptr := 0, dbu_len := len,
                  dbu_err := (if m = None then dt_errno dtp else 0),
                  dbu_resizes := 0, dbu_name := name\<rparr>
      in (dtp, bp))"

text \<open>The memory is freed; the fields keep the dangling pointer, which no one may use.\<close>

definition dt_buf_destroy :: "dt_buf \<Rightarrow> dt_buf" where
  "dt_buf_destroy bp = bp\<lparr>dbu_buf := None\<rparr>"

definition dt_buf_reset :: "hdl \<Rightarrow> dt_buf \<Rightarrow> hdl \<times> dt_buf" where
  "dt_buf_reset dtp bp =
     (case dbu_buf bp of
        Some _ \<Rightarrow> (dtp, bp\<lparr>dbu_ptr := 0, dbu_err := 0\<rparr>)
      | None \<Rightarrow> dt_buf_create dtp (bp\<lparr>dbu_ptr := 0\<rparr>) (dbu_name bp) (dbu_len bp))"

definition roundup :: "nat \<Rightarrow> nat \<Rightarrow> nat option" where
  "roundup x y = (if y = 0 then None else Some ((x + (y - 1)) mod 2 ^ 64 div y * y))"

partial_function (option) grow_loop :: "nat \<Rightarrow> nat \<Rightarrow> nat \<Rightarrow> (nat \<times> nat) option" where
  "grow_loop need new_len r =
     (if need > new_len then grow_loop need (new_len * 2 mod 2 ^ 64) (Suc r) else Some (new_len, r))"

definition memcpy :: "u8 list \<Rightarrow> nat \<Rightarrow> u8 list \<Rightarrow> u8 list option" where
  "memcpy dst off src =
     (if off + length src \<le> length dst
      then Some (take off dst @ src @ drop (off + length src) dst) else None)"

definition dt_buf_store :: "dt_buf \<Rightarrow> u8 list \<Rightarrow> nat \<Rightarrow> dt_buf option" where
  "dt_buf_store bp buf adj =
     (let off = (dbu_ptr bp + adj) mod 2 ^ 64 in
      if buf = [] then Some (bp\<lparr>dbu_ptr := off\<rparr>)
      else do {
        m \<leftarrow> dbu_buf bp;
        m \<leftarrow> memcpy m off buf;
        Some (bp\<lparr>dbu_buf := Some m, dbu_ptr := off + length buf\<rparr>) })"

definition dt_buf_write :: "hdl \<Rightarrow> dt_buf \<Rightarrow> u8 list \<Rightarrow> nat \<Rightarrow> (hdl \<times> dt_buf) option" where
  "dt_buf_write dtp bp buf align = do {
     let off = dbu_ptr bp;
     a \<leftarrow> roundup off align;
     let adj = (a + 2 ^ 64 - off) mod 2 ^ 64;
     let len = length buf;
     if dbu_err bp \<noteq> 0 then Some (dt_set_errno dtp (dbu_err bp), bp)
     else if (off + adj + len) mod 2 ^ 64 > dbu_len bp then do {
       nr \<leftarrow> grow_loop ((off + adj + len) mod 2 ^ 64) (dbu_len bp * 2 mod 2 ^ 64) 1;
       let (m, dtp) = dt_zalloc dtp (fst nr);
       (case m of
          None \<Rightarrow> Some (dtp, bp\<lparr>dbu_err := dt_errno dtp\<rparr>)
        | Some new_buf \<Rightarrow> do {
            new_buf \<leftarrow> memcpy new_buf 0 (case dbu_buf bp of None \<Rightarrow> [] | Some m \<Rightarrow> take off m);
            bp \<leftarrow> dt_buf_store (bp\<lparr>dbu_buf := Some new_buf, dbu_ptr := off, dbu_len := fst nr,
                     dbu_resizes := dbu_resizes bp + snd nr\<rparr>) buf adj;
            Some (dtp, bp) })
     } else do {
       bp \<leftarrow> dt_buf_store bp buf adj;
       Some (dtp, bp) }
   }"

definition dt_buf_bytes :: "dt_buf \<Rightarrow> u8 list" where
  "dt_buf_bytes bp = (case dbu_buf bp of None \<Rightarrow> [] | Some m \<Rightarrow> take (dbu_ptr bp) m)"

definition dt_buf_concat :: "hdl \<Rightarrow> dt_buf \<Rightarrow> dt_buf \<Rightarrow> nat \<Rightarrow> (hdl \<times> dt_buf) option" where
  "dt_buf_concat dtp dst src align =
     (if dbu_err dst = 0 \<and> dbu_err src \<noteq> 0
      then Some (dt_set_errno dtp (dbu_err src), dst\<lparr>dbu_err := dbu_err src\<rparr>)
      else dt_buf_write dtp dst (dt_buf_bytes src) align)"

definition dt_buf_offset :: "dt_buf \<Rightarrow> nat \<Rightarrow> nat option" where
  "dt_buf_offset bp align = roundup (dbu_ptr bp) align"

definition dt_buf_len :: "dt_buf \<Rightarrow> nat" where
  "dt_buf_len bp = dbu_ptr bp"

definition dt_buf_error :: "dt_buf \<Rightarrow> nat" where
  "dt_buf_error bp = dbu_err bp"

text \<open>What \<open>dt_buf_ptr\<close> returns is the address of the memory; here its contents.\<close>

definition dt_buf_ptr :: "dt_buf \<Rightarrow> u8 list option" where
  "dt_buf_ptr bp = dbu_buf bp"

definition dt_buf_claim :: "dt_buf \<Rightarrow> u8 list option \<times> dt_buf" where
  "dt_buf_claim bp =
     (let buf = (if dbu_err bp \<noteq> 0 then None else dbu_buf bp)
      in (buf, bp\<lparr>dbu_buf := None, dbu_ptr := 0, dbu_len := 0\<rparr>))"

section \<open>Properties\<close>

definition pad :: "nat \<Rightarrow> nat \<Rightarrow> nat" where
  "pad off align = (off + (align - 1)) div align * align - off"

fun layout :: "u8 list \<Rightarrow> (u8 list \<times> nat) list \<Rightarrow> u8 list" where
  "layout cs [] = cs"
| "layout cs ((d, align) # ws) = layout (cs @ replicate (pad (length cs) align) 0 @ d) ws"

text \<open>
  How much the buffer grows, and what it holds when memory runs out: the capacity is doubled until the data fit, with
  one allocation, and \<open>stored\<close> is the number of blocks written before an allocation fails.
\<close>

definition grown :: "nat \<Rightarrow> nat \<Rightarrow> nat" where
  "grown cap need = cap * 2 ^ blen ((need - 1) div cap)"

fun stored :: "alloc \<Rightarrow> nat \<Rightarrow> nat \<Rightarrow> (u8 list \<times> nat) list \<Rightarrow> nat" where
  "stored al cap n [] = 0"
| "stored al cap n ((d, align) # ws) =
     (let need = n + pad n align + length d in
      if need \<le> cap then Suc (stored al cap need ws)
      else (case alloc_ok al of
              (True, al) \<Rightarrow> Suc (stored al (grown cap need) need ws)
            | (False, al) \<Rightarrow> 0))"

lemma layout_mono: "length cs \<le> length (layout cs ws)"
proof (induction cs ws rule: layout.induct)
  case (2 cs d align ws)
  then show ?case by simp
qed simp

text \<open>Clients that write to a sink and look at the error at the end.\<close>

fun write_seq :: "('h \<Rightarrow> 'b \<Rightarrow> u8 list \<Rightarrow> nat \<Rightarrow> ('h \<times> 'b) option) \<Rightarrow> 'h \<Rightarrow> 'b \<Rightarrow>
    (u8 list \<times> nat) list \<Rightarrow> ('h \<times> 'b) option" where
  "write_seq wrt h b [] = Some (h, b)"
| "write_seq wrt h b ((d, align) # ws) =
     (case wrt h b d align of None \<Rightarrow> None | Some (h, b) \<Rightarrow> write_seq wrt h b ws)"

abbreviation (input) MAXBUF :: nat where "MAXBUF \<equiv> 2 ^ 62"

definition aligned :: "nat \<Rightarrow> bool" where "aligned align \<longleftrightarrow> 0 < align \<and> align \<le> MAXBUF"

definition need :: "nat \<Rightarrow> u8 list \<Rightarrow> nat \<Rightarrow> nat" where "need n d align = n + pad n align + length d"

text \<open>
  What clients rely on: a sink that has failed does not change; a block that fits is added; one that does not
  asks for memory, and is added or makes the sink fail.
\<close>

locale byte_sink =
  fixes wrt :: "'h \<Rightarrow> 'b \<Rightarrow> u8 list \<Rightarrow> nat \<Rightarrow> ('h \<times> 'b) option"
    and contents :: "'b \<Rightarrow> u8 list" and failed :: "'b \<Rightarrow> bool" and inv :: "'b \<Rightarrow> bool"
    and room :: "'b \<Rightarrow> nat" and mem :: "'h \<Rightarrow> alloc"
  assumes write_failed: "inv b \<Longrightarrow> failed b \<Longrightarrow> aligned align \<Longrightarrow> \<exists>h'. wrt h b d align = Some (h', b)"
    and write_fits: "inv b \<Longrightarrow> \<not> failed b \<Longrightarrow> aligned align \<Longrightarrow> need (length (contents b)) d align \<le> MAXBUF \<Longrightarrow>
      need (length (contents b)) d align \<le> room b \<Longrightarrow>
      \<exists>b'. wrt h b d align = Some (h, b') \<and> inv b' \<and> \<not> failed b' \<and> room b' = room b \<and>
        contents b' = contents b @ replicate (pad (length (contents b)) align) 0 @ d"
    and write_grows: "inv b \<Longrightarrow> \<not> failed b \<Longrightarrow> aligned align \<Longrightarrow> need (length (contents b)) d align \<le> MAXBUF \<Longrightarrow>
      \<not> need (length (contents b)) d align \<le> room b \<Longrightarrow> alloc_ok (mem h) = (True, al) \<Longrightarrow>
      \<exists>h' b'. wrt h b d align = Some (h', b') \<and> inv b' \<and> \<not> failed b' \<and> mem h' = al \<and>
        room b' = grown (room b) (need (length (contents b)) d align) \<and>
        contents b' = contents b @ replicate (pad (length (contents b)) align) 0 @ d"
    and write_nomem: "inv b \<Longrightarrow> \<not> failed b \<Longrightarrow> aligned align \<Longrightarrow> need (length (contents b)) d align \<le> MAXBUF \<Longrightarrow>
      \<not> need (length (contents b)) d align \<le> room b \<Longrightarrow> alloc_ok (mem h) = (False, al) \<Longrightarrow>
      \<exists>h' b'. wrt h b d align = Some (h', b') \<and> inv b' \<and> failed b' \<and> contents b' = contents b"
begin

lemma write_seq_failed:
  "inv b \<Longrightarrow> failed b \<Longrightarrow> \<forall>(d, align) \<in> set ws. aligned align \<Longrightarrow> \<exists>h'. write_seq wrt h b ws = Some (h', b)"
proof (induction ws arbitrary: h)
  case (Cons w ws)
  obtain d align where w: "w = (d, align)" by (cases w)
  with Cons.prems write_failed [OF Cons.prems(1,2), of align h d] obtain h' where "wrt h b d align = Some (h', b)" by auto
  with Cons show ?case by (simp add: w)
qed simp

lemma write_seq_stored:
  "inv b \<Longrightarrow> \<not> failed b \<Longrightarrow> \<forall>(d, align) \<in> set ws. aligned align \<Longrightarrow> length (layout (contents b) ws) \<le> MAXBUF \<Longrightarrow>
   n = stored (mem h) (room b) (length (contents b)) ws \<Longrightarrow>
   \<exists>h' b'. write_seq wrt h b ws = Some (h', b') \<and> inv b' \<and> n \<le> length ws \<and>
     (failed b' \<longleftrightarrow> n < length ws) \<and> contents b' = layout (contents b) (take n ws)"
proof (induction ws arbitrary: h b n)
  case (Cons w ws)
  obtain d align where w: "w = (d, align)" by (cases w)
  let ?n = "length (contents b)"
  let ?cs = "contents b @ replicate (pad ?n align) 0 @ d"
  have a: "aligned align" "\<forall>(d, align) \<in> set ws. aligned align" using Cons.prems(3) by (auto simp: w)
  have l: "length (layout ?cs ws) \<le> MAXBUF" using Cons.prems(4) by (simp add: w)
  have lc: "length ?cs = need ?n d align" by (simp add: need_def)
  have m: "need ?n d align \<le> MAXBUF" using layout_mono [of ?cs ws] l unfolding lc by linarith
  have go: ?case if b': "wrt h b d align = Some (h', b')" "inv b'" "\<not> failed b'" "contents b' = ?cs"
    "n = Suc (stored (mem h') (room b') (need ?n d align) ws)" for h' b'
  proof -
    have "length (contents b') = need ?n d align" unfolding b'(4) lc ..
    then show ?thesis using Cons.IH [OF b'(2,3) a(2), of _ h'] l b' by (simp add: w)
  qed
  show ?case
  proof (cases "need ?n d align \<le> room b")
    case True
    from write_fits [OF Cons.prems(1,2) a(1) m True, of h] obtain b' where "wrt h b d align = Some (h, b')" "inv b'" "\<not> failed b'"
      "contents b' = ?cs" "room b' = room b" by blast
    then show ?thesis using True Cons.prems(5) by (intro go [of h b']) (simp_all add: w need_def Let_def)
  next
    case False
    obtain ok al where ok: "alloc_ok (mem h) = (ok, al)" by fastforce
    show ?thesis
    proof (cases ok)
      case True
      then have t: "alloc_ok (mem h) = (True, al)" using ok by simp
      from write_grows [OF Cons.prems(1,2) a(1) m False t] obtain h' b' where "wrt h b d align = Some (h', b')" "inv b'" "\<not> failed b'"
        "contents b' = ?cs" "mem h' = al" "room b' = grown (room b) (need ?n d align)" by blast
      then show ?thesis using True ok False Cons.prems(5) by (intro go [of h' b']) (simp_all add: w need_def Let_def)
    next
      case nok: False
      then have t: "alloc_ok (mem h) = (False, al)" using ok by simp
      from write_nomem [OF Cons.prems(1,2) a(1) m False t] obtain h' b' where b': "wrt h b d align = Some (h', b')" "inv b'" "failed b'"
        "contents b' = contents b" by blast
      have "n = 0" using nok ok False Cons.prems(5) by (simp add: w need_def Let_def)
      then show ?thesis using write_seq_failed [OF b'(2,3) a(2), of h'] b' by (auto simp: w)
    qed
  qed
qed simp

end

definition buf_failed :: "dt_buf \<Rightarrow> bool" where
  "buf_failed bp \<longleftrightarrow> dbu_err bp \<noteq> 0"

definition buf_inv :: "dt_buf \<Rightarrow> bool" where
  "buf_inv bp \<longleftrightarrow>
     (dbu_err bp = 0 \<or> dbu_err bp = EDT_NOMEM_code) \<and>
     (dbu_err bp = 0 \<longrightarrow> dbu_buf bp \<noteq> None \<and> 0 < dbu_len bp) \<and> dbu_len bp \<le> 2 * MAXBUF \<and> dbu_ptr bp \<le> MAXBUF \<and>
     (case dbu_buf bp of
        None \<Rightarrow> dbu_ptr bp = 0
      | Some m \<Rightarrow> length m = dbu_len bp \<and> dbu_ptr bp \<le> dbu_len bp \<and>
                  drop (dbu_ptr bp) m = replicate (dbu_len bp - dbu_ptr bp) 0)"

lemma roundup_pad:
  assumes "aligned y" "x \<le> MAXBUF"
  shows "roundup x y = Some (x + pad x y)"
proof -
  have y: "0 < y" "y \<le> MAXBUF" using assms(1) by (simp_all add: aligned_def)
  have "x + (y - 1) < 2 ^ 64" using assms(2) y by simp
  then have r: "roundup x y = Some ((x + (y - 1)) div y * y)" using y by (simp add: roundup_def)
  have "x + (y - 1) = (x + (y - 1)) div y * y + (x + (y - 1)) mod y" by simp
  moreover have "(x + (y - 1)) mod y \<le> y - 1" using mod_less_divisor [OF y(1), of "x + (y - 1)"] by linarith
  ultimately have "x \<le> (x + (y - 1)) div y * y" by linarith
  then show ?thesis using r by (simp add: pad_def)
qed

lemma grow_loop_doubles:
  "0 < n \<Longrightarrow> n < 2 ^ 64 \<Longrightarrow> nd \<le> 2 ^ 63 \<Longrightarrow>
   \<exists>k r'. grow_loop nd n r = Some (n * 2 ^ k, r') \<and> nd \<le> n * 2 ^ k \<and> (k = 0 \<or> n * 2 ^ (k - 1) < nd)"
proof (induction "nd - n" arbitrary: n r rule: less_induct)
  case less
  show ?case
  proof (cases "nd > n")
    case True
    then have m: "n * 2 mod 2 ^ 64 = n * 2" "n * 2 < 2 ^ 64" "nd - n * 2 < nd - n" "0 < n * 2" using less.prems by simp_all
    from less.hyps [OF m(3,4,2) less.prems(3), of "Suc r"] obtain k r' where
      g: "grow_loop nd (n * 2) (Suc r) = Some (n * 2 * 2 ^ k, r')" "nd \<le> n * 2 * 2 ^ k" "k = 0 \<or> n * 2 * 2 ^ (k - 1) < nd" by blast
    have "n * 2 ^ k < nd" using g(3) True by (cases k) auto
    then show ?thesis using True g m(1) by (subst grow_loop.simps) (intro exI [of _ "Suc k"] exI [of _ r'], simp)
  next
    case False
    then show ?thesis by (subst grow_loop.simps) (intro exI [of _ 0] exI [of _ r], simp)
  qed
qed

lemma blen_unique: "0 < j \<Longrightarrow> 2 ^ (j - 1) \<le> v \<Longrightarrow> v < 2 ^ j \<Longrightarrow> blen v = j"
proof -
  assume j: "0 < j" "2 ^ (j - 1) \<le> v" "v < 2 ^ j"
  have "(2 :: nat) ^ (j - 1) < 2 ^ blen v" using j(2) blen_upper [of v] by linarith
  then have "j - 1 < blen v" by (simp add: power_strict_increasing_iff)
  with blen_le [OF j(3)] show ?thesis by linarith
qed

lemma grown_unique:
  assumes "0 < cap" "0 < j" "cap * 2 ^ (j - 1) < nd" "nd \<le> cap * 2 ^ j"
  shows "grown cap nd = cap * 2 ^ j"
proof -
  have "2 ^ (j - 1) \<le> (nd - 1) div cap" using assms by (simp add: less_eq_div_iff_mult_less_eq mult.commute)
  moreover have "(nd - 1) div cap < 2 ^ j" using assms by (simp add: div_less_iff_less_mult mult.commute)
  ultimately show ?thesis using blen_unique [OF assms(2)] by (simp add: grown_def)
qed

lemma grow_loop_grown:
  assumes "0 < cap" "cap < nd" "nd \<le> MAXBUF"
  shows "\<exists>r'. grow_loop nd (cap * 2 mod 2 ^ 64) r = Some (grown cap nd, r')" "nd \<le> grown cap nd" "grown cap nd \<le> 2 * MAXBUF" "cap \<le> grown cap nd"
proof -
  have m: "cap * 2 mod 2 ^ 64 = cap * 2" "0 < cap * 2" "cap * 2 < 2 ^ 64" "nd \<le> 2 ^ 63" using assms by simp_all
  from grow_loop_doubles [OF m(2-4), of r] obtain k r' where
    g: "grow_loop nd (cap * 2) r = Some (cap * 2 * 2 ^ k, r')" "nd \<le> cap * 2 * 2 ^ k" "k = 0 \<or> cap * 2 * 2 ^ (k - 1) < nd" by blast
  have u: "cap * 2 ^ k < nd" using g(3) assms(2) by (cases k) auto
  have e: "grown cap nd = cap * 2 ^ Suc k" using u g(2) assms(1) by (intro grown_unique) (simp_all add: mult.assoc)
  show "\<exists>r'. grow_loop nd (cap * 2 mod 2 ^ 64) r = Some (grown cap nd, r')" using g(1) m(1) e by (simp add: mult.assoc)
  show "nd \<le> grown cap nd" using g(2) e by (simp add: mult.assoc)
  show "grown cap nd \<le> 2 * MAXBUF" using u assms(3) unfolding e by simp
  show "cap \<le> grown cap nd" unfolding e by simp
qed

lemma grow_loop_zero: "0 < nd \<Longrightarrow> grow_loop nd 0 r = None"
proof (cases "grow_loop nd 0 r")
  case (Some y)
  assume "0 < nd"
  have "(0 :: nat) = 0 \<longrightarrow> nd = 0"
    by (rule grow_loop.raw_induct [of "\<lambda>nd n r y. n = 0 \<longrightarrow> nd = 0", OF _ Some])
      (auto split: if_splits)
  with \<open>0 < nd\<close> show ?thesis by simp
qed simp

text \<open>A request beyond \<open>2 ^ 63\<close> makes the doubled length wrap around to 0, and the loop does not end.\<close>

lemma grow_loop_wraps: "2 ^ 63 < nd \<Longrightarrow> grow_loop nd (2 ^ 63) r = None"
  using grow_loop_zero [of nd "Suc r"] by (subst grow_loop.simps) simp

lemma dt_buf_store_eq:
  assumes "dbu_buf bp = Some m" and "length m = dbu_len bp" and "dbu_len bp \<le> 2 * MAXBUF"
    and "drop (dbu_ptr bp) m = replicate (dbu_len bp - dbu_ptr bp) 0"
    and fit: "dbu_ptr bp + adj + length d \<le> dbu_len bp"
  shows "\<exists>bp'. dt_buf_store bp d adj = Some bp' \<and> dbu_ptr bp' = dbu_ptr bp + adj + length d \<and>
     dbu_len bp' = dbu_len bp \<and> dbu_err bp' = dbu_err bp \<and>
     dbu_buf bp' = Some (take (dbu_ptr bp) m @ replicate adj 0 @ d @
         replicate (dbu_len bp - (dbu_ptr bp + adj + length d)) 0)"
proof -
  let ?o = "dbu_ptr bp"
  have w: "(?o + adj) mod 2 ^ 64 = ?o + adj" using fit assms(3) by simp
  have m: "m = take ?o m @ replicate (dbu_len bp - ?o) 0"
    using assms(4) by (metis append_take_drop_id)
  have t: "take (?o + adj) m = take ?o m @ replicate adj 0"
    using fit assms(2,4) by (simp add: take_add)
  have d: "drop (?o + adj + length d) m = replicate (dbu_len bp - (?o + adj + length d)) 0"
  proof -
    have "drop (?o + adj + length d) m = drop (adj + length d) (drop ?o m)" by (simp add: ac_simps)
    then show ?thesis by (simp add: assms(4) add.assoc)
  qed
  show ?thesis
  proof (cases "d = []")
    case True
    have "m = take ?o m @ replicate adj 0 @ replicate (dbu_len bp - (?o + adj)) 0"
      using m fit by (subst m) (simp add: replicate_add [symmetric])
    with True assms w show ?thesis by (simp add: dt_buf_store_def)
  next
    case False
    with assms t d w show ?thesis by (simp add: dt_buf_store_def memcpy_def Let_def)
  qed
qed

lemma dt_zalloc_eq:
  "dt_zalloc dtp n = (case alloc_ok (hdl_mem dtp) of
     (True, al) \<Rightarrow> (Some (replicate n 0), dtp\<lparr>hdl_mem := al\<rparr>)
   | (False, al) \<Rightarrow> (None, dtp\<lparr>hdl_mem := al, dt_errno := EDT_NOMEM_code\<rparr>))"
  by (simp add: dt_zalloc_def dt_set_errno_def split: prod.splits bool.splits)

lemma length_buf_bytes: "buf_inv bp \<Longrightarrow> length (dt_buf_bytes bp) = dbu_ptr bp"
  by (auto simp: buf_inv_def dt_buf_bytes_def split: option.splits)

lemma dt_buf_bytes_err [simp]: "dt_buf_bytes (bp\<lparr>dbu_err := e\<rparr>) = dt_buf_bytes bp"
  by (simp add: dt_buf_bytes_def split: option.splits)

lemma dt_buf_write_failed:
  "aligned align \<Longrightarrow> dbu_ptr bp \<le> MAXBUF \<Longrightarrow> dbu_err bp \<noteq> 0 \<Longrightarrow>
   dt_buf_write dtp bp d align = Some (dt_set_errno dtp (dbu_err bp), bp)"
  using roundup_pad [of align "dbu_ptr bp"] by (simp add: dt_buf_write_def)

text \<open>A write to a buffer in order, with no arithmetic wrapping around.\<close>

lemma dt_buf_write_eq:
  assumes "aligned align" "need (dbu_ptr bp) d align \<le> MAXBUF" "dbu_err bp = 0"
  shows "dt_buf_write dtp bp d align =
    (if need (dbu_ptr bp) d align > dbu_len bp then do {
       nr \<leftarrow> grow_loop (need (dbu_ptr bp) d align) (dbu_len bp * 2 mod 2 ^ 64) 1;
       let (m, dtp) = dt_zalloc dtp (fst nr);
       (case m of
          None \<Rightarrow> Some (dtp, bp\<lparr>dbu_err := dt_errno dtp\<rparr>)
        | Some new_buf \<Rightarrow> do {
            new_buf \<leftarrow> memcpy new_buf 0 (case dbu_buf bp of None \<Rightarrow> [] | Some m \<Rightarrow> take (dbu_ptr bp) m);
            bp \<leftarrow> dt_buf_store (bp\<lparr>dbu_buf := Some new_buf, dbu_ptr := dbu_ptr bp, dbu_len := fst nr,
                     dbu_resizes := dbu_resizes bp + snd nr\<rparr>) d (pad (dbu_ptr bp) align);
            Some (dtp, bp) })
     } else do {
       bp \<leftarrow> dt_buf_store bp d (pad (dbu_ptr bp) align);
       Some (dtp, bp) })"
proof -
  have p: "dbu_ptr bp \<le> MAXBUF" "dbu_ptr bp + pad (dbu_ptr bp) align + length d < 2 ^ 64" "pad (dbu_ptr bp) align < 2 ^ 64"
    using assms(2) by (simp_all add: need_def)
  have a: "(dbu_ptr bp + pad (dbu_ptr bp) align + 2 ^ 64 - dbu_ptr bp) mod 2 ^ 64 = pad (dbu_ptr bp) align" using p by simp
  have n: "(dbu_ptr bp + pad (dbu_ptr bp) align + length d) mod 2 ^ 64 = need (dbu_ptr bp) d align"
    using p(2) by (simp add: need_def)
  show ?thesis unfolding dt_buf_write_def Let_def roundup_pad [OF assms(1) p(1)] bind.bind_lunit a n using assms(3) by simp
qed

lemma buf_invD:
  assumes "buf_inv bp" "dbu_err bp = 0"
  obtains m where "dbu_buf bp = Some m" "0 < dbu_len bp" "length m = dbu_len bp" "dbu_len bp \<le> 2 * MAXBUF"
    "dbu_ptr bp \<le> dbu_len bp" "drop (dbu_ptr bp) m = replicate (dbu_len bp - dbu_ptr bp) 0"
  using assms by (auto simp: buf_inv_def split: option.splits)

lemma buf_invI:
  assumes "dbu_err bp = 0" "0 < dbu_len bp" "dbu_len bp \<le> 2 * MAXBUF" "n \<le> MAXBUF" "n \<le> dbu_len bp" "dbu_ptr bp = n"
    "dbu_buf bp = Some (m @ replicate (dbu_len bp - n) 0)" "length m = n"
  shows "buf_inv bp" "dt_buf_bytes bp = m"
  using assms by (simp_all add: buf_inv_def dt_buf_bytes_def)

lemma dt_buf_write_fits:
  assumes inv: "buf_inv bp" and ok: "dbu_err bp = 0" and al: "aligned align"
    and nd: "need (dbu_ptr bp) d align \<le> MAXBUF" "need (dbu_ptr bp) d align \<le> dbu_len bp"
  shows "\<exists>bp'. dt_buf_write dtp bp d align = Some (dtp, bp') \<and> buf_inv bp' \<and> dbu_err bp' = 0 \<and> dbu_len bp' = dbu_len bp \<and>
    dt_buf_bytes bp' = dt_buf_bytes bp @ replicate (pad (dbu_ptr bp) align) 0 @ d"
proof -
  obtain m where m: "dbu_buf bp = Some m" "0 < dbu_len bp" "length m = dbu_len bp" "dbu_len bp \<le> 2 * MAXBUF"
    "dbu_ptr bp \<le> dbu_len bp" "drop (dbu_ptr bp) m = replicate (dbu_len bp - dbu_ptr bp) 0" by (rule buf_invD [OF inv ok])
  from dt_buf_store_eq [OF m(1,3,4,6), of "pad (dbu_ptr bp) align" d] nd(2) obtain bp' where
    b: "dt_buf_store bp d (pad (dbu_ptr bp) align) = Some bp'" "dbu_ptr bp' = need (dbu_ptr bp) d align" "dbu_len bp' = dbu_len bp"
      "dbu_err bp' = 0" "dbu_buf bp' = Some ((take (dbu_ptr bp) m @ replicate (pad (dbu_ptr bp) align) 0 @ d) @
         replicate (dbu_len bp' - need (dbu_ptr bp) d align) 0)" using ok by (auto simp: need_def)
  have "buf_inv bp'" "dt_buf_bytes bp' = take (dbu_ptr bp) m @ replicate (pad (dbu_ptr bp) align) 0 @ d"
    using buf_invI [OF b(4) _ _ nd(1) _ b(2,5)] m nd(2) b(3) by (simp_all add: need_def)
  then show ?thesis using dt_buf_write_eq [OF al nd(1) ok, of dtp] nd(2) b(1,3,4) m(1) by (simp add: dt_buf_bytes_def)
qed

lemma dt_buf_write_grows:
  assumes inv: "buf_inv bp" and ok: "dbu_err bp = 0" and al: "aligned align"
    and nd: "need (dbu_ptr bp) d align \<le> MAXBUF" "\<not> need (dbu_ptr bp) d align \<le> dbu_len bp" and mem: "alloc_ok (hdl_mem dtp) = (True, al')"
  shows "\<exists>dtp' bp'. dt_buf_write dtp bp d align = Some (dtp', bp') \<and> buf_inv bp' \<and> dbu_err bp' = 0 \<and> hdl_mem dtp' = al' \<and>
    dbu_len bp' = grown (dbu_len bp) (need (dbu_ptr bp) d align) \<and>
    dt_buf_bytes bp' = dt_buf_bytes bp @ replicate (pad (dbu_ptr bp) align) 0 @ d"
proof -
  let ?nd = "need (dbu_ptr bp) d align"
  let ?l = "grown (dbu_len bp) ?nd"
  obtain m where m: "dbu_buf bp = Some m" "0 < dbu_len bp" "length m = dbu_len bp" "dbu_len bp \<le> 2 * MAXBUF"
    "dbu_ptr bp \<le> dbu_len bp" "drop (dbu_ptr bp) m = replicate (dbu_len bp - dbu_ptr bp) 0" by (rule buf_invD [OF inv ok])
  have lt: "dbu_len bp < ?nd" using nd(2) by simp
  note gr = grow_loop_grown [OF m(2) lt nd(1)]
  obtain r' where r: "grow_loop ?nd (dbu_len bp * 2 mod 2 ^ 64) 1 = Some (?l, r')" using gr(1) by blast
  let ?m = "take (dbu_ptr bp) m @ replicate (?l - dbu_ptr bp) 0"
  let ?bp = "bp\<lparr>dbu_buf := Some ?m, dbu_ptr := dbu_ptr bp, dbu_len := ?l, dbu_resizes := dbu_resizes bp + r'\<rparr>"
  have pl: "dbu_ptr bp \<le> ?l" "min (length m) (dbu_ptr bp) = dbu_ptr bp" using m gr by linarith+
  have c: "memcpy (replicate ?l 0) 0 (take (dbu_ptr bp) m) = Some ?m" using pl by (simp add: memcpy_def)
  from dt_buf_store_eq [of ?bp ?m "pad (dbu_ptr bp) align" d] gr pl obtain bp' where
    b: "dt_buf_store ?bp d (pad (dbu_ptr bp) align) = Some bp'" "dbu_ptr bp' = ?nd" "dbu_len bp' = ?l" "dbu_err bp' = 0"
      "dbu_buf bp' = Some ((take (dbu_ptr bp) m @ replicate (pad (dbu_ptr bp) align) 0 @ d) @ replicate (dbu_len bp' - ?nd) 0)"
    using ok by (auto simp: need_def)
  have "buf_inv bp'" "dt_buf_bytes bp' = take (dbu_ptr bp) m @ replicate (pad (dbu_ptr bp) align) 0 @ d"
    using buf_invI [OF b(4) _ _ nd(1) _ b(2,5)] m gr b(3) pl by (simp_all add: need_def)
  moreover have "dt_buf_write dtp bp d align = Some (dtp\<lparr>hdl_mem := al'\<rparr>, bp')"
    unfolding dt_buf_write_eq [OF al nd(1) ok, of dtp] using lt r c b(1) m(1) mem by (simp add: dt_zalloc_eq Let_def)
  ultimately show ?thesis using b(3,4) m(1) by (simp add: dt_buf_bytes_def)
qed

lemma dt_buf_write_nomem:
  assumes inv: "buf_inv bp" and ok: "dbu_err bp = 0" and al: "aligned align"
    and nd: "need (dbu_ptr bp) d align \<le> MAXBUF" "\<not> need (dbu_ptr bp) d align \<le> dbu_len bp" and mem: "alloc_ok (hdl_mem dtp) = (False, al')"
  shows "\<exists>dtp'. dt_buf_write dtp bp d align = Some (dtp', bp\<lparr>dbu_err := EDT_NOMEM_code\<rparr>)"
proof -
  obtain m where m: "0 < dbu_len bp" by (rule buf_invD [OF inv ok])
  have lt: "dbu_len bp < need (dbu_ptr bp) d align" using nd(2) by simp
  show ?thesis unfolding dt_buf_write_eq [OF al nd(1) ok, of dtp]
    using grow_loop_grown(1) [OF m lt nd(1), of 1] lt mem by (auto simp: dt_zalloc_eq Let_def)
qed

interpretation dbuf: byte_sink dt_buf_write dt_buf_bytes buf_failed buf_inv dbu_len hdl_mem
proof
  fix b :: dt_buf and align and dtp :: hdl and d :: "u8 list" and al
  assume i: "buf_inv b" and a: "aligned align"
  note l = length_buf_bytes [OF i]
  show "buf_failed b \<Longrightarrow> \<exists>h'. dt_buf_write dtp b d align = Some (h', b)"
    using dt_buf_write_failed [OF a, of b dtp d] i by (auto simp: buf_failed_def buf_inv_def)
  assume n: "\<not> buf_failed b" "need (length (dt_buf_bytes b)) d align \<le> MAXBUF"
  show "need (length (dt_buf_bytes b)) d align \<le> dbu_len b \<Longrightarrow>
     \<exists>b'. dt_buf_write dtp b d align = Some (dtp, b') \<and> buf_inv b' \<and> \<not> buf_failed b' \<and> dbu_len b' = dbu_len b \<and>
        dt_buf_bytes b' = dt_buf_bytes b @ replicate (pad (length (dt_buf_bytes b)) align) 0 @ d"
    using dt_buf_write_fits [OF i _ a, of d dtp] n by (auto simp: l buf_failed_def)
  assume g: "\<not> need (length (dt_buf_bytes b)) d align \<le> dbu_len b"
  show "alloc_ok (hdl_mem dtp) = (True, al) \<Longrightarrow>
     \<exists>h' b'. dt_buf_write dtp b d align = Some (h', b') \<and> buf_inv b' \<and> \<not> buf_failed b' \<and> hdl_mem h' = al \<and>
        dbu_len b' = grown (dbu_len b) (need (length (dt_buf_bytes b)) d align) \<and>
        dt_buf_bytes b' = dt_buf_bytes b @ replicate (pad (length (dt_buf_bytes b)) align) 0 @ d"
    using dt_buf_write_grows [OF i _ a, of d dtp al] n g by (auto simp: l buf_failed_def)
  show "alloc_ok (hdl_mem dtp) = (False, al) \<Longrightarrow>
     \<exists>h' b'. dt_buf_write dtp b d align = Some (h', b') \<and> buf_inv b' \<and> buf_failed b' \<and> dt_buf_bytes b' = dt_buf_bytes b"
    using dt_buf_write_nomem [OF i _ a, of d dtp al] n g i
    by (fastforce simp: l buf_failed_def buf_inv_def EDT_NOMEM_code_def split: option.splits)
qed

lemma dt_buf_create_eq:
  assumes "dt_buf_create dtp bp0 name len = (dtp1, bp1)" "len \<le> MAXBUF" "alloc_ok (hdl_mem dtp) = (ok, al)"
  shows "buf_inv bp1" "dt_buf_bytes bp1 = []" "buf_failed bp1 \<longleftrightarrow> \<not> ok" "hdl_mem dtp1 = al"
    "dbu_len bp1 = (if len = 0 then dtrace_bufsize else len)"
proof -
  define l where "l = (if len = 0 then dtrace_bufsize else len)"
  have l: "0 < l" "l \<le> 2 * MAXBUF" using assms(2) by (auto simp: l_def dtrace_bufsize_def)
  have e: "(dtp1, bp1) = (if ok then (dtp\<lparr>hdl_mem := al\<rparr>,
        bp0\<lparr>dbu_buf := Some (replicate l 0), dbu_ptr := 0, dbu_len := l, dbu_err := 0, dbu_resizes := 0, dbu_name := name\<rparr>)
      else (dtp\<lparr>hdl_mem := al, dt_errno := EDT_NOMEM_code\<rparr>,
        bp0\<lparr>dbu_buf := None, dbu_ptr := 0, dbu_len := l, dbu_err := EDT_NOMEM_code, dbu_resizes := 0, dbu_name := name\<rparr>))"
    unfolding assms(1) [symmetric] dt_buf_create_def Let_def l_def [symmetric] dt_zalloc_eq assms(3) by (cases ok) simp_all
  show "buf_inv bp1" "dt_buf_bytes bp1 = []" "buf_failed bp1 \<longleftrightarrow> \<not> ok" "hdl_mem dtp1 = al"
    using e l by (cases ok; simp add: buf_inv_def buf_failed_def dt_buf_bytes_def EDT_NOMEM_code_def)+
  show "dbu_len bp1 = (if len = 0 then dtrace_bufsize else len)" unfolding l_def [symmetric] using e by (cases ok) simp_all
qed

lemma dt_buf_offset_predicts:
  assumes "buf_inv bp" "dbu_err bp = 0" "aligned align" "need (dbu_ptr bp) d align \<le> MAXBUF"
    and "dt_buf_write dtp bp d align = Some (dtp', bp')" "dbu_err bp' = 0"
  shows "dt_buf_offset bp align = Some (dt_buf_len bp' - length d)"
proof -
  have p: "dbu_ptr bp \<le> MAXBUF" using assms(1) by (simp add: buf_inv_def)
  obtain ok al where ok: "alloc_ok (hdl_mem dtp) = (ok, al)" by fastforce
  have "dt_buf_bytes bp' = dt_buf_bytes bp @ replicate (pad (dbu_ptr bp) align) 0 @ d \<and> buf_inv bp'"
    using dt_buf_write_fits [OF assms(1-4), of dtp] dt_buf_write_grows [OF assms(1-4), of dtp al]
      dt_buf_write_nomem [OF assms(1-4), of dtp al] assms(5,6) ok
    by (cases "need (dbu_ptr bp) d align \<le> dbu_len bp"; cases ok) (auto simp: EDT_NOMEM_code_def)
  then have "dbu_ptr bp' = dbu_ptr bp + pad (dbu_ptr bp) align + length d"
    using length_buf_bytes [of bp'] length_buf_bytes [OF assms(1)] by auto
  then show ?thesis using roundup_pad [OF assms(3) p] by (simp add: dt_buf_offset_def dt_buf_len_def)
qed

lemma dt_buf_concat_error:
  assumes "aligned align" "dbu_ptr dst \<le> MAXBUF"
  shows "dbu_err dst \<noteq> 0 \<Longrightarrow> dt_buf_concat dtp dst src align = Some (dt_set_errno dtp (dbu_err dst), dst)"
    and "dbu_err dst = 0 \<Longrightarrow> dbu_err src \<noteq> 0 \<Longrightarrow>
      dt_buf_concat dtp dst src align = Some (dt_set_errno dtp (dbu_err src), dst\<lparr>dbu_err := dbu_err src\<rparr>)"
  using dt_buf_write_failed [OF assms] by (simp_all add: dt_buf_concat_def)

lemma dt_buf_claim_write_diverges:
  assumes "dt_buf_claim bp = (m, bp')" and "dbu_err bp = 0" and "d \<noteq> []" and "aligned align" and "length d \<le> MAXBUF"
  shows "dt_buf_write dtp bp' d align = None"
proof -
  have "pad 0 align = 0" using assms(4) by (simp add: pad_def aligned_def)
  then have n: "need (dbu_ptr bp') d align = length d" "dbu_len bp' = 0" "dbu_err bp' = 0" "dbu_ptr bp' = 0"
    using assms(1,2) by (auto simp: dt_buf_claim_def Let_def need_def)
  show ?thesis
    using dt_buf_write_eq [OF assms(4) _ n(3), of d dtp] n assms(3,5) grow_loop_zero [of "length d" 1] by simp
qed

text \<open>C10: Writes.  On a buffer made by \<open>dt_buf_create\<close>, any series of writes returns whose alignments are not zero and
  which, with the padding, comes to at most \<open>2 ^ 62\<close> bytes.  The buffer then holds the first \<open>n\<close> of the written blocks, one
  after the other, each preceded by the zero bytes its alignment asks for, where \<open>n\<close> is the number of blocks that
  go in before an allocation fails: a block needs one exactly when it does not fit, and the capacity is
  doubled until it does.  Without a failure that is all of them and there is no error; else the error
  is \<open>EDT_NOMEM\<close>.\<close>

theorem dt_buf_writes_correct:
  assumes "dt_buf_create dtp bp0 name len = (dtp1, bp1)" and "len \<le> MAXBUF" and "alloc_ok (hdl_mem dtp) = (ok, al)"
    and "\<forall>(d, align) \<in> set ws. 0 < align \<and> align \<le> MAXBUF" and "length (layout [] ws) \<le> MAXBUF"
    and "n = (if ok then stored al (if len = 0 then dtrace_bufsize else len) 0 ws else 0)"
  shows "\<exists>dtp2 bp2. write_seq dt_buf_write dtp1 bp1 ws = Some (dtp2, bp2) \<and>
    dt_buf_bytes bp2 = layout [] (take n ws) \<and> dt_buf_len bp2 = length (layout [] (take n ws)) \<and>
    dt_buf_error bp2 = (if ok \<and> n = length ws then 0 else EDT_NOMEM_code)"
proof -
  note c = dt_buf_create_eq [OF assms(1-3)]
  have a: "\<forall>(d, align) \<in> set ws. aligned align" using assms(4) by (auto simp: aligned_def)
  have "\<exists>dtp2 bp2. write_seq dt_buf_write dtp1 bp1 ws = Some (dtp2, bp2) \<and> buf_inv bp2 \<and>
    dt_buf_bytes bp2 = layout [] (take n ws) \<and> (buf_failed bp2 \<longleftrightarrow> \<not> (ok \<and> n = length ws))"
  proof (cases ok)
    case True
    then show ?thesis using dbuf.write_seq_stored [OF c(1) _ a, of n dtp1] c assms(5,6) by auto
  next
    case False
    then show ?thesis using dbuf.write_seq_failed [OF c(1) _ a, of dtp1] c assms(6) by auto
  qed
  then obtain dtp2 bp2 where w: "write_seq dt_buf_write dtp1 bp1 ws = Some (dtp2, bp2)" "buf_inv bp2"
    "dt_buf_bytes bp2 = layout [] (take n ws)" "buf_failed bp2 \<longleftrightarrow> \<not> (ok \<and> n = length ws)" by blast
  then show ?thesis using length_buf_bytes [OF w(2)] by (auto simp: dt_buf_len_def dt_buf_error_def buf_failed_def buf_inv_def)
qed

theorem dt_buf_writes_correct_witness:
  "\<exists>dtp2 bp2. write_seq dt_buf_write \<lparr>dt_errno = 0, hdl_mem = [True, False]\<rparr>
      \<lparr>dbu_name = ''b'', dbu_buf = Some [0, 0], dbu_ptr = 0, dbu_len = 2, dbu_err = 0, dbu_resizes = 0\<rparr>
      [([1], 1), ([2, 3], 4), ([4, 5, 6], 1)] = Some (dtp2, bp2) \<and>
    dt_buf_bytes bp2 = [1, 0, 0, 0, 2, 3] \<and> dt_buf_error bp2 = EDT_NOMEM_code"
proof -
  define ws :: "(u8 list \<times> nat) list" where "ws = [([1], 1), ([2, 3], 4), ([4, 5, 6], 1)]"
  have r: "replicate 3 (0 :: u8) = [0, 0, 0]" "replicate 2 (0 :: u8) = [0, 0]" by (simp_all add: numeral_3_eq_3 numeral_2_eq_2)
  have s: "(2 :: nat) = (if True then stored [True, False] (if (2 :: nat) = 0 then dtrace_bufsize else 2) 0 ws else 0)"
    by (simp add: ws_def pad_def grown_def blen.simps)
  have l: "layout [] (take 2 ws) = [1, 0, 0, 0, 2, 3]" "length (layout [] ws) = 9"
    by (simp_all add: ws_def pad_def r)
  have c: "dt_buf_create \<lparr>dt_errno = 0, hdl_mem = [True, True, False]\<rparr>
      \<lparr>dbu_name = ''a'', dbu_buf = None, dbu_ptr = 0, dbu_len = 0, dbu_err = 0, dbu_resizes = 0\<rparr> ''b'' 2 =
    (\<lparr>dt_errno = 0, hdl_mem = [True, False]\<rparr>,
     \<lparr>dbu_name = ''b'', dbu_buf = Some [0, 0], dbu_ptr = 0, dbu_len = 2, dbu_err = 0, dbu_resizes = 0\<rparr>)"
    by (simp add: dt_buf_create_def dt_zalloc_def r)
  have h: "(2 :: nat) \<le> MAXBUF" "alloc_ok (hdl_mem \<lparr>dt_errno = 0, hdl_mem = [True, True, False]\<rparr>) = (True, [True, False])"
    "\<forall>(d, align) \<in> set ws. 0 < align \<and> align \<le> MAXBUF" "length (layout [] ws) \<le> MAXBUF" "2 \<noteq> length ws"
    using l(2) by (simp_all add: ws_def)
  show ?thesis using dt_buf_writes_correct [OF c h(1-4) s] h(5) unfolding l ws_def [symmetric] by auto
qed

end
