(* ===== verification/DTHtab.thy ===== *)
theory DTHtab
  imports DTList DTString "HOL-Library.Multiset"
begin

text \<open>
  The generic hash table of \<open>libdtrace/dt_htab.c\<close> and the entry links of
  \<open>libdtrace/dt_htab.h\<close>.

  Entries are addresses.  Their \<open>dt_hentry_t\<close> links (\<open>next\<close>, \<open>prev\<close>) live in a store of the
  same shape as the one of \<open>DTList\<close>; what the hash and comparison functions read is
  the key of an entry, a function on addresses.  Every table of the code base uses the
  standard functions \<open>add\<close> and \<open>next\<close> that \<open>DEFINE_HE_STD_LINK_FUNCS\<close> defines, so these are not operations of a
  table in the model; its \<open>hval\<close>, \<open>cmp\<close> and \<open>del\<close> are.  The \<open>del\<close> of a table unlinks an entry with the standard
  function and in some tables then frees it: it returns the entries it has freed.  A slot holds its chain
  of buckets as a list in chain order.  A bucket has an
  address because the iterator points to it.  Numbers of slots, buckets and entries are natural numbers; a table is
  not resized to \<open>2 ^ 31\<close> slots or more, because the negative \<open>int\<close> that the number would be makes the allocation fail.

  Results of the operations are the C return values: 0, \<open>-ENOMEM\<close>, \<open>-ENOENT\<close>.  \<open>None\<close>
  stands for an access the code may not make (a NULL link, a slot outside the table,
  a bucket or an entry that has been freed).
\<close>

section \<open>Entry links\<close>

definition he_add :: "lstore \<Rightarrow> nat option \<Rightarrow> nat \<Rightarrow> lstore \<times> nat" where
  "he_add st head new =
     (case head of
        None \<Rightarrow> (st, new)
      | Some h \<Rightarrow>
          (let st = set_next st new (Some h);
               st = set_prev st h (Some new)
           in (st, new)))"

definition he_del :: "lstore \<Rightarrow> nat \<Rightarrow> nat \<Rightarrow> (lstore \<times> nat option) option" where
  "he_del st head ent =
     (let prev = dl_prev (st ent);
          nxt = dl_next (st ent)
      in if head = ent then
           (case nxt of
              None \<Rightarrow> Some (st, None)
            | Some n \<Rightarrow>
                (let st = set_prev st n None;
                     st = set_next st ent None
                 in Some (st, Some n)))
         else
           (case prev of
              None \<Rightarrow> None
            | Some p \<Rightarrow>
                (case nxt of
                   None \<Rightarrow>
                     (let st = set_next st p None;
                          st = set_prev st ent None
                      in Some (st, Some head))
                 | Some n \<Rightarrow>
                     (let st = set_next st p (Some n);
                          st = set_prev st n (Some p);
                          st = set_next st ent None;
                          st = set_prev st ent None
                      in Some (st, Some head)))))"

definition he_next :: "lstore \<Rightarrow> nat \<Rightarrow> nat option" where
  "he_next st ent = dl_next (st ent)"

section \<open>The table\<close>

record 'k htab_ops =
  op_hval :: "'k \<Rightarrow> u32"
  op_cmp :: "'k \<Rightarrow> 'k \<Rightarrow> int"
  op_del :: "lstore \<Rightarrow> nat \<Rightarrow> nat \<Rightarrow> (lstore \<times> nat option \<times> nat list) option"

text \<open>A \<open>del\<close> that only unlinks, and one that also frees the entry.\<close>

definition del_unlinks :: "lstore \<Rightarrow> nat \<Rightarrow> nat \<Rightarrow> (lstore \<times> nat option \<times> nat list) option" where
  "del_unlinks st head ent = map_option (\<lambda>(st, head). (st, head, [])) (he_del st head ent)"

definition del_frees :: "lstore \<Rightarrow> nat \<Rightarrow> nat \<Rightarrow> (lstore \<times> nat option \<times> nat list) option" where
  "del_frees st head ent = map_option (\<lambda>(st, head). (st, head, [ent])) (he_del st head ent)"

record hbucket =
  hb_addr :: nat
  hb_hval :: u32
  hb_head :: nat
  hb_nentries :: nat

record htab =
  ht_tab :: "hbucket list list"
  ht_size :: nat
  ht_mask :: nat
  ht_nbuckets :: nat
  ht_nentries :: nat
  ht_fresh :: nat

record htab_next =
  it_idx :: nat
  it_bucket :: "nat option"
  it_ent :: "nat option"
  it_exhausted :: bool

definition ENOMEM :: int where "ENOMEM = 12"
definition ENOENT :: int where "ENOENT = 2"

definition dt_htab_create :: "alloc \<Rightarrow> htab option \<times> alloc" where
  "dt_htab_create al =
     (let (ok, al) = alloc_ok al in
      if \<not> ok then (None, al)
      else
        (let htab = \<lparr>ht_tab = [], ht_size = 1, ht_mask = 1 - 1, ht_nbuckets = 0, ht_nentries = 0,
                     ht_fresh = 0\<rparr>;
             (ok, al) = alloc_ok al
         in if \<not> ok then (None, al)
            else (Some (htab\<lparr>ht_tab := replicate (ht_size htab) []\<rparr>), al)))"

definition ht_idx :: "nat \<Rightarrow> u32 \<Rightarrow> nat" where
  "ht_idx msk hval = unat hval AND msk"

text \<open>Moving one chain of buckets into the new table, first bucket first.\<close>

fun rehash :: "nat \<Rightarrow> hbucket list list \<Rightarrow> hbucket list \<Rightarrow> hbucket list list" where
  "rehash nmask ntab [] = ntab"
| "rehash nmask ntab (b # bs) =
     (let idx = ht_idx nmask (hb_hval b)
      in rehash nmask (ntab[idx := b # ntab ! idx]) bs)"

definition resize :: "htab \<Rightarrow> alloc \<Rightarrow> int \<times> htab \<times> alloc" where
  "resize htab al =
     (let osize = ht_size htab;
          nsize = 2 * osize;
          nmask = nsize - 1;
          (ok, al) = alloc_ok al
      in if \<not> ok \<or> nsize \<ge> 2 ^ 31 then (- ENOMEM, htab, al)
         else
           (let ntab = foldl (rehash nmask) (replicate nsize []) (ht_tab htab)
            in (0, htab\<lparr>ht_tab := ntab, ht_size := nsize, ht_mask := nmask\<rparr>, al)))"

fun find_bucket :: "'k htab_ops \<Rightarrow> (nat \<Rightarrow> 'k) \<Rightarrow> hbucket list \<Rightarrow> 'k \<Rightarrow> nat option" where
  "find_bucket ops key [] k = None"
| "find_bucket ops key (b # bs) k =
     (if op_cmp ops (key (hb_head b)) k = 0 then Some 0
      else map_option Suc (find_bucket ops key bs k))"

partial_function (option) dt_htab_insert_loop ::
  "'k htab_ops \<Rightarrow> (nat \<Rightarrow> 'k) \<Rightarrow> u32 \<Rightarrow> nat \<Rightarrow> lstore \<Rightarrow> htab \<Rightarrow> alloc \<Rightarrow>
     (int \<times> lstore \<times> htab \<times> alloc) option" where
  "dt_htab_insert_loop ops key hval entry st htab al =
     (let idx = ht_idx (ht_mask htab) hval;
          chain = ht_tab htab ! idx
      in if idx \<ge> length (ht_tab htab) then None
         else (case find_bucket ops key chain (key entry) of
           Some i \<Rightarrow>
             (let b = chain ! i;
                  (st, head) = he_add st (Some (hb_head b)) entry;
                  b = b\<lparr>hb_head := head, hb_nentries := hb_nentries b + 1\<rparr>
              in Some (0, st, htab\<lparr>ht_tab := (ht_tab htab)[idx := chain[i := b]],
                                   ht_nentries := ht_nentries htab + 1\<rparr>, al))
         | None \<Rightarrow>
             if ht_nbuckets htab div 2 > ht_size htab then
               (let (err, htab, al) = resize htab al
                in if err \<noteq> 0 then Some (err, st, htab, al)
                   else dt_htab_insert_loop ops key hval entry st htab al)
             else
               (let (ok, al) = alloc_ok al
                in if \<not> ok then Some (- ENOMEM, st, htab, al)
                   else
                     (let (st, head) = he_add st None entry;
                          b = \<lparr>hb_addr = ht_fresh htab, hb_hval = hval, hb_head = head,
                               hb_nentries = 0 + 1\<rparr>
                      in Some (0, st, htab\<lparr>ht_tab := (ht_tab htab)[idx := b # chain],
                                           ht_nbuckets := ht_nbuckets htab + 1,
                                           ht_nentries := ht_nentries htab + 1,
                                           ht_fresh := ht_fresh htab + 1\<rparr>, al)))))"

definition dt_htab_insert ::
  "'k htab_ops \<Rightarrow> (nat \<Rightarrow> 'k) \<Rightarrow> lstore \<Rightarrow> htab \<Rightarrow> alloc \<Rightarrow> nat \<Rightarrow>
     (int \<times> lstore \<times> htab \<times> alloc) option" where
  "dt_htab_insert ops key st htab al entry =
     dt_htab_insert_loop ops key (op_hval ops (key entry)) entry st htab al"

definition dt_htab_lookup :: "'k htab_ops \<Rightarrow> (nat \<Rightarrow> 'k) \<Rightarrow> htab \<Rightarrow> 'k \<Rightarrow> nat option" where
  "dt_htab_lookup ops key htab k =
     (let idx = ht_idx (ht_mask htab) (op_hval ops k);
          chain = ht_tab htab ! idx
      in map_option (\<lambda>i. hb_head (chain ! i)) (find_bucket ops key chain k))"

definition dt_htab_delete ::
  "'k htab_ops \<Rightarrow> (nat \<Rightarrow> 'k) \<Rightarrow> lstore \<Rightarrow> htab \<Rightarrow> nat \<Rightarrow> (int \<times> lstore \<times> htab \<times> nat list) option" where
  "dt_htab_delete ops key st htab entry =
     (let idx = ht_idx (ht_mask htab) (op_hval ops (key entry));
          chain = ht_tab htab ! idx
      in case find_bucket ops key chain (key entry) of
           None \<Rightarrow> Some (- ENOENT, st, htab, [])
         | Some i \<Rightarrow>
             (let b = chain ! i in
              case op_del ops st (hb_head b) entry of
                None \<Rightarrow> None
              | Some (st, head, freed) \<Rightarrow>
                  (let htab = htab\<lparr>ht_nentries := ht_nentries htab - 1\<rparr>
                   in case head of
                        None \<Rightarrow>
                          Some (0, st, htab\<lparr>ht_tab := (ht_tab htab)
                                  [idx := take i chain @ drop (Suc i) chain],
                                ht_nbuckets := ht_nbuckets htab - 1\<rparr>, freed)
                      | Some head \<Rightarrow>
                          Some (0, st, htab\<lparr>ht_tab := (ht_tab htab)
                                  [idx := chain[i := b\<lparr>hb_head := head,
                                      hb_nentries := hb_nentries b - 1\<rparr>]]\<rparr>, freed))))"

definition dt_htab_entries :: "htab \<Rightarrow> nat" where
  "dt_htab_entries htab = ht_nentries htab"

text \<open>
  Destroying the table deletes the head of every bucket until the bucket is empty.  The
  result lists the entries in the order they were deleted, and those that were freed.  What a \<open>del\<close>
  reads or writes (\<open>del_touches\<close>) must not have been freed before.
\<close>

definition del_touches :: "lstore \<Rightarrow> nat \<Rightarrow> nat \<Rightarrow> nat list" where
  "del_touches st head ent =
     ent # (case dl_next (st ent) of None \<Rightarrow> [] | Some n \<Rightarrow> [n]) @
     (if head = ent then [] else (case dl_prev (st ent) of None \<Rightarrow> [] | Some p \<Rightarrow> [p]))"

partial_function (option) destroy_bucket ::
  "'k htab_ops \<Rightarrow> lstore \<Rightarrow> nat option \<Rightarrow> nat list \<Rightarrow> nat list \<Rightarrow> (lstore \<times> nat list \<times> nat list) option" where
  "destroy_bucket ops st head dels freed =
     (case head of
        None \<Rightarrow> Some (st, dels, freed)
      | Some h \<Rightarrow>
          if list_ex (\<lambda>a. a \<in> set freed) (del_touches st h h) then None
          else
            (case op_del ops st h h of
               None \<Rightarrow> None
             | Some (st, head, fr) \<Rightarrow> destroy_bucket ops st head (dels @ [h]) (freed @ fr)))"

fun destroy_buckets ::
  "'k htab_ops \<Rightarrow> lstore \<Rightarrow> hbucket list \<Rightarrow> nat list \<Rightarrow> nat list \<Rightarrow> (lstore \<times> nat list \<times> nat list) option" where
  "destroy_buckets ops st [] dels freed = Some (st, dels, freed)"
| "destroy_buckets ops st (b # bs) dels freed =
     (case destroy_bucket ops st (Some (hb_head b)) dels freed of
        None \<Rightarrow> None
      | Some (st, dels, freed) \<Rightarrow> destroy_buckets ops st bs dels freed)"

definition dt_htab_destroy :: "'k htab_ops \<Rightarrow> lstore \<Rightarrow> htab option \<Rightarrow> (lstore \<times> nat list \<times> nat list) option" where
  "dt_htab_destroy ops st htab =
     (case htab of
        None \<Rightarrow> Some (st, [], [])
      | Some htab \<Rightarrow> destroy_buckets ops st (concat (take (ht_size htab) (ht_tab htab))) [] [])"

subsection \<open>Iteration\<close>

fun adv_bucket :: "lstore \<Rightarrow> hbucket list \<Rightarrow> nat option \<Rightarrow> (nat \<times> nat) option" where
  "adv_bucket st [] ent = None"
| "adv_bucket st (b # bs) ent =
     (case (case ent of None \<Rightarrow> Some (hb_head b) | Some e \<Rightarrow> he_next st e) of
        Some e \<Rightarrow> Some (hb_addr b, e)
      | None \<Rightarrow> adv_bucket st bs None)"

text \<open>The slots from \<open>idx\<close> on; the inner option is the position found, if any.\<close>

fun adv_slots :: "lstore \<Rightarrow> hbucket list list \<Rightarrow> nat \<Rightarrow> nat option \<Rightarrow> nat option \<Rightarrow>
    (nat \<times> (nat \<times> nat) option) option" where
  "adv_slots st [] idx bucket ent = Some (idx, None)"
| "adv_slots st (c # cs) idx bucket ent =
     (if c = [] then adv_slots st cs (Suc idx) None None
      else
        (case (case bucket of
                 None \<Rightarrow> c
               | Some a \<Rightarrow> dropWhile (\<lambda>b. hb_addr b \<noteq> a) c) of
           [] \<Rightarrow> None
         | b # bs \<Rightarrow>
             (case adv_bucket st (b # bs) ent of
                Some be \<Rightarrow> Some (idx, Some be)
              | None \<Rightarrow> adv_slots st cs (Suc idx) None None)))"

definition htab_advance :: "htab \<Rightarrow> lstore \<Rightarrow> htab_next \<Rightarrow> htab_next option" where
  "htab_advance htab st i =
     (case adv_slots st (drop (it_idx i) (take (ht_size htab) (ht_tab htab)))
             (it_idx i) (it_bucket i) (it_ent i) of
        None \<Rightarrow> None
      | Some (idx, Some (b, e)) \<Rightarrow>
          Some (i\<lparr>it_idx := idx, it_bucket := Some b, it_ent := Some e\<rparr>)
      | Some (idx, None) \<Rightarrow>
          Some (i\<lparr>it_idx := idx, it_bucket := None, it_ent := None, it_exhausted := True\<rparr>))"

definition dt_htab_next ::
  "htab \<Rightarrow> lstore \<Rightarrow> htab_next option \<Rightarrow> alloc \<Rightarrow>
     (nat option \<times> htab_next option \<times> alloc) option" where
  "dt_htab_next htab st it al =
     (let (ok, al) = (case it of None \<Rightarrow> alloc_ok al | Some _ \<Rightarrow> (True, al))
      in if \<not> ok then Some (None, None, al)
         else
           (case (case it of
                    None \<Rightarrow> htab_advance htab st
                      \<lparr>it_idx = 0, it_bucket = None, it_ent = None, it_exhausted = False\<rparr>
                  | Some i \<Rightarrow> Some i) of
              None \<Rightarrow> None
            | Some i \<Rightarrow>
                if it_exhausted i then Some (None, None, al)
                else
                  (let ret = it_ent i in
                   map_option (\<lambda>i. (ret, Some i, al)) (htab_advance htab st i))))"

text \<open>The loop of a client: call \<open>dt_htab_next\<close> until it returns NULL.\<close>

partial_function (option) htab_walk ::
  "htab \<Rightarrow> lstore \<Rightarrow> htab_next option \<Rightarrow> alloc \<Rightarrow> nat list \<Rightarrow> nat list option" where
  "htab_walk htab st it al seen =
     (case dt_htab_next htab st it al of
        None \<Rightarrow> None
      | Some (None, it, al) \<Rightarrow> Some seen
      | Some (Some e, it, al) \<Rightarrow> htab_walk htab st it al (seen @ [e]))"

subsection \<open>Statistics\<close>

record hstats =
  slotc :: nat
  bckc :: nat
  maxbckinslot :: nat
  maxentinbck :: nat
  maxentinslot :: nat
  bckinslot :: nat
  entinbck :: nat
  entinslot :: nat

definition stats_slot :: "hstats \<Rightarrow> hbucket list \<Rightarrow> hstats" where
  "stats_slot s chain =
     (if chain = [] then s
      else
        (let bucketc = length chain;
             entryc = sum_list (map hb_nentries chain)
         in s\<lparr>slotc := slotc s + 1,
              maxentinbck := foldl (\<lambda>m b. if hb_nentries b > m then hb_nentries b else m)
                 (maxentinbck s) chain,
              maxbckinslot := (if bucketc > maxbckinslot s then bucketc else maxbckinslot s),
              maxentinslot := (if entryc > maxentinslot s then entryc else maxentinslot s),
              bckinslot := bckinslot s + bucketc,
              entinslot := entinslot s + entryc,
              entinbck := entinbck s + entryc,
              bckc := bckc s + bucketc\<rparr>))"

datatype hstat_report =
    HSTAT_empty
  | HSTAT (hs_slots: nat) (hs_used: nat) (hs_buckets: nat) (hs_avg: "nat \<times> nat \<times> nat")
      (hs_max: "nat \<times> nat \<times> nat")

definition dt_htab_stats :: "htab \<Rightarrow> hstat_report option" where
  "dt_htab_stats htab =
     (let s = foldl stats_slot
                \<lparr>slotc = 0, bckc = 0, maxbckinslot = 0, maxentinbck = 0, maxentinslot = 0,
                 bckinslot = 0, entinbck = 0, entinslot = 0\<rparr>
                (take (ht_size htab) (ht_tab htab))
      in if slotc s = 0 then Some HSTAT_empty
         else if bckc s = 0 then None
         else Some (HSTAT (ht_size htab) (slotc s) (ht_nbuckets htab)
                (bckinslot s div slotc s, entinbck s div bckc s, entinslot s div slotc s)
                (maxbckinslot s, maxentinbck s, maxentinslot s)))"

section \<open>Abstraction and invariant\<close>

text \<open>The entries of a bucket, from its head along the \<open>next\<close> links.\<close>

fun follow :: "lstore \<Rightarrow> nat \<Rightarrow> nat option \<Rightarrow> nat list" where
  "follow st 0 a = []"
| "follow st (Suc n) None = []"
| "follow st (Suc n) (Some a) = a # follow st n (dl_next (st a))"

definition bents :: "lstore \<Rightarrow> hbucket \<Rightarrow> nat list" where
  "bents st b = follow st (hb_nentries b) (Some (hb_head b))"

definition buckets :: "htab \<Rightarrow> hbucket list" where
  "buckets htab = concat (ht_tab htab)"

definition ht_ents :: "lstore \<Rightarrow> htab \<Rightarrow> nat list" where
  "ht_ents st htab = concat (map (bents st) (buckets htab))"

text \<open>What the table stores under a key: the entries with that key, the last one added first.\<close>

definition habsB :: "'k htab_ops \<Rightarrow> (nat \<Rightarrow> 'k) \<Rightarrow> lstore \<Rightarrow> hbucket list \<Rightarrow> 'k \<Rightarrow> nat list" where
  "habsB ops key st B k =
     (case find (\<lambda>b. op_cmp ops (key (hb_head b)) k = 0) B of
        None \<Rightarrow> []
      | Some b \<Rightarrow> bents st b)"

definition habs :: "'k htab_ops \<Rightarrow> (nat \<Rightarrow> 'k) \<Rightarrow> lstore \<Rightarrow> htab \<Rightarrow> 'k \<Rightarrow> nat list" where
  "habs ops key st htab k = habsB ops key st (buckets htab) k"

definition bucket_ok :: "'k htab_ops \<Rightarrow> (nat \<Rightarrow> 'k) \<Rightarrow> lstore \<Rightarrow> hbucket \<Rightarrow> bool" where
  "bucket_ok ops key st b \<longleftrightarrow>
     0 < hb_nentries b \<and> length (bents st b) = hb_nentries b \<and>
     linked st None (bents st b) None \<and>
     (\<forall>e \<in> set (bents st b). op_cmp ops (key e) (key (hb_head b)) = 0 \<and>
        op_hval ops (key e) = hb_hval b)"

definition binv :: "'k htab_ops \<Rightarrow> (nat \<Rightarrow> 'k) \<Rightarrow> lstore \<Rightarrow> nat \<Rightarrow> hbucket list \<Rightarrow> bool" where
  "binv ops key st fresh B \<longleftrightarrow>
     (\<forall>b \<in> set B. bucket_ok ops key st b \<and> hb_addr b < fresh) \<and>
     (\<forall>b \<in> set B. \<forall>b' \<in> set B. op_cmp ops (key (hb_head b)) (key (hb_head b')) = 0 \<longrightarrow> b = b') \<and>
     distinct (concat (map (bents st) B)) \<and> distinct (map hb_addr B)"

definition htab_shape :: "htab \<Rightarrow> bool" where
  "htab_shape htab \<longleftrightarrow>
     (\<exists>n. ht_size htab = 2 ^ n) \<and> ht_mask htab = ht_size htab - 1 \<and>
     length (ht_tab htab) = ht_size htab \<and>
     (\<forall>i < ht_size htab. \<forall>b \<in> set (ht_tab htab ! i). ht_idx (ht_mask htab) (hb_hval b) = i)"

definition htab_inv :: "'k htab_ops \<Rightarrow> (nat \<Rightarrow> 'k) \<Rightarrow> lstore \<Rightarrow> htab \<Rightarrow> bool" where
  "htab_inv ops key st htab \<longleftrightarrow>
     htab_shape htab \<and> binv ops key st (ht_fresh htab) (buckets htab) \<and>
     ht_nbuckets htab = length (buckets htab) \<and>
     ht_nentries htab = length (ht_ents st htab) \<and>
     ht_nbuckets htab \<le> 2 * ht_size htab + 2"

definition unlinked :: "lstore \<Rightarrow> nat \<Rightarrow> bool" where
  "unlinked st e \<longleftrightarrow> dl_prev (st e) = None \<and> dl_next (st e) = None"

section \<open>Entry lists and buckets\<close>

lemma follow_linked:
  "linked st pr xs None \<Longrightarrow> follow st (length xs) (hd_or xs None) = xs"
proof (induction xs arbitrary: pr)
  case (Cons x xs)
  then have "linked st (Some x) xs None" by simp
  from Cons.IH [OF this] Cons.prems show ?case by simp
qed simp

lemma follow_cong:
  "(\<And>a. a \<in> set (follow st n h) \<Longrightarrow> st' a = st a) \<Longrightarrow> follow st' n h = follow st n h"
  by (induction st n h rule: follow.induct) auto

lemma bents_cong:
  "(\<And>a. a \<in> set (bents st b) \<Longrightarrow> st' a = st a) \<Longrightarrow> bents st' b = bents st b"
  unfolding bents_def by (rule follow_cong)

lemma bucket_ok_cong:
  assumes "bucket_ok ops key st b" and "\<And>a. a \<in> set (bents st b) \<Longrightarrow> st' a = st a"
  shows "bucket_ok ops key st' b"
  using assms bents_cong [of st b st'] linked_cong [of "bents st b" st' st None None]
  by (simp add: bucket_ok_def)

lemma he_add_linked:
  assumes "linked st None (x # xs) None" and "e \<notin> set (x # xs)" and "distinct (x # xs)" and "unlinked st e"
  shows "\<exists>st'. he_add st (Some x) e = (st', e) \<and> linked st' None (e # x # xs) None \<and>
    same_except {e, x} st st'"
  using assms by (auto simp: he_add_def unlinked_def same_except_def heap_simps Let_def)

lemma he_del_linked:
  assumes "linked st None (xs @ e # ys) None" and "distinct (xs @ e # ys)"
  shows "\<exists>st'. he_del st (hd (xs @ [e])) e = Some (st', hd_or (xs @ ys) None) \<and>
    linked st' None (xs @ ys) None \<and> unlinked st' e \<and> same_except (set (xs @ e # ys)) st st'"
proof (cases xs rule: rev_cases)
  case Nil
  with assms show ?thesis
    by (cases ys) (auto simp: he_del_def unlinked_def same_except_def heap_simps Let_def)
next
  case (snoc zs z)
  have hd: "hd (xs @ [e]) = hd xs" "hd xs \<noteq> e" using snoc assms(2) by (cases zs; auto)+
  have hx: "hd_or (xs @ ys) None = Some (hd xs)" using snoc by (cases zs) auto
  show ?thesis
    using assms hd hx snoc
    by (cases ys) (auto simp: he_del_def unlinked_def same_except_def heap_simps Let_def)
qed

lemma binv_perm: "mset B = mset B' \<Longrightarrow> binv ops key st fr B = binv ops key st fr B'"
proof -
  assume m: "mset B = mset B'"
  have "mset (concat (map (bents st) B)) = mset (concat (map (bents st) B'))"
    using m by (metis mset_concat mset_map sum_mset_sum_list)
  from mset_eq_imp_distinct_iff [OF this]
  have d: "distinct (concat (map (bents st) B)) = distinct (concat (map (bents st) B'))" .
  have "mset (map hb_addr B) = mset (map hb_addr B')" using m by simp
  from mset_eq_imp_distinct_iff [OF this]
  have "distinct (map hb_addr B) = distinct (map hb_addr B')" .
  moreover have "set B = set B'" using m by (rule mset_eq_setD)
  ultimately show ?thesis by (simp only: binv_def d)
qed

lemma bents_head: "0 < hb_nentries b \<Longrightarrow> \<exists>xs. bents st b = hb_head b # xs"
  by (cases "hb_nentries b") (auto simp: bents_def)

lemma bucket_okD:
  assumes "bucket_ok ops key st b"
  obtains xs where "bents st b = hb_head b # xs" "hb_nentries b = Suc (length xs)"
    "linked st None (hb_head b # xs) None"
    "\<And>e. e \<in> set (hb_head b # xs) \<Longrightarrow> op_cmp ops (key e) (key (hb_head b)) = 0"
    "\<And>e. e \<in> set (hb_head b # xs) \<Longrightarrow> op_hval ops (key e) = hb_hval b"
  using assms bents_head [of b st] unfolding bucket_ok_def by auto

lemma bentsI: "linked st None (h # xs) None \<Longrightarrow> hb_head b = h \<Longrightarrow> hb_nentries b = Suc (length xs) \<Longrightarrow>
  bents st b = h # xs"
  using follow_linked [of st None "h # xs"] by (simp add: bents_def)

lemma binv_frame:
  assumes "binv ops key st fr (b # R)" and "same_except A st st'" and "A \<inter> set (concat (map (bents st) R)) = {}"
  shows "\<forall>r \<in> set R. bucket_ok ops key st' r \<and> bents st' r = bents st r"
proof
  fix r assume r: "r \<in> set R"
  have eq: "st' a = st a" if "a \<in> set (bents st r)" for a
    using assms(2,3) r that by (auto simp: same_except_def)
  with r assms(1) show "bucket_ok ops key st' r \<and> bents st' r = bents st r"
    using bents_cong [of st r st'] bucket_ok_cong [of ops key st r st'] by (auto simp: binv_def)
qed

locale htab_keys =
  fixes ops :: "'k htab_ops"
  assumes cmp_refl: "op_cmp ops a a = 0"
    and cmp_sym: "op_cmp ops a b = 0 \<Longrightarrow> op_cmp ops b a = 0"
    and cmp_trans: "op_cmp ops a b = 0 \<Longrightarrow> op_cmp ops b c = 0 \<Longrightarrow> op_cmp ops a c = 0"
    and cmp_hval: "op_cmp ops a b = 0 \<Longrightarrow> op_hval ops a = op_hval ops b"
    and del_links: "map_option (\<lambda>(st, head, fr). (st, head)) (op_del ops st h e) = he_del st h e"
begin

lemma binv_head:
  assumes inv: "binv ops key st fr (b # R)"
    and b': "bucket_ok ops key st' b'" "hb_addr b' = hb_addr b"
      "op_cmp ops (key (hb_head b')) (key (hb_head b)) = 0"
      "set (bents st' b') \<subseteq> insert e (set (bents st b))" "distinct (bents st' b')"
    and e: "e \<notin> set (concat (map (bents st) R))"
    and fr: "\<forall>r \<in> set R. bucket_ok ops key st' r \<and> bents st' r = bents st r"
  shows "binv ops key st' fr (b' # R)"
proof -
  have m: "map (bents st') R = map (bents st) R" using fr by simp
  have ne: "op_cmp ops (key (hb_head b')) (key (hb_head r)) \<noteq> 0"
    "op_cmp ops (key (hb_head r)) (key (hb_head b')) \<noteq> 0" if "r \<in> set R" for r
  proof -
    have "r \<noteq> b" using inv that by (auto simp: binv_def)
    then have n: "op_cmp ops (key (hb_head b)) (key (hb_head r)) \<noteq> 0" using inv that by (auto simp: binv_def)
    show "op_cmp ops (key (hb_head b')) (key (hb_head r)) \<noteq> 0"
      using n cmp_trans [OF cmp_sym [OF b'(3)]] by blast
    then show "op_cmp ops (key (hb_head r)) (key (hb_head b')) \<noteq> 0" using cmp_sym by blast
  qed
  have "set (bents st b) \<inter> set (concat (map (bents st) R)) = {}" using inv by (simp add: binv_def)
  with b'(4) e have "set (bents st' b') \<inter> set (concat (map (bents st) R)) = {}" by blast
  then show ?thesis
    using inv b' fr ne unfolding binv_def by (simp add: m)
qed

lemma bucket_add:
  assumes inv: "binv ops key st fr (b # R)" and e: "e \<notin> set (concat (map (bents st) (b # R)))"
    and u: "unlinked st e" and k: "op_cmp ops (key (hb_head b)) (key e) = 0"
  defines "b' \<equiv> b\<lparr>hb_head := e, hb_nentries := hb_nentries b + 1\<rparr>"
  shows "\<exists>st'. he_add st (Some (hb_head b)) e = (st', e) \<and> binv ops key st' fr (b' # R) \<and>
    bents st' b' = e # bents st b \<and> (\<forall>r \<in> set R. bents st' r = bents st r) \<and>
    same_except (insert e (set (bents st b))) st st'"
proof -
  from inv have ok: "bucket_ok ops key st b" by (simp add: binv_def)
  then obtain xs where xs: "bents st b = hb_head b # xs" "hb_nentries b = Suc (length xs)"
    "linked st None (hb_head b # xs) None"
    and c: "\<And>e. e \<in> set (hb_head b # xs) \<Longrightarrow> op_cmp ops (key e) (key (hb_head b)) = 0"
    and h: "\<And>e. e \<in> set (hb_head b # xs) \<Longrightarrow> op_hval ops (key e) = hb_hval b" by (erule bucket_okD)
  have d: "distinct (hb_head b # xs)" "e \<notin> set (hb_head b # xs)" "{e, hb_head b} \<inter> set (concat (map (bents st) R)) = {}"
    using inv e by (auto simp: binv_def xs(1))
  from he_add_linked [OF xs(3) d(2,1) u] obtain st' where
    a: "he_add st (Some (hb_head b)) e = (st', e)" "linked st' None (e # hb_head b # xs) None"
      "same_except {e, hb_head b} st st'" by blast
  have bn: "bents st' b' = e # hb_head b # xs" using a(2) xs(2) by (intro bentsI) (auto simp: b'_def)
  note fr = binv_frame [OF inv a(3) d(3)]
  have "op_cmp ops (key x) (key e) = 0" if "x \<in> set (hb_head b # xs)" for x
    using cmp_trans [OF c [OF that] k] .
  then have "bucket_ok ops key st' b'"
    unfolding bucket_ok_def bn using a(2) xs(2) h cmp_refl cmp_hval [OF k] by (simp add: b'_def)
  then have "binv ops key st' fr (b' # R)"
    using d e bn xs(1) cmp_sym [OF k] by (intro binv_head [OF inv _ _ _ _ _ _ fr, of b' e]) (auto simp: b'_def)
  with a fr bn xs(1) show ?thesis by (auto simp: same_except_def)
qed

lemma bucket_new:
  assumes inv: "binv ops key st fr R" and e: "e \<notin> set (concat (map (bents st) R))"
    and u: "unlinked st e" and k: "\<And>b. b \<in> set R \<Longrightarrow> op_cmp ops (key (hb_head b)) (key e) \<noteq> 0"
  defines "b' \<equiv> \<lparr>hb_addr = fr, hb_hval = op_hval ops (key e), hb_head = e, hb_nentries = 0 + 1\<rparr>"
  shows "binv ops key st (fr + 1) (b' # R)" and "bents st b' = [e]"
proof -
  show bn: "bents st b' = [e]" by (simp add: b'_def bents_def)
  have "bucket_ok ops key st b'"
    unfolding bucket_ok_def bn using u cmp_refl by (auto simp: b'_def unlinked_def)
  moreover have "op_cmp ops (key e) (key (hb_head b)) \<noteq> 0" if "b \<in> set R" for b
    using k [OF that] cmp_sym by blast
  ultimately show "binv ops key st (fr + 1) (b' # R)"
    using inv e k bn unfolding binv_def by (fastforce simp: b'_def)
qed

end

context htab_keys begin

lemma bucket_del:
  assumes inv: "binv ops key st fr (b # R)" and xs: "bents st b = xs @ e # ys"
  shows "\<exists>st'. he_del st (hb_head b) e = Some (st', hd_or (xs @ ys) None) \<and> unlinked st' e \<and>
    (\<forall>r \<in> set R. bents st' r = bents st r) \<and> same_except (set (bents st b)) st st' \<and>
    (if xs @ ys = [] then binv ops key st' fr R
     else (let b' = b\<lparr>hb_head := hd (xs @ ys), hb_nentries := hb_nentries b - 1\<rparr>
           in binv ops key st' fr (b' # R) \<and> bents st' b' = xs @ ys))"
proof -
  from inv have ok: "bucket_ok ops key st b" by (simp add: binv_def)
  then have ln: "linked st None (xs @ e # ys) None" and n: "hb_nentries b = Suc (length (xs @ ys))"
    by (auto simp: bucket_ok_def xs)
  obtain zs where "bents st b = hb_head b # zs" using bents_head [of b st] n by auto
  then have hd: "hd (xs @ [e]) = hb_head b" unfolding xs by (cases xs) auto
  have d: "distinct (xs @ e # ys)" "set (xs @ e # ys) \<inter> set (concat (map (bents st) R)) = {}"
    using inv by (auto simp: binv_def xs)
  from he_del_linked [OF ln d(1)] obtain st' where
    a: "he_del st (hb_head b) e = Some (st', hd_or (xs @ ys) None)" "linked st' None (xs @ ys) None"
      "unlinked st' e" "same_except (set (xs @ e # ys)) st st'" by (auto simp: hd)
  note fr = binv_frame [OF inv a(4) d(2)]
  have m: "map (bents st') R = map (bents st) R" using fr by simp
  show ?thesis
  proof (cases "xs @ ys")
    case Nil
    have "binv ops key st' fr R" using inv fr unfolding binv_def by (simp add: m)
    with a fr Nil xs show ?thesis by auto
  next
    case (Cons h zs)
    define b' where "b' = b\<lparr>hb_head := h, hb_nentries := hb_nentries b - 1\<rparr>"
    have bn: "bents st' b' = h # zs" using a(2) n Cons by (intro bentsI) (auto simp: b'_def)
    have c: "op_cmp ops (key x) (key (hb_head b)) = 0" "op_hval ops (key x) = hb_hval b"
      if "x \<in> set (h # zs)" for x
      using ok that unfolding bucket_ok_def xs Cons [symmetric] by simp_all
    have h: "op_cmp ops (key h) (key (hb_head b)) = 0" using c by simp
    have "op_cmp ops (key x) (key h) = 0" if "x \<in> set (h # zs)" for x
      using cmp_trans [OF c(1) [OF that] cmp_sym [OF h]] .
    then have "bucket_ok ops key st' b'"
      unfolding bucket_ok_def bn using a(2) n c(2) Cons by (auto simp: b'_def)
    then have "binv ops key st' fr (b' # R)"
      using d bn h unfolding xs Cons [symmetric]
      by (intro binv_head [OF inv _ _ _ _ _ _ fr, of b' e]) (auto simp: b'_def xs)
    with a fr Cons bn xs show ?thesis by (auto simp: b'_def)
  qed
qed

lemma find_bucket_Some:
  "find_bucket ops key c k = Some i \<Longrightarrow> i < length c \<and> op_cmp ops (key (hb_head (c ! i))) k = 0"
  by (induction c arbitrary: i) (auto split: if_splits)

lemma find_bucket_None:
  "find_bucket ops key c k = None \<longleftrightarrow> (\<forall>b \<in> set c. op_cmp ops (key (hb_head b)) k \<noteq> 0)"
  by (induction c) auto

lemma habsB_bucket:
  assumes "binv ops key st fr B" and "b \<in> set B" and "op_cmp ops (key (hb_head b)) k = 0"
  shows "habsB ops key st B k = bents st b"
proof (cases "find (\<lambda>b. op_cmp ops (key (hb_head b)) k = 0) B")
  case None
  with assms show ?thesis by (auto simp: find_None_iff)
next
  case (Some b')
  then have "b' \<in> set B" "op_cmp ops (key (hb_head b')) k = 0" by (auto simp: find_Some_iff)
  with assms cmp_trans cmp_sym have "b' = b" unfolding binv_def by blast
  with Some show ?thesis by (simp add: habsB_def)
qed

lemma habsB_none:
  "(\<And>b. b \<in> set B \<Longrightarrow> op_cmp ops (key (hb_head b)) k \<noteq> 0) \<Longrightarrow> habsB ops key st B k = []"
  unfolding habsB_def by (auto simp: find_Some_iff split: option.splits)

lemma habsB_perm:
  assumes "binv ops key st fr B" and "mset B = mset B'"
  shows "habsB ops key st B k = habsB ops key st B' k"
proof (cases "\<exists>b \<in> set B. op_cmp ops (key (hb_head b)) k = 0")
  case True
  then obtain b where b: "b \<in> set B" "op_cmp ops (key (hb_head b)) k = 0" by blast
  moreover have "b \<in> set B'" using b(1) mset_eq_setD [OF assms(2)] by simp
  moreover have "binv ops key st fr B'" using assms binv_perm by metis
  ultimately show ?thesis using habsB_bucket assms(1) by metis
next
  case False
  then show ?thesis using mset_eq_setD [OF assms(2)] habsB_none [of B key k st] habsB_none [of B' key k st] by auto
qed

lemma habsB_Cons:
  "habsB ops key st (b # R) k =
     (if op_cmp ops (key (hb_head b)) k = 0 then bents st b else habsB ops key st R k)"
  by (simp add: habsB_def)

lemma habsB_cong:
  "(\<And>r. r \<in> set R \<Longrightarrow> bents st' r = bents st r) \<Longrightarrow> habsB ops key st' R k = habsB ops key st R k"
proof (induction R)
  case Nil
  then show ?case by (simp add: habsB_def)
next
  case (Cons b R)
  then show ?case by (simp add: habsB_Cons)
qed

end

lemma ht_idx_less: "htab_shape h \<Longrightarrow> ht_idx (ht_mask h) v < ht_size h"
proof -
  assume "htab_shape h"
  then obtain n where n: "ht_size h = 2 ^ n" "ht_mask h = 2 ^ n - 1" by (auto simp: htab_shape_def)
  have "ht_idx (ht_mask h) v = take_bit n (unat v)"
    by (simp add: ht_idx_def n take_bit_eq_mask mask_eq_exp_minus_1)
  with n show ?thesis by simp
qed

lemma bucket_slot:
  assumes "htab_shape h" and "b \<in> set (buckets h)"
  shows "b \<in> set (ht_tab h ! ht_idx (ht_mask h) (hb_hval b))"
proof -
  from assms(2) obtain c where "c \<in> set (ht_tab h)" "b \<in> set c" by (auto simp: buckets_def)
  then obtain i where "i < length (ht_tab h)" "b \<in> set (ht_tab h ! i)" by (metis in_set_conv_nth)
  with assms(1) show ?thesis by (auto simp: htab_shape_def)
qed

lemma slot_bucket:
  "htab_shape h \<Longrightarrow> i < ht_size h \<Longrightarrow> set (ht_tab h ! i) \<subseteq> set (buckets h)"
proof -
  assume "htab_shape h" "i < ht_size h"
  then have "ht_tab h ! i \<in> set (ht_tab h)" by (simp add: htab_shape_def)
  then show ?thesis by (auto simp: buckets_def)
qed

lemma concat_update:
  assumes "i < length tab" and "tab ! i = X @ ys @ Y"
  shows "\<exists>P Q. concat tab = P @ ys @ Q \<and> (\<forall>zs. concat (tab[i := X @ zs @ Y]) = P @ zs @ Q)"
proof -
  have "tab = take i tab @ (X @ ys @ Y) # drop (Suc i) tab" using assms by (metis id_take_nth_drop)
  moreover have "tab[i := X @ zs @ Y] = take i tab @ (X @ zs @ Y) # drop (Suc i) tab" for zs
    using assms(1) by (rule upd_conv_take_nth_drop)
  ultimately have "concat tab = (concat (take i tab) @ X) @ ys @ (Y @ concat (drop (Suc i) tab)) \<and>
    (\<forall>zs. concat (tab[i := X @ zs @ Y]) = (concat (take i tab) @ X) @ zs @ (Y @ concat (drop (Suc i) tab)))"
    by (metis append_assoc concat.simps(2) concat_append)
  then show ?thesis by blast
qed

lemma mset_rehash:
  "(\<And>b. b \<in> set bs \<Longrightarrow> ht_idx m (hb_hval b) < length ntab) \<Longrightarrow>
   mset (concat (rehash m ntab bs)) = mset (concat ntab) + mset bs \<and> length (rehash m ntab bs) = length ntab"
proof (induction bs arbitrary: ntab)
  case (Cons b bs)
  let ?i = "ht_idx m (hb_hval b)"
  from Cons.prems have i: "?i < length ntab" by simp
  from concat_update [of ?i ntab "[]" "[]" "ntab ! ?i"] i obtain P Q where
    "concat ntab = P @ [] @ Q" "\<forall>zs. concat (ntab[?i := [] @ zs @ ntab ! ?i]) = P @ zs @ Q" by auto
  then have "concat ntab = P @ Q" "concat (ntab[?i := b # ntab ! ?i]) = P @ b # Q"
    by (auto dest: spec [of _ "[b]"])
  with Cons.IH [of "ntab[?i := b # ntab ! ?i]"] Cons.prems show ?case by (simp add: Let_def)
qed simp

lemma rehash_slots:
  "(\<And>b. b \<in> set bs \<Longrightarrow> ht_idx m (hb_hval b) < length ntab) \<Longrightarrow>
   (\<And>i b. i < length ntab \<Longrightarrow> b \<in> set (ntab ! i) \<Longrightarrow> ht_idx m (hb_hval b) = i) \<Longrightarrow>
   i < length ntab \<Longrightarrow> b \<in> set (rehash m ntab bs ! i) \<Longrightarrow> ht_idx m (hb_hval b) = i"
proof (induction bs arbitrary: ntab)
  case (Cons a bs)
  let ?j = "ht_idx m (hb_hval a)"
  show ?case
  proof (rule Cons.IH [of "ntab[?j := a # ntab ! ?j]"])
    fix i b assume "i < length (ntab[?j := a # ntab ! ?j])" "b \<in> set (ntab[?j := a # ntab ! ?j] ! i)"
    with Cons.prems show "ht_idx m (hb_hval b) = i" by (cases "i = ?j") auto
  qed (use Cons.prems in \<open>auto simp: Let_def\<close>)
qed simp

lemma foldl_rehash:
  assumes "\<And>v. ht_idx m v < N"
  shows "length ntab = N \<Longrightarrow> (\<And>i b. i < N \<Longrightarrow> b \<in> set (ntab ! i) \<Longrightarrow> ht_idx m (hb_hval b) = i) \<Longrightarrow>
     length (foldl (rehash m) ntab cs) = N \<and>
     mset (concat (foldl (rehash m) ntab cs)) = mset (concat ntab) + mset (concat cs) \<and>
     (\<forall>i < N. \<forall>b \<in> set (foldl (rehash m) ntab cs ! i). ht_idx m (hb_hval b) = i)"
proof (induction cs arbitrary: ntab)
  case (Cons c cs)
  have r: "mset (concat (rehash m ntab c)) = mset (concat ntab) + mset c" "length (rehash m ntab c) = N"
    using mset_rehash [of c m ntab] assms Cons.prems(1) by auto
  have "ht_idx m (hb_hval b) = i" if "i < N" "b \<in> set (rehash m ntab c ! i)" for i b
    using rehash_slots [of c m ntab i b] assms Cons.prems that by auto
  from Cons.IH [OF r(2) this] r show ?case by (simp add: union_assoc)
qed auto

lemma resize_ok:
  assumes inv: "htab_inv ops key st h" and r: "resize h al = (err, h', al')"
  shows "htab_inv ops key st h' \<and> (err = 0 \<longrightarrow> ht_size h' = 2 * ht_size h) \<and>
    (err \<noteq> 0 \<longrightarrow> err = - ENOMEM \<and> h' = h) \<and> mset (buckets h') = mset (buckets h) \<and>
    ht_nbuckets h' = ht_nbuckets h"
proof (cases "fst (alloc_ok al) \<and> \<not> 2 * ht_size h \<ge> 2 ^ 31")
  case False
  with r inv show ?thesis by (auto simp: resize_def Let_def ENOMEM_def split: prod.splits)
next
  case True
  from inv obtain n where n: "ht_size h = 2 ^ n" by (auto simp: htab_inv_def htab_shape_def)
  define N m where "N = 2 * ht_size h" and "m = N - 1"
  define t where "t = foldl (rehash m) (replicate N []) (ht_tab h)"
  have N: "N = 2 ^ Suc n" by (simp add: N_def n)
  have idx: "ht_idx m v < N" for v
  proof -
    have "ht_idx m v = take_bit (Suc n) (unat v)"
      by (simp add: ht_idx_def m_def N take_bit_eq_mask mask_eq_exp_minus_1 del: take_bit_Suc power_Suc)
    then show ?thesis unfolding N by (metis take_bit_nat_less_exp)
  qed
  from foldl_rehash [of m N "replicate N []" "ht_tab h", OF idx]
  have t: "length t = N" "mset (concat t) = mset (buckets h)"
    "\<forall>i < N. \<forall>b \<in> set (t ! i). ht_idx m (hb_hval b) = i"
    by (simp_all add: buckets_def t_def concat_replicate_trivial)
  from True r have h': "h' = h\<lparr>ht_tab := t, ht_size := N, ht_mask := m\<rparr>" "err = 0"
    by (auto simp: resize_def Let_def t_def N_def m_def split: prod.splits)
  have B: "buckets h' = concat t" by (simp add: h' buckets_def)
  have "mset (ht_ents st h') = mset (ht_ents st h)"
    unfolding ht_ents_def B using t(2) by (metis mset_concat mset_map sum_mset_sum_list)
  from mset_eq_length [OF this] have "length (ht_ents st h') = length (ht_ents st h)" .
  moreover have "length (buckets h') = length (buckets h)" using mset_eq_length [OF t(2)] by (simp add: B)
  moreover have "binv ops key st (ht_fresh h') (buckets h')"
    using inv binv_perm [OF t(2), of ops key st "ht_fresh h"] unfolding B by (simp add: htab_inv_def h')
  moreover have "\<exists>k. N = 2 ^ k" using N by blast
  then have "htab_shape h'" using t unfolding htab_shape_def by (simp add: h' m_def)
  ultimately show ?thesis using inv t(2) unfolding htab_inv_def B by (simp add: h' N_def)
qed

text \<open>What one operation may change: the table gains or loses one entry under its key.\<close>

definition htab_added ::
  "'k htab_ops \<Rightarrow> (nat \<Rightarrow> 'k) \<Rightarrow> lstore \<Rightarrow> htab \<Rightarrow> nat \<Rightarrow> lstore \<Rightarrow> htab \<Rightarrow> bool" where
  "htab_added ops key st h e st' h' \<longleftrightarrow>
     htab_inv ops key st' h' \<and>
     (\<forall>k. habs ops key st' h' k =
        (if op_cmp ops (key e) k = 0 then e # habs ops key st h k else habs ops key st h k)) \<and>
     set (ht_ents st' h') = insert e (set (ht_ents st h)) \<and>
     same_except (insert e (set (ht_ents st h))) st st'"

definition htab_removed ::
  "'k htab_ops \<Rightarrow> (nat \<Rightarrow> 'k) \<Rightarrow> lstore \<Rightarrow> htab \<Rightarrow> nat \<Rightarrow> lstore \<Rightarrow> htab \<Rightarrow> bool" where
  "htab_removed ops key st h e st' h' \<longleftrightarrow>
     htab_inv ops key st' h' \<and>
     (\<forall>k. habs ops key st' h' k =
        (if op_cmp ops (key e) k = 0 then remove1 e (habs ops key st h k) else habs ops key st h k)) \<and>
     set (ht_ents st' h') = set (ht_ents st h) - {e} \<and> unlinked st' e \<and>
     same_except (set (ht_ents st h)) st st'"

lemma shape_update:
  assumes "htab_shape h" and "i < ht_size h" and "\<And>b. b \<in> set c' \<Longrightarrow> ht_idx (ht_mask h) (hb_hval b) = i"
  shows "htab_shape (h\<lparr>ht_tab := (ht_tab h)[i := c']\<rparr>)"
  using assms by (auto simp: htab_shape_def nth_list_update)

lemma shape_fields [simp]:
  "htab_shape (h\<lparr>ht_nentries := n\<rparr>) = htab_shape h" "htab_shape (h\<lparr>ht_nbuckets := n\<rparr>) = htab_shape h"
  "htab_shape (h\<lparr>ht_fresh := n\<rparr>) = htab_shape h"
  "htab_shape (h\<lparr>ht_nentries := n, ht_tab := t\<rparr>) = htab_shape (h\<lparr>ht_tab := t\<rparr>)"
  by (simp_all add: htab_shape_def)

lemma shape_set_bucket:
  assumes sh: "htab_shape h" and idx: "idx < ht_size h" and i: "i < length (ht_tab h ! idx)"
    and b': "hb_hval b' = hb_hval (ht_tab h ! idx ! i)"
  shows "htab_shape (h\<lparr>ht_tab := (ht_tab h)[idx := (ht_tab h ! idx)[i := b']]\<rparr>)"
proof (rule shape_update [OF sh idx])
  have s: "\<And>c. c \<in> set (ht_tab h ! idx) \<Longrightarrow> ht_idx (ht_mask h) (hb_hval c) = idx"
    using sh idx unfolding htab_shape_def by blast
  fix b assume "b \<in> set ((ht_tab h ! idx)[i := b'])"
  then have "b \<in> insert b' (set (ht_tab h ! idx))" using set_update_subset_insert by fastforce
  with s b' nth_mem [OF i] show "ht_idx (ht_mask h) (hb_hval b) = idx" by auto
qed

context htab_keys begin

lemma find_slot:
  fixes k
  assumes inv: "htab_inv ops key st h"
  defines "idx \<equiv> ht_idx (ht_mask h) (op_hval ops k)"
  shows "idx < length (ht_tab h)" "idx < ht_size h"
    and "find_bucket ops key (ht_tab h ! idx) k = None \<Longrightarrow> b \<in> set (buckets h) \<Longrightarrow>
           op_cmp ops (key (hb_head b)) k \<noteq> 0"
    and "find_bucket ops key (ht_tab h ! idx) k = Some i \<Longrightarrow>
           i < length (ht_tab h ! idx) \<and> ht_tab h ! idx ! i \<in> set (buckets h) \<and>
           op_cmp ops (key (hb_head (ht_tab h ! idx ! i))) k = 0"
proof -
  from inv have sh: "htab_shape h" by (simp add: htab_inv_def)
  show i: "idx < ht_size h" unfolding idx_def by (rule ht_idx_less [OF sh])
  then show "idx < length (ht_tab h)" using sh by (simp add: htab_shape_def)
  { assume n: "find_bucket ops key (ht_tab h ! idx) k = None" and b: "b \<in> set (buckets h)"
    show "op_cmp ops (key (hb_head b)) k \<noteq> 0"
    proof
      assume m: "op_cmp ops (key (hb_head b)) k = 0"
      have "bucket_ok ops key st b" using inv b by (auto simp: htab_inv_def binv_def)
      then have "hb_hval b = op_hval ops k"
        using cmp_hval [OF m] by (elim bucket_okD) force
      with bucket_slot [OF sh b] have "b \<in> set (ht_tab h ! idx)" by (simp add: idx_def)
      with n m show False by (auto simp: find_bucket_None)
    qed }
  assume "find_bucket ops key (ht_tab h ! idx) k = Some i"
  from find_bucket_Some [OF this] slot_bucket [OF sh i]
  show "i < length (ht_tab h ! idx) \<and> ht_tab h ! idx ! i \<in> set (buckets h) \<and>
           op_cmp ops (key (hb_head (ht_tab h ! idx ! i))) k = 0" by (auto dest: nth_mem)
qed

lemma lookup_eq:
  assumes inv: "htab_inv ops key st h"
  shows "dt_htab_lookup ops key h k =
    (case habs ops key st h k of [] \<Rightarrow> None | e # es \<Rightarrow> Some e)"
proof -
  let ?c = "ht_tab h ! ht_idx (ht_mask h) (op_hval ops k)"
  show ?thesis
  proof (cases "find_bucket ops key ?c k")
    case None
    then have "habs ops key st h k = []"
      using find_slot(3) [OF inv] by (auto simp: habs_def intro!: habsB_none)
    with None show ?thesis by (simp add: dt_htab_lookup_def)
  next
    case (Some i)
    from find_slot(4) [OF inv Some] have b: "?c ! i \<in> set (buckets h)" "op_cmp ops (key (hb_head (?c ! i))) k = 0" by auto
    from inv have "binv ops key st (ht_fresh h) (buckets h)" by (simp add: htab_inv_def)
    moreover from this b have "bucket_ok ops key st (?c ! i)" by (auto simp: binv_def)
    ultimately show ?thesis
      using habsB_bucket [of key st "ht_fresh h" "buckets h" "?c ! i" k] b Some
      by (elim bucket_okD) (simp add: dt_htab_lookup_def habs_def)
  qed
qed

text \<open>The buckets with one of them put first.\<close>

lemma replace_bucket:
  assumes inv: "htab_inv ops key st h" and idx: "idx < ht_size h" and i: "i < length (ht_tab h ! idx)"
  defines "b \<equiv> ht_tab h ! idx ! i"
  shows "\<exists>R. mset (buckets h) = mset (b # R) \<and>
    (\<forall>b'. mset (concat ((ht_tab h)[idx := (ht_tab h ! idx)[i := b']])) = mset (b' # R)) \<and>
    mset (concat ((ht_tab h)[idx := take i (ht_tab h ! idx) @ drop (Suc i) (ht_tab h ! idx)])) = mset R"
proof -
  let ?c = "ht_tab h ! idx"
  from inv idx have l: "idx < length (ht_tab h)" by (simp add: htab_inv_def htab_shape_def)
  have c: "?c = take i ?c @ [b] @ drop (Suc i) ?c" using id_take_nth_drop [OF i] by (simp add: b_def)
  have u: "?c[i := b'] = take i ?c @ [b'] @ drop (Suc i) ?c" for b'
    using upd_conv_take_nth_drop [OF i] by simp
  from concat_update [OF l c] obtain P Q where
    pq: "concat (ht_tab h) = P @ [b] @ Q"
    "\<forall>zs. concat ((ht_tab h)[idx := take i ?c @ zs @ drop (Suc i) ?c]) = P @ zs @ Q" by blast
  have nil: "concat ((ht_tab h)[idx := take i ?c @ drop (Suc i) ?c]) = P @ Q"
    using pq(2) [rule_format, of "[]"] by simp
  have one: "concat ((ht_tab h)[idx := take i ?c @ [b'] @ drop (Suc i) ?c]) = P @ [b'] @ Q" for b'
    using pq(2) by blast
  show ?thesis unfolding u buckets_def one nil pq(1) by (intro exI [of _ "P @ Q"]) simp
qed

lemma length_ents: "length (ht_ents st h) = sum_list (map (\<lambda>b. length (bents st b)) (buckets h))"
  by (simp add: ht_ents_def length_concat comp_def)

lemma length_ents_perm:
  "mset (buckets h) = mset B \<Longrightarrow> length (ht_ents st h) = length (concat (map (bents st) B))"
  by (simp add: length_ents length_concat comp_def flip: sum_mset_sum_list)

lemma set_ents_perm:
  "mset (buckets h) = mset B \<Longrightarrow> set (ht_ents st h) = set (concat (map (bents st) B))"
  by (auto simp: ht_ents_def dest: mset_eq_setD)

lemma insert_existing:
  assumes inv: "htab_inv ops key st h" and e: "e \<notin> set (ht_ents st h)" and u: "unlinked st e"
    and f: "find_bucket ops key (ht_tab h ! idx) (key e) = Some i"
    and idx: "idx = ht_idx (ht_mask h) (op_hval ops (key e))"
  defines "b \<equiv> ht_tab h ! idx ! i"
  shows "\<exists>st'. he_add st (Some (hb_head b)) e = (st', e) \<and>
    (let b' = b\<lparr>hb_head := e, hb_nentries := hb_nentries b + 1\<rparr>;
         h' = h\<lparr>ht_tab := (ht_tab h)[idx := (ht_tab h ! idx)[i := b']], ht_nentries := ht_nentries h + 1\<rparr>
     in htab_added ops key st h e st' h')"
proof -
  have i: "idx < ht_size h" "i < length (ht_tab h ! idx)" "b \<in> set (buckets h)"
    "op_cmp ops (key (hb_head b)) (key e) = 0"
    using find_slot(2,4) [OF inv, of "key e"] f unfolding idx b_def by auto
  from replace_bucket [OF inv i(1,2)] obtain R where
    R: "mset (buckets h) = mset (b # R)"
      "\<And>b'. mset (concat ((ht_tab h)[idx := (ht_tab h ! idx)[i := b']])) = mset (b' # R)"
    unfolding b_def by blast
  from inv have bi: "binv ops key st (ht_fresh h) (buckets h)" and sh: "htab_shape h" by (simp_all add: htab_inv_def)
  have bR: "binv ops key st (ht_fresh h) (b # R)" using bi binv_perm [OF R(1)] by blast
  have eR: "e \<notin> set (concat (map (bents st) (b # R)))" using e set_ents_perm [OF R(1)] by simp
  define b' where "b' = b\<lparr>hb_head := e, hb_nentries := hb_nentries b + 1\<rparr>"
  from bucket_add [OF bR eR u i(4)] obtain st' where
    a: "he_add st (Some (hb_head b)) e = (st', e)" "binv ops key st' (ht_fresh h) (b' # R)"
      "bents st' b' = e # bents st b" "\<forall>r \<in> set R. bents st' r = bents st r"
      "same_except (insert e (set (bents st b))) st st'" unfolding b'_def by blast
  define h' where "h' = h\<lparr>ht_tab := (ht_tab h)[idx := (ht_tab h ! idx)[i := b']], ht_nentries := ht_nentries h + 1\<rparr>"
  have B': "mset (buckets h') = mset (b' # R)" using R(2) [of b'] by (simp add: h'_def buckets_def)
  have bi': "binv ops key st' (ht_fresh h) (buckets h')" using a(2) binv_perm [OF B'] by blast
  have m: "map (bents st') R = map (bents st) R" using a(4) by simp
  have "htab_shape (h\<lparr>ht_tab := (ht_tab h)[idx := (ht_tab h ! idx)[i := b']]\<rparr>)"
    using i by (intro shape_set_bucket [OF sh]) (simp_all add: b'_def b_def)
  then have "htab_shape h'" by (simp add: h'_def)
  moreover have "length (ht_ents st' h') = Suc (length (ht_ents st h))"
    unfolding length_ents_perm [OF B'] length_ents_perm [OF R(1)] by (simp add: m a(3))
  moreover have "length (buckets h') = length (buckets h)" using mset_eq_length [OF R(1)] mset_eq_length [OF B'] by simp
  ultimately have "htab_inv ops key st' h'" using inv bi' by (simp add: htab_inv_def h'_def)
  moreover have "habs ops key st' h' k = (if op_cmp ops (key e) k = 0 then e # habs ops key st h k else habs ops key st h k)" for k
  proof -
    have "op_cmp ops (key (hb_head b)) k = 0 \<longleftrightarrow> op_cmp ops (key e) k = 0"
      using i(4) cmp_trans cmp_sym by blast
    then show ?thesis
      unfolding habs_def habsB_perm [OF bi' B'] habsB_perm [OF bi R(1)] habsB_Cons
      using habsB_cong [of R st' st key k] a(3,4) by (simp add: b'_def)
  qed
  moreover have "set (ht_ents st' h') = insert e (set (ht_ents st h))"
    unfolding set_ents_perm [OF B'] set_ents_perm [OF R(1)] using a(3,4) by auto
  moreover have "same_except (insert e (set (ht_ents st h))) st st'"
    using a(5) i(3) by (auto simp: same_except_def ht_ents_def)
  ultimately have "htab_added ops key st h e st' h'" by (simp add: htab_added_def)
  with a(1) show ?thesis by (simp add: h'_def b'_def)
qed

lemma insert_new:
  assumes inv: "htab_inv ops key st h" and e: "e \<notin> set (ht_ents st h)" and u: "unlinked st e"
    and f: "find_bucket ops key (ht_tab h ! idx) (key e) = None"
    and idx: "idx = ht_idx (ht_mask h) (op_hval ops (key e))"
    and load: "\<not> ht_nbuckets h div 2 > ht_size h"
  defines "b' \<equiv> \<lparr>hb_addr = ht_fresh h, hb_hval = op_hval ops (key e), hb_head = e, hb_nentries = 0 + 1\<rparr>"
  shows "htab_added ops key st h e st
    (h\<lparr>ht_tab := (ht_tab h)[idx := b' # ht_tab h ! idx], ht_nbuckets := ht_nbuckets h + 1,
       ht_nentries := ht_nentries h + 1, ht_fresh := ht_fresh h + 1\<rparr>)" (is "htab_added _ _ _ _ _ _ ?h'")
proof -
  have i: "idx < ht_size h" "idx < length (ht_tab h)"
    and nm: "\<And>b. b \<in> set (buckets h) \<Longrightarrow> op_cmp ops (key (hb_head b)) (key e) \<noteq> 0"
    using find_slot(1,2,3) [OF inv, of "key e"] f unfolding idx by auto
  from inv have bi: "binv ops key st (ht_fresh h) (buckets h)" and sh: "htab_shape h" by (simp_all add: htab_inv_def)
  from concat_update [OF i(2), of "[]" "[]"] obtain P Q where
    pq: "concat (ht_tab h) = P @ Q" "\<forall>zs. concat ((ht_tab h)[idx := zs @ ht_tab h ! idx]) = P @ zs @ Q" by auto
  have B': "mset (buckets ?h') = mset (b' # buckets h)"
    using pq(2) [rule_format, of "[b']"] pq(1) by (simp add: buckets_def)
  from bucket_new [OF bi _ u nm] e
  have n: "binv ops key st (ht_fresh h + 1) (b' # buckets h)" "bents st b' = [e]"
    by (simp_all add: ht_ents_def b'_def)
  have bi': "binv ops key st (ht_fresh h + 1) (buckets ?h')" using n(1) binv_perm [OF B'] by blast
  have "htab_shape (h\<lparr>ht_tab := (ht_tab h)[idx := b' # ht_tab h ! idx]\<rparr>)"
  proof (rule shape_update [OF sh i(1)])
    fix b assume "b \<in> set (b' # ht_tab h ! idx)"
    with sh i idx show "ht_idx (ht_mask h) (hb_hval b) = idx"
      unfolding htab_shape_def by (auto simp: b'_def)
  qed
  then have "htab_shape ?h'" by simp
  moreover have "length (ht_ents st ?h') = Suc (length (ht_ents st h))"
    unfolding length_ents_perm [OF B'] by (simp add: ht_ents_def n(2))
  moreover have "length (buckets ?h') = Suc (length (buckets h))" using mset_eq_length [OF B'] by simp
  ultimately have "htab_inv ops key st ?h'" using inv bi' load by (simp add: htab_inv_def)
  moreover have "habs ops key st ?h' k = (if op_cmp ops (key e) k = 0 then e # habs ops key st h k else habs ops key st h k)" for k
  proof -
    have "habs ops key st h k = []" if "op_cmp ops (key e) k = 0"
      unfolding habs_def using nm cmp_trans [OF _ cmp_sym [OF that]] by (intro habsB_none) blast
    then show ?thesis
      unfolding habs_def habsB_perm [OF bi' B'] habsB_Cons n(2) by (simp add: b'_def habs_def)
  qed
  moreover have "set (ht_ents st ?h') = insert e (set (ht_ents st h))"
    unfolding set_ents_perm [OF B'] by (simp add: ht_ents_def n(2))
  ultimately show ?thesis by (simp add: htab_added_def same_except_def)
qed
end

definition htab_same ::
  "'k htab_ops \<Rightarrow> (nat \<Rightarrow> 'k) \<Rightarrow> lstore \<Rightarrow> htab \<Rightarrow> htab \<Rightarrow> bool" where
  "htab_same ops key st h h' \<longleftrightarrow>
     htab_inv ops key st h' \<and> (\<forall>k. habs ops key st h' k = habs ops key st h k) \<and>
     set (ht_ents st h') = set (ht_ents st h)"

definition insert_post ::
  "'k htab_ops \<Rightarrow> (nat \<Rightarrow> 'k) \<Rightarrow> lstore \<Rightarrow> htab \<Rightarrow> nat \<Rightarrow> (int \<times> lstore \<times> htab \<times> alloc) option \<Rightarrow> bool" where
  "insert_post ops key st h e r \<longleftrightarrow>
     (case r of
        None \<Rightarrow> False
      | Some (ret, st', h', al') \<Rightarrow>
          if ret = 0 then htab_added ops key st h e st' h'
          else ret = - ENOMEM \<and> st' = st \<and> htab_same ops key st h h')"

context htab_keys begin

lemma insert_loop_existing:
  assumes inv: "htab_inv ops key st h" and e: "e \<notin> set (ht_ents st h)" and u: "unlinked st e"
    and f: "find_bucket ops key (ht_tab h ! ht_idx (ht_mask h) (op_hval ops (key e))) (key e) = Some i"
  shows "insert_post ops key st h e (dt_htab_insert_loop ops key (op_hval ops (key e)) e st h al)"
  using insert_existing [OF inv e u f refl] find_slot(1) [OF inv, of "key e"] f
  by (subst dt_htab_insert_loop.simps) (auto simp: Let_def insert_post_def)

lemma insert_loop_new:
  assumes inv: "htab_inv ops key st h" and e: "e \<notin> set (ht_ents st h)" and u: "unlinked st e"
    and load: "\<not> ht_nbuckets h div 2 > ht_size h"
    and f: "find_bucket ops key (ht_tab h ! ht_idx (ht_mask h) (op_hval ops (key e))) (key e) = None"
  shows "insert_post ops key st h e (dt_htab_insert_loop ops key (op_hval ops (key e)) e st h al)"
proof (cases "alloc_ok al")
  case (Pair ok al')
  show ?thesis
    using insert_new [OF inv e u f refl load] find_slot(1) [OF inv, of "key e"] f load Pair inv
    by (subst dt_htab_insert_loop.simps)
      (auto simp: Let_def insert_post_def he_add_def htab_same_def ENOMEM_def)
qed

lemma insert_loop_ok:
  assumes inv: "htab_inv ops key st h" and e: "e \<notin> set (ht_ents st h)" and u: "unlinked st e"
  shows "insert_post ops key st h e (dt_htab_insert_loop ops key (op_hval ops (key e)) e st h al)"
proof (cases "find_bucket ops key (ht_tab h ! ht_idx (ht_mask h) (op_hval ops (key e))) (key e)")
  case (Some i)
  show ?thesis by (rule insert_loop_existing [OF inv e u Some])
next
  case f: None
  show ?thesis
  proof (cases "ht_nbuckets h div 2 > ht_size h")
    case False
    show ?thesis by (rule insert_loop_new [OF inv e u False f])
  next
    case True
    obtain err h1 al1 where r: "resize h al = (err, h1, al1)" by (cases "resize h al") auto
    note ro = resize_ok [OF inv r]
    have st: "dt_htab_insert_loop ops key (op_hval ops (key e)) e st h al =
       (if err \<noteq> 0 then Some (err, st, h1, al1)
        else dt_htab_insert_loop ops key (op_hval ops (key e)) e st h1 al1)"
      using f True r find_slot(1) [OF inv, of "key e"]
      by (subst dt_htab_insert_loop.simps) (simp add: Let_def)
    have B: "mset (buckets h1) = mset (buckets h)" using ro by blast
    have bi: "binv ops key st (ht_fresh h1) (buckets h1)" using ro by (simp add: htab_inv_def)
    have same: "htab_same ops key st h h1"
      using ro habsB_perm [OF bi B] set_ents_perm [OF B]
      by (auto simp: htab_same_def habs_def ht_ents_def)
    show ?thesis
    proof (cases "err = 0")
      case False
      with st ro same show ?thesis by (simp add: insert_post_def)
    next
      case ok: True
      have inv1: "htab_inv ops key st h1" and e1: "e \<notin> set (ht_ents st h1)"
        using ro same e by (simp_all add: htab_same_def)
      have "find_bucket ops key (ht_tab h1 ! ht_idx (ht_mask h1) (op_hval ops (key e))) (key e) = None"
        using find_slot(4) [OF inv1] find_slot(3) [OF inv f] mset_eq_setD [OF B]
        by (metis option.exhaust)
      moreover have "\<not> ht_nbuckets h1 div 2 > ht_size h1"
      proof -
        have "ht_nbuckets h \<le> 2 * ht_size h + 2" "ht_size h > 0"
          using inv by (auto simp: htab_inv_def htab_shape_def)
        with ro ok show ?thesis by auto
      qed
      ultimately have "insert_post ops key st h1 e
          (dt_htab_insert_loop ops key (op_hval ops (key e)) e st h1 al1)"
        by (intro insert_loop_new [OF inv1 e1 u])
      with st ok same show ?thesis
        by (auto simp: insert_post_def htab_same_def htab_added_def split: option.splits if_splits)
    qed
  qed
qed

lemma insert_ok:
  assumes "htab_inv ops key st h" and "e \<notin> set (ht_ents st h)" and "unlinked st e"
  shows "insert_post ops key st h e (dt_htab_insert ops key st h al e)"
  unfolding dt_htab_insert_def by (rule insert_loop_ok [OF assms])

lemma delete_absent:
  assumes inv: "htab_inv ops key st h" and k: "habs ops key st h (key e) = []"
  shows "dt_htab_delete ops key st h e = Some (- ENOENT, st, h, [])"
proof -
  have "dt_htab_lookup ops key h (key e) = None" using lookup_eq [OF inv] k by simp
  then show ?thesis by (auto simp: dt_htab_lookup_def dt_htab_delete_def Let_def)
qed

lemma removed_intro:
  assumes inv: "htab_inv ops key st h" and R: "mset (buckets h) = mset (b # R)"
    and xs: "bents st b = xs @ e # ys" "e \<notin> set xs" and k: "op_cmp ops (key (hb_head b)) (key e) = 0"
    and bR: "\<forall>r \<in> set R. bents st' r = bents st r" and u: "unlinked st' e"
    and se: "same_except (set (bents st b)) st st'"
    and B1: "mset (buckets h') = mset B1" "binv ops key st' (ht_fresh h) B1"
      "B1 = (if xs @ ys = [] then R else b' # R)"
      "xs @ ys \<noteq> [] \<Longrightarrow> bents st' b' = xs @ ys \<and> hb_head b' = hd (xs @ ys)"
    and h': "htab_shape h'" "ht_fresh h' = ht_fresh h" "ht_size h' = ht_size h"
      "ht_nentries h' = ht_nentries h - 1" "ht_nbuckets h' = (if xs @ ys = [] then ht_nbuckets h - 1 else ht_nbuckets h)"
  shows "htab_removed ops key st h e st' h'"
proof -
  from inv have bi: "binv ops key st (ht_fresh h) (buckets h)" by (simp add: htab_inv_def)
  then have bR0: "binv ops key st (ht_fresh h) (b # R)" using binv_perm [OF R] by blast
  have bi': "binv ops key st' (ht_fresh h) (buckets h')" using B1(2) binv_perm [OF B1(1)] by blast
  have m: "map (bents st') R = map (bents st) R" using bR by simp
  have c1: "concat (map (bents st') B1) = (xs @ ys) @ concat (map (bents st) R)"
    using B1(3,4) by (auto simp: m)
  have d: "e \<notin> set ys" "e \<notin> set (concat (map (bents st) R))" using bR0 xs by (auto simp: binv_def)
  have ee: "set (ht_ents st' h') = set (ht_ents st h) - {e}"
    unfolding set_ents_perm [OF B1(1)] set_ents_perm [OF R] c1 using xs d by auto
  have "length (ht_ents st' h') = length (ht_ents st h) - 1"
    unfolding length_ents_perm [OF B1(1)] length_ents_perm [OF R] c1 by (simp add: xs)
  moreover have "length (buckets h') = (if xs @ ys = [] then length (buckets h) - 1 else length (buckets h))"
    using mset_eq_length [OF R] mset_eq_length [OF B1(1)] B1(3) by auto
  ultimately have "htab_inv ops key st' h'"
    using inv bi' h' unfolding htab_inv_def by (auto split: if_splits)
  moreover have "habs ops key st' h' k =
     (if op_cmp ops (key e) k = 0 then remove1 e (habs ops key st h k) else habs ops key st h k)" for k
  proof -
    have be: "op_cmp ops (key (hb_head b)) k = 0 \<longleftrightarrow> op_cmp ops (key e) k = 0"
      using k cmp_trans cmp_sym by blast
    have h0: "habs ops key st h k = (if op_cmp ops (key e) k = 0 then xs @ e # ys else habsB ops key st R k)"
      unfolding habs_def habsB_perm [OF bi R] habsB_Cons be xs(1) ..
    have rm: "remove1 e (xs @ e # ys) = xs @ ys" using xs(2) by (simp add: remove1_append)
    have Rn: "habsB ops key st R k = []" if "op_cmp ops (key e) k = 0"
    proof (rule habsB_none)
      fix r assume r: "r \<in> set R"
      with bR0 have "r \<noteq> b" by (auto simp: binv_def)
      with bR0 r have "op_cmp ops (key (hb_head b)) (key (hb_head r)) \<noteq> 0" by (auto simp: binv_def)
      then show "op_cmp ops (key (hb_head r)) k \<noteq> 0"
        using that be cmp_trans cmp_sym by blast
    qed
    have hR: "habsB ops key st' R k = habsB ops key st R k" using bR by (intro habsB_cong) blast
    show ?thesis
    proof (cases "xs @ ys = []")
      case True
      then show ?thesis using B1(3) Rn
        unfolding h0 unfolding habs_def habsB_perm [OF bi' B1(1)] by (simp add: hR rm)
    next
      case False
      have "hd (xs @ ys) \<in> set (bents st b)" unfolding xs(1) using False by (metis Un_iff hd_in_set set_append list.set_intros(2))
      moreover have "bucket_ok ops key st b" using bR0 by (simp add: binv_def)
      ultimately have "op_cmp ops (key (hb_head b')) (key (hb_head b)) = 0"
        using B1(4) [OF False] by (simp add: bucket_ok_def)
      then have "op_cmp ops (key (hb_head b')) k = 0 \<longleftrightarrow> op_cmp ops (key e) k = 0"
        using be cmp_trans cmp_sym by blast
      moreover have "B1 = b' # R" using B1(3) False by (simp only: if_False)
      ultimately show ?thesis using B1(4) [OF False]
        unfolding h0 unfolding habs_def habsB_perm [OF bi' B1(1)] by (simp add: habsB_Cons hR rm)
    qed
  qed
  moreover have "same_except (set (ht_ents st h)) st st'"
    using se mset_eq_setD [OF R] by (auto simp: same_except_def ht_ents_def)
  ultimately show ?thesis using ee u by (simp add: htab_removed_def)
qed

lemma delete_present:
  assumes inv: "htab_inv ops key st h" and e: "e \<in> set (habs ops key st h (key e))"
  shows "\<exists>st' h' fr. dt_htab_delete ops key st h e = Some (0, st', h', fr) \<and> htab_removed ops key st h e st' h'"
proof -
  define idx where "idx = ht_idx (ht_mask h) (op_hval ops (key e))"
  define c where "c = ht_tab h ! idx"
  from inv have bi: "binv ops key st (ht_fresh h) (buckets h)" and sh: "htab_shape h" by (simp_all add: htab_inv_def)
  obtain i where f: "find_bucket ops key c (key e) = Some i"
  proof (cases "find_bucket ops key c (key e)")
    case None
    then have "habs ops key st h (key e) = []"
      using find_slot(3) [OF inv, of "key e"] unfolding c_def idx_def habs_def by (intro habsB_none)
    with e show ?thesis by simp
  qed
  define b where "b = c ! i"
  from find_slot(2,4) [OF inv, of "key e"] f have i: "idx < ht_size h" "i < length c" "b \<in> set (buckets h)"
    "op_cmp ops (key (hb_head b)) (key e) = 0" unfolding b_def c_def idx_def by auto
  have hb: "habs ops key st h (key e) = bents st b" unfolding habs_def by (rule habsB_bucket [OF bi i(3,4)])
  from e [unfolded hb] obtain xs ys where xs: "bents st b = xs @ e # ys" "e \<notin> set xs" by (metis split_list_first)
  from replace_bucket [OF inv i(1)] i(2) obtain R where
    R: "mset (buckets h) = mset (b # R)"
      "\<And>b'. mset (concat ((ht_tab h)[idx := c[i := b']])) = mset (b' # R)"
      "mset (concat ((ht_tab h)[idx := take i c @ drop (Suc i) c])) = mset R"
    unfolding b_def c_def by blast
  have bR: "binv ops key st (ht_fresh h) (b # R)" using bi binv_perm [OF R(1)] by blast
  from bucket_del [OF bR xs(1)] obtain st' where
    a: "he_del st (hb_head b) e = Some (st', hd_or (xs @ ys) None)" "unlinked st' e"
      "\<forall>r \<in> set R. bents st' r = bents st r" "same_except (set (bents st b)) st st'"
    and a': "xs @ ys = [] \<Longrightarrow> binv ops key st' (ht_fresh h) R"
      "xs @ ys \<noteq> [] \<Longrightarrow> binv ops key st' (ht_fresh h) (b\<lparr>hb_head := hd (xs @ ys), hb_nentries := hb_nentries b - 1\<rparr> # R) \<and>
        bents st' (b\<lparr>hb_head := hd (xs @ ys), hb_nentries := hb_nentries b - 1\<rparr>) = xs @ ys"
    by (auto simp: Let_def split: if_splits)
  obtain fr where od: "op_del ops st (hb_head b) e = Some (st', hd_or (xs @ ys) None, fr)"
    using del_links [of st "hb_head b" e] a(1) by (auto simp: map_option_eq_Some)
  show ?thesis
  proof (cases "xs @ ys = []")
    case True
    let ?h = "h\<lparr>ht_nentries := ht_nentries h - 1, ht_tab := (ht_tab h)[idx := take i c @ drop (Suc i) c],
                ht_nbuckets := ht_nbuckets h - 1\<rparr>"
    have "dt_htab_delete ops key st h e = Some (0, st', ?h, fr)"
      using f od True by (simp add: dt_htab_delete_def Let_def idx_def c_def b_def)
    moreover have "htab_shape (h\<lparr>ht_tab := (ht_tab h)[idx := take i c @ drop (Suc i) c]\<rparr>)"
      using sh i(1) unfolding c_def
      by (intro shape_update) (auto simp: htab_shape_def dest!: in_set_takeD in_set_dropD)
    then have "htab_removed ops key st h e st' ?h"
      using True a' R(3)
      by (intro removed_intro [OF inv R(1) xs i(4) a(3,2,4), of _ R b]) (simp_all add: buckets_def)
    ultimately show ?thesis by blast
  next
    case False
    let ?b = "b\<lparr>hb_head := hd (xs @ ys), hb_nentries := hb_nentries b - 1\<rparr>"
    let ?h = "h\<lparr>ht_nentries := ht_nentries h - 1, ht_tab := (ht_tab h)[idx := c[i := ?b]]\<rparr>"
    have "hd_or (xs @ ys) None = Some (hd (xs @ ys))" using False by (cases "xs @ ys") auto
    then have "dt_htab_delete ops key st h e = Some (0, st', ?h, fr)"
      using f od by (simp add: dt_htab_delete_def Let_def idx_def c_def b_def)
    moreover have "htab_shape (h\<lparr>ht_tab := (ht_tab h)[idx := c[i := ?b]]\<rparr>)"
      using i unfolding c_def by (intro shape_set_bucket [OF sh]) (simp_all add: b_def c_def)
    then have "htab_removed ops key st h e st' ?h"
      using False a' R(2) [of ?b]
      by (intro removed_intro [OF inv R(1) xs i(4) a(3,2,4), of _ "?b # R" ?b]) (auto simp: buckets_def)
    ultimately show ?thesis by blast
  qed
qed
end

text \<open>An iterator that is about to return the first entry of \<open>X\<close>, and then the others.\<close>

definition it_at :: "lstore \<Rightarrow> htab \<Rightarrow> htab_next \<Rightarrow> nat list \<Rightarrow> bool" where
  "it_at st h i X \<longleftrightarrow>
     (\<exists>T1 C1 b C2 T2 us e vs.
        ht_tab h = T1 @ (C1 @ b # C2) # T2 \<and> it_idx i = length T1 \<and> it_bucket i = Some (hb_addr b) \<and>
        bents st b = us @ e # vs \<and> it_ent i = Some e \<and> \<not> it_exhausted i \<and>
        X = e # vs @ concat (map (bents st) C2) @ concat (map (bents st) (concat T2)))"

definition it_on :: "lstore \<Rightarrow> htab \<Rightarrow> htab_next \<Rightarrow> nat list \<Rightarrow> bool" where
  "it_on st h i X \<longleftrightarrow> (if X = [] then it_exhausted i else it_at st h i X)"

lemma adv_slots_fresh:
  assumes "\<forall>b \<in> set (concat T). 0 < hb_nentries b"
  shows "adv_slots st T idx None None = Some (idx + length T, None) \<and> concat T = [] \<or>
    (\<exists>T1 b C2 T2. adv_slots st T idx None None = Some (idx + length T1, Some (hb_addr b, hb_head b)) \<and>
       T = T1 @ (b # C2) # T2 \<and> concat T1 = [])"
  using assms
proof (induction T arbitrary: idx)
  case (Cons c T)
  show ?case
  proof (cases c)
    case Nil
    from Cons.IH [of "Suc idx"] Cons.prems have
      "adv_slots st T (Suc idx) None None = Some (Suc idx + length T, None) \<and> concat T = [] \<or>
       (\<exists>T1 b C2 T2. adv_slots st T (Suc idx) None None = Some (Suc idx + length T1, Some (hb_addr b, hb_head b)) \<and>
         T = T1 @ (b # C2) # T2 \<and> concat T1 = [])" by simp
    then show ?thesis
    proof
      assume "\<exists>T1 b C2 T2. adv_slots st T (Suc idx) None None = Some (Suc idx + length T1, Some (hb_addr b, hb_head b)) \<and>
         T = T1 @ (b # C2) # T2 \<and> concat T1 = []"
      then obtain T1 b C2 T2 where "adv_slots st T (Suc idx) None None = Some (Suc idx + length T1, Some (hb_addr b, hb_head b))"
        "T = T1 @ (b # C2) # T2" "concat T1 = []" by blast
      then have "adv_slots st (c # T) idx None None = Some (idx + length ([] # T1), Some (hb_addr b, hb_head b)) \<and>
        c # T = ([] # T1) @ (b # C2) # T2 \<and> concat ([] # T1) = []" using Nil by simp
      then show ?thesis by blast
    qed (use Nil in simp)
  next
    case (Cons b C2)
    then have "adv_slots st (c # T) idx None None = Some (idx + length [], Some (hb_addr b, hb_head b)) \<and>
      c # T = [] @ (b # C2) # T \<and> concat [] = []" by simp
    then show ?thesis by blast
  qed
qed simp

lemma it_on_fresh:
  assumes ok: "\<forall>b \<in> set (buckets h). 0 < hb_nentries b" and tab: "ht_tab h = T0 @ T"
    and s: "ht_size h = length (ht_tab h)" and nx: "\<not> it_exhausted i"
    and adv: "adv_slots st T (length T0) None None = Some (idx, p)"
  defines "i' \<equiv> (case p of Some (b, e) \<Rightarrow> i\<lparr>it_idx := idx, it_bucket := Some b, it_ent := Some e\<rparr>
     | None \<Rightarrow> i\<lparr>it_idx := idx, it_bucket := None, it_ent := None, it_exhausted := True\<rparr>)"
  shows "it_on st h i' (concat (map (bents st) (concat T)))"
proof -
  have "\<forall>b \<in> set (concat T). 0 < hb_nentries b" using ok tab by (auto simp: buckets_def)
  from adv_slots_fresh [OF this, of st "length T0"] show ?thesis
  proof
    assume "adv_slots st T (length T0) None None = Some (length T0 + length T, None) \<and> concat T = []"
    then show ?thesis using adv by (auto simp: i'_def it_on_def)
  next
    assume "\<exists>T1 b C2 T2. adv_slots st T (length T0) None None = Some (length T0 + length T1, Some (hb_addr b, hb_head b)) \<and>
       T = T1 @ (b # C2) # T2 \<and> concat T1 = []"
    then obtain T1 b C2 T2 where a: "p = Some (hb_addr b, hb_head b)" "idx = length T0 + length T1"
      "T = T1 @ (b # C2) # T2" "concat T1 = []" using adv by auto
    have "b \<in> set (buckets h)" by (simp add: buckets_def tab a(3))
    with ok have "0 < hb_nentries b" by blast
    then obtain vs where vs: "bents st b = hb_head b # vs" using bents_head by blast
    have "i' = i\<lparr>it_idx := idx, it_bucket := Some (hb_addr b), it_ent := Some (hb_head b)\<rparr>"
      by (simp add: i'_def a(1))
    then have "it_at st h i' (concat (map (bents st) (concat T)))"
      unfolding it_at_def
      by (intro exI [of _ "T0 @ T1"] exI [of _ "[]"] exI [of _ b] exI [of _ C2] exI [of _ T2] exI [of _ "[]"]
          exI [of _ "hb_head b"] exI [of _ vs])
        (simp add: a(2-4) vs tab nx)
    moreover have "concat (map (bents st) (concat T)) \<noteq> []" using a(3) vs by simp
    ultimately show ?thesis by (simp only: it_on_def if_False)
  qed
qed

lemma advance_start:
  assumes inv: "htab_inv ops key st h"
  shows "\<exists>i. htab_advance h st \<lparr>it_idx = 0, it_bucket = None, it_ent = None, it_exhausted = False\<rparr> = Some i \<and>
    it_on st h i (ht_ents st h)"
proof -
  from inv have ok: "\<forall>b \<in> set (buckets h). 0 < hb_nentries b" and s: "ht_size h = length (ht_tab h)"
    by (auto simp: htab_inv_def binv_def bucket_ok_def htab_shape_def)
  from adv_slots_fresh [of "ht_tab h" st 0] ok obtain idx p where
    a: "adv_slots st (ht_tab h) 0 None None = Some (idx, p)" by (auto simp: buckets_def)
  from it_on_fresh [OF ok _ s, of "[]" "ht_tab h" "\<lparr>it_idx = 0, it_bucket = None, it_ent = None, it_exhausted = False\<rparr>" st idx p] a
  show ?thesis by (auto simp: htab_advance_def s ht_ents_def buckets_def split: option.splits)
qed

lemma adv_bucket_end:
  "he_next st e = None \<Longrightarrow> adv_bucket st (b # bs) (Some e) =
     (case bs of [] \<Rightarrow> None | b' # _ \<Rightarrow> Some (hb_addr b', hb_head b'))"
  by (cases bs) auto

lemma linked_next:
  "linked st pr (us @ e # vs) None \<Longrightarrow> he_next st e = hd_or vs None"
  by (simp add: he_next_def)

lemma dropWhile_addr:
  "distinct (map hb_addr (C1 @ b # C2)) \<Longrightarrow> dropWhile (\<lambda>x. hb_addr x \<noteq> hb_addr b) (C1 @ b # C2) = b # C2"
  by (subst dropWhile_append2) (auto simp: image_iff)

lemma advance_step:
  assumes inv: "htab_inv ops key st h" and at: "it_at st h i (e # X)"
  shows "\<exists>i'. htab_advance h st i = Some i' \<and> it_on st h i' X"
proof -
  from at obtain T1 C1 b C2 T2 us vs where
    t: "ht_tab h = T1 @ (C1 @ b # C2) # T2" "it_idx i = length T1" "it_bucket i = Some (hb_addr b)"
       "bents st b = us @ e # vs" "it_ent i = Some e" "\<not> it_exhausted i"
       "X = vs @ concat (map (bents st) C2) @ concat (map (bents st) (concat T2))"
    unfolding it_at_def by auto
  from inv have ok: "\<forall>b \<in> set (buckets h). 0 < hb_nentries b" and s: "ht_size h = length (ht_tab h)"
    and bk: "\<forall>b \<in> set (buckets h). bucket_ok ops key st b" and da: "distinct (map hb_addr (buckets h))"
    by (auto simp: htab_inv_def binv_def bucket_ok_def htab_shape_def)
  have b: "b \<in> set (buckets h)" using t(1) by (simp add: buckets_def)
  have nx: "he_next st e = hd_or vs None"
    using bk b t(4) by (intro linked_next [of st None us]) (auto simp: bucket_ok_def)
  have "map hb_addr (buckets h) = map hb_addr (concat T1) @ map hb_addr (C1 @ b # C2) @ map hb_addr (concat T2)"
    by (simp add: buckets_def t(1))
  with da have "distinct (map hb_addr (C1 @ b # C2))" by (simp only: distinct_append)
  note dw = dropWhile_addr [OF this]
  have sl: "drop (it_idx i) (take (ht_size h) (ht_tab h)) = (C1 @ b # C2) # T2" using t(1,2) s by simp
  have as: "adv_slots st ((C1 @ b # C2) # T2) (it_idx i) (it_bucket i) (it_ent i) =
      (case adv_bucket st (b # C2) (Some e) of Some be \<Rightarrow> Some (it_idx i, Some be)
        | None \<Rightarrow> adv_slots st T2 (Suc (it_idx i)) None None)"
    using dw t(3,5) by (simp only: adv_slots.simps option.case) (simp split: option.splits)
  show ?thesis
  proof (cases vs)
    case (Cons v ws)
    let ?i = "i\<lparr>it_idx := it_idx i, it_bucket := Some (hb_addr b), it_ent := Some v\<rparr>"
    have "htab_advance h st i = Some ?i"
      unfolding htab_advance_def sl as using nx Cons by simp
    moreover have "it_at st h ?i X"
      unfolding it_at_def
      by (intro exI [of _ T1] exI [of _ C1] exI [of _ b] exI [of _ C2] exI [of _ T2] exI [of _ "us @ [e]"]
          exI [of _ v] exI [of _ ws]) (use t Cons in simp)
    ultimately show ?thesis using t(7) Cons by (simp add: it_on_def)
  next
    case Nil
    then have ab: "adv_bucket st (b # C2) (Some e) = (case C2 of [] \<Rightarrow> None | b' # _ \<Rightarrow> Some (hb_addr b', hb_head b'))"
      using nx by (intro adv_bucket_end) simp
    show ?thesis
    proof (cases C2)
      case (Cons b' C3)
      let ?i = "i\<lparr>it_idx := it_idx i, it_bucket := Some (hb_addr b'), it_ent := Some (hb_head b')\<rparr>"
      have "b' \<in> set (buckets h)" using t(1) Cons by (simp add: buckets_def)
      with ok obtain ws where ws: "bents st b' = hb_head b' # ws" using bents_head by blast
      have "htab_advance h st i = Some ?i"
        unfolding htab_advance_def sl as ab using Cons by simp
      moreover have "it_at st h ?i X"
        unfolding it_at_def
        by (intro exI [of _ T1] exI [of _ "C1 @ [b]"] exI [of _ b'] exI [of _ C3] exI [of _ T2] exI [of _ "[]"]
          exI [of _ "hb_head b'"] exI [of _ ws]) (use t Cons Nil ws in simp)
      moreover have "X \<noteq> []" using t(7) Cons ws by simp
      ultimately show ?thesis by (simp add: it_on_def)
    next
      case C2: Nil
      have tab: "ht_tab h = (T1 @ [C1 @ [b]]) @ T2" using t(1) C2 by simp
      have "\<forall>b \<in> set (concat T2). 0 < hb_nentries b" using ok tab by (auto simp: buckets_def)
      from adv_slots_fresh [OF this, of st "Suc (length T1)"] obtain idx p where
        p: "adv_slots st T2 (Suc (length T1)) None None = Some (idx, p)" by auto
      then have p': "adv_slots st T2 (length (T1 @ [C1 @ [b]])) None None = Some (idx, p)" by simp
      have "htab_advance h st i = Some (case p of Some (b, e) \<Rightarrow> i\<lparr>it_idx := idx, it_bucket := Some b, it_ent := Some e\<rparr>
          | None \<Rightarrow> i\<lparr>it_idx := idx, it_bucket := None, it_ent := None, it_exhausted := True\<rparr>)"
        unfolding htab_advance_def sl as ab using C2 p t(2) by (simp split: option.splits)
      with it_on_fresh [OF ok tab s t(6) p'] show ?thesis using t(7) Nil C2 by simp
    qed
  qed
qed

lemma htab_walk_step:
  assumes inv: "htab_inv ops key st h"
  shows "it_on st h i X \<Longrightarrow> htab_walk h st (Some i) al seen = Some (seen @ X)"
proof (induction X arbitrary: i seen)
  case Nil
  then have "dt_htab_next h st (Some i) al = Some (None, None, al)"
    by (simp add: dt_htab_next_def it_on_def)
  then show ?case by (subst htab_walk.simps) simp
next
  case (Cons e X)
  then have at: "it_at st h i (e # X)" by (simp add: it_on_def)
  then have ent: "it_ent i = Some e" "\<not> it_exhausted i" by (auto simp: it_at_def)
  from advance_step [OF inv at] obtain i' where a: "htab_advance h st i = Some i'" "it_on st h i' X" by blast
  then have "dt_htab_next h st (Some i) al = Some (Some e, Some i', al)"
    using ent by (simp add: dt_htab_next_def)
  with Cons.IH [OF a(2), of "seen @ [e]"] show ?case by (subst htab_walk.simps) simp
qed

lemma htab_walk_all:
  assumes inv: "htab_inv ops key st h"
  shows "htab_walk h st None [] [] = Some (ht_ents st h)"
proof -
  let ?i0 = "\<lparr>it_idx = 0, it_bucket = None, it_ent = None, it_exhausted = False\<rparr>"
  from advance_start [OF inv] obtain i where a: "htab_advance h st ?i0 = Some i" "it_on st h i (ht_ents st h)" by blast
  then have "dt_htab_next h st None [] = dt_htab_next h st (Some i) []"
    by (simp add: dt_htab_next_def)
  then have "htab_walk h st None [] [] = htab_walk h st (Some i) [] []"
    by (subst (1 2) htab_walk.simps) simp
  with htab_walk_step [OF inv a(2)] show ?thesis by simp
qed

lemma destroy_bucket_eq:
  assumes "op_del ops = del_frees"
  shows "linked st None xs None \<Longrightarrow> distinct xs \<Longrightarrow> set xs \<inter> set freed = {} \<Longrightarrow>
    \<exists>st'. destroy_bucket ops st (hd_or xs None) dels freed = Some (st', dels @ xs, freed @ xs) \<and> same_except (set xs) st st'"
proof (induction xs arbitrary: st dels freed)
  case Nil
  then show ?case by (subst destroy_bucket.simps) (simp add: same_except_def)
next
  case (Cons x xs)
  from he_del_linked [of st "[]" x xs] Cons.prems obtain st1 where
    d: "he_del st x x = Some (st1, hd_or xs None)" "linked st1 None xs None"
      "same_except (set (x # xs)) st st1" by auto
  have "dl_next (st x) = hd_or xs None" using Cons.prems(1) by simp
  then have "set (del_touches st x x) \<subseteq> set (x # xs)" by (cases xs) (auto simp: del_touches_def)
  then have t: "\<not> list_ex (\<lambda>a. a \<in> set freed) (del_touches st x x)" using Cons.prems(3) by (auto simp: list_ex_iff)
  have "set xs \<inter> set (freed @ [x]) = {}" using Cons.prems(2,3) by auto
  from Cons.IH [OF d(2) _ this, of "dels @ [x]"] Cons.prems(2) obtain st2 where
    "destroy_bucket ops st1 (hd_or xs None) (dels @ [x]) (freed @ [x]) = Some (st2, (dels @ [x]) @ xs, (freed @ [x]) @ xs)"
    "same_except (set xs) st1 st2" by auto
  with d(1,3) t show ?case by (subst destroy_bucket.simps) (auto simp: same_except_def assms del_frees_def)
qed

lemma destroy_buckets_eq:
  assumes "op_del ops = del_frees"
  shows "(\<forall>b \<in> set B. bucket_ok ops key st b) \<Longrightarrow> distinct (concat (map (bents st) B)) \<Longrightarrow>
    set (concat (map (bents st) B)) \<inter> set freed = {} \<Longrightarrow>
    \<exists>st'. destroy_buckets ops st B dels freed = Some (st', dels @ concat (map (bents st) B), freed @ concat (map (bents st) B))"
proof (induction B arbitrary: st dels freed)
  case (Cons b B)
  then have ok: "bucket_ok ops key st b" by simp
  obtain xs where xs: "bents st b = hb_head b # xs" using bents_head [of b st] ok by (auto simp: bucket_ok_def)
  have "linked st None (bents st b) None" "distinct (bents st b)" "set (bents st b) \<inter> set freed = {}"
    using ok Cons.prems by (auto simp: bucket_ok_def)
  from destroy_bucket_eq [OF assms this, of dels] xs obtain st1 where
    d: "destroy_bucket ops st (Some (hb_head b)) dels freed = Some (st1, dels @ bents st b, freed @ bents st b)"
      "same_except (set (bents st b)) st st1" by auto
  have eq: "st1 a = st a" if "r \<in> set B" "a \<in> set (bents st r)" for r a
    using d(2) Cons.prems(2) that by (auto simp: same_except_def)
  have bn: "bents st1 r = bents st r" if "r \<in> set B" for r using bents_cong eq [OF that] by blast
  have ok1: "\<forall>r \<in> set B. bucket_ok ops key st1 r"
    using Cons.prems(1) bucket_ok_cong eq by (metis list.set_intros(2))
  have m: "map (bents st1) B = map (bents st) B" using bn by simp
  have ds: "distinct (concat (map (bents st1) B))" "set (concat (map (bents st1) B)) \<inter> set (freed @ bents st b) = {}"
    using Cons.prems(2,3) unfolding m by auto
  show ?case using Cons.IH [OF ok1 ds, of "dels @ bents st b"] d(1) unfolding m by simp
qed simp

lemma dt_htab_destroy_eq:
  assumes "op_del ops = del_frees" "htab_inv ops key st h"
  shows "\<exists>st'. dt_htab_destroy ops st (Some h) = Some (st', ht_ents st h, ht_ents st h)"
proof -
  from assms(2) have t: "take (ht_size h) (ht_tab h) = ht_tab h" unfolding htab_inv_def htab_shape_def by simp
  from assms(2) have "\<forall>b \<in> set (buckets h). bucket_ok ops key st b" "distinct (concat (map (bents st) (buckets h)))"
    unfolding htab_inv_def binv_def by blast+
  from destroy_buckets_eq [OF assms(1) this, of "[]" "[]"] show ?thesis
    by (simp add: dt_htab_destroy_def ht_ents_def buckets_def t)
qed

lemma dt_htab_create_inv:
  assumes "dt_htab_create al = (Some h, al')"
  shows "htab_inv ops key st h" and "ht_ents st h = []" and "habs ops key st h k = []"
proof -
  from assms have h: "h = \<lparr>ht_tab = [[]], ht_size = 1, ht_mask = 0, ht_nbuckets = 0, ht_nentries = 0, ht_fresh = 0\<rparr>"
    by (auto simp: dt_htab_create_def Let_def split: prod.splits if_splits)
  have b: "buckets h = []" by (simp add: h buckets_def)
  show "ht_ents st h = []" "habs ops key st h k = []" by (simp_all add: b ht_ents_def habs_def habsB_def)
  moreover have "\<exists>n. (1 :: nat) = 2 ^ n" by (rule exI [of _ 0]) simp
  ultimately show "htab_inv ops key st h"
    unfolding htab_inv_def htab_shape_def binv_def b by (simp add: h)
qed

section \<open>The tables of the code base\<close>

fun strcmp :: "cstr \<Rightarrow> cstr \<Rightarrow> int" where
  "strcmp [] [] = 0"
| "strcmp [] (b # bs) = - 1"
| "strcmp (a # as) [] = 1"
| "strcmp (a # as) (b # bs) = (if a = b then strcmp as bs else if a < b then - 1 else 1)"

definition dt_provider_hval :: "cstr \<Rightarrow> u32" where
  "dt_provider_hval name = str2hval (Some name) 0"

definition dt_provider_cmp :: "cstr \<Rightarrow> cstr \<Rightarrow> int" where
  "dt_provider_cmp p q = strcmp p q"

text \<open>The links of the entry and its memory are what the table shares with \<open>del\<close>, and what these functions keep of it.
  A provider is freed; the table of probes, the nodes and the cross references released with it are outside the hash table.\<close>

definition dt_provider_del_prov :: "lstore \<Rightarrow> nat \<Rightarrow> nat \<Rightarrow> (lstore \<times> nat option \<times> nat list) option" where
  "dt_provider_del_prov = del_frees"

definition dt_provider_htab_ops :: "cstr htab_ops" where
  "dt_provider_htab_ops = \<lparr>op_hval = dt_provider_hval, op_cmp = dt_provider_cmp, op_del = dt_provider_del_prov\<rparr>"

definition dt_module_hval :: "cstr \<Rightarrow> u32" where
  "dt_module_hval name = str2hval (Some name) 0"

definition dt_module_cmp :: "cstr \<Rightarrow> cstr \<Rightarrow> int" where
  "dt_module_cmp p q = strcmp p q"

text \<open>A module is freed; it is also taken off the handle's list of modules and unloaded, which is outside the hash table.\<close>

definition dt_module_del_mod :: "lstore \<Rightarrow> nat \<Rightarrow> nat \<Rightarrow> (lstore \<times> nat option \<times> nat list) option" where
  "dt_module_del_mod = del_frees"

definition dt_module_htab_ops :: "cstr htab_ops" where
  "dt_module_htab_ops = \<lparr>op_hval = dt_module_hval, op_cmp = dt_module_cmp, op_del = dt_module_del_mod\<rparr>"

definition kernpath_hval :: "cstr \<Rightarrow> u32" where
  "kernpath_hval name = str2hval (Some name) 0"

definition kernpath_cmp :: "cstr \<Rightarrow> cstr \<Rightarrow> int" where
  "kernpath_cmp p q = strcmp p q"

text \<open>A path is freed, and its two strings with it.\<close>

definition kernpath_del_path :: "lstore \<Rightarrow> nat \<Rightarrow> nat \<Rightarrow> (lstore \<times> nat option \<times> nat list) option" where
  "kernpath_del_path = del_frees"

definition kernpath_htab_ops :: "cstr htab_ops" where
  "kernpath_htab_ops = \<lparr>op_hval = kernpath_hval, op_cmp = kernpath_cmp, op_del = kernpath_del_path\<rparr>"

text \<open>Probes are in five tables: by each part of their description and by all four.\<close>

record probedesc =
  pd_prv :: cstr
  pd_mod :: cstr
  pd_fun :: cstr
  pd_prb :: cstr

definition he_part_ops :: "(probedesc \<Rightarrow> cstr) \<Rightarrow> probedesc htab_ops" where
  "he_part_ops part =
     \<lparr>op_hval = (\<lambda>d. str2hval (Some (part d)) 0), op_cmp = (\<lambda>p q. strcmp (part p) (part q)), op_del = del_unlinks\<rparr>"

definition fqn_hval :: "probedesc \<Rightarrow> u32" where
  "fqn_hval d =
     (let hval = 0;
          hval = str2hval (Some (pd_prv d)) hval;
          hval = str2hval (Some [cc CHR '':'']) hval;
          hval = str2hval (Some (pd_mod d)) hval;
          hval = str2hval (Some [cc CHR '':'']) hval;
          hval = str2hval (Some (pd_fun d)) hval;
          hval = str2hval (Some [cc CHR '':'']) hval;
          hval = str2hval (Some (pd_prb d)) hval
      in hval)"

definition fqn_cmp :: "probedesc \<Rightarrow> probedesc \<Rightarrow> int" where
  "fqn_cmp p q =
     (let rc = strcmp (pd_prv p) (pd_prv q) in if rc \<noteq> 0 then rc else
      let rc = strcmp (pd_mod p) (pd_mod q) in if rc \<noteq> 0 then rc else
      let rc = strcmp (pd_fun p) (pd_fun q) in if rc \<noteq> 0 then rc else
      let rc = strcmp (pd_prb p) (pd_prb q) in if rc \<noteq> 0 then rc else 0)"

definition fqn_htab_ops :: "probedesc htab_ops" where
  "fqn_htab_ops = \<lparr>op_hval = fqn_hval, op_cmp = fqn_cmp, op_del = del_unlinks\<rparr>"

text \<open>Speculation buffers: the 32-bit identifier is hashed as one word.\<close>

definition dt_spec_buf_hval :: "u32 \<Rightarrow> u32" where
  "dt_spec_buf_hval dtsb_id =
     (let hval = push_bit 4 0 + dtsb_id;
          g = hval AND 0xf0000000
      in if g \<noteq> 0 then (hval XOR drop_bit 24 g) XOR g else hval)"

definition dt_spec_buf_cmp :: "u32 \<Rightarrow> u32 \<Rightarrow> int" where
  "dt_spec_buf_cmp p q = (if p = q then 0 else 1)"

text \<open>A speculation buffer is freed; \<open>dt_spec_buf_destroy\<close> also frees its data and gives its identifier back, which is outside the hash table.\<close>

definition dt_spec_buf_del_buf :: "lstore \<Rightarrow> nat \<Rightarrow> nat \<Rightarrow> (lstore \<times> nat option \<times> nat list) option" where
  "dt_spec_buf_del_buf = del_frees"

definition dt_spec_buf_htab_ops :: "u32 htab_ops" where
  "dt_spec_buf_htab_ops = \<lparr>op_hval = dt_spec_buf_hval, op_cmp = dt_spec_buf_cmp, op_del = dt_spec_buf_del_buf\<rparr>"

lemma del_unlinks_links: "map_option (\<lambda>(st, head, fr). (st, head)) (del_unlinks st h e) = he_del st h e"
  by (cases "he_del st h e") (auto simp: del_unlinks_def)

lemma del_frees_links: "map_option (\<lambda>(st, head, fr). (st, head)) (del_frees st h e) = he_del st h e"
  by (cases "he_del st h e") (auto simp: del_frees_def)

lemma strcmp_0_iff [simp]: "strcmp a b = 0 \<longleftrightarrow> a = b"
  by (induction a b rule: strcmp.induct) auto

lemma fqn_cmp_0_iff: "fqn_cmp p q = 0 \<longleftrightarrow> p = q"
  by (auto simp: fqn_cmp_def Let_def intro!: probedesc.equality)

interpretation prov_tab: htab_keys dt_provider_htab_ops
  by unfold_locales (auto simp: dt_provider_htab_ops_def dt_provider_cmp_def dt_provider_del_prov_def del_frees_links)

interpretation mod_tab: htab_keys dt_module_htab_ops
  by unfold_locales (auto simp: dt_module_htab_ops_def dt_module_cmp_def dt_module_del_mod_def del_frees_links)

interpretation kernpath_tab: htab_keys kernpath_htab_ops
  by unfold_locales (auto simp: kernpath_htab_ops_def kernpath_cmp_def kernpath_del_path_def del_frees_links)

interpretation part_tab: htab_keys "he_part_ops part" for part
  by unfold_locales (auto simp: he_part_ops_def del_unlinks_links)

interpretation fqn_tab: htab_keys fqn_htab_ops
  by unfold_locales (auto simp: fqn_htab_ops_def fqn_cmp_0_iff del_unlinks_links)

interpretation spec_tab: htab_keys dt_spec_buf_htab_ops
  by unfold_locales (auto simp: dt_spec_buf_htab_ops_def dt_spec_buf_cmp_def dt_spec_buf_del_buf_def del_frees_links split: if_splits)

section \<open>Properties\<close>

text \<open>
  The specification of a table: under every key a stack of entries.  Inserting pushes or,
  when memory runs out, changes nothing; looking up returns the top; deleting removes the
  entry from the stack of its key.
\<close>

datatype 'k hop = HInsert nat | HLookup 'k | HDelete nat
datatype hres = HRet int | HPtr "nat option"

fun hspec :: "'k htab_ops \<Rightarrow> (nat \<Rightarrow> 'k) \<Rightarrow> 'k hop \<Rightarrow> ('k \<Rightarrow> nat list) \<Rightarrow> hres \<Rightarrow> 'k \<Rightarrow> nat list \<Rightarrow> bool" where
  "hspec ops key (HInsert e) M r k M' \<longleftrightarrow>
     (r = HRet 0 \<and> M' = (if op_cmp ops (key e) k = 0 then e # M k else M k)) \<or>
     (r = HRet (- ENOMEM) \<and> M' = M k)"
| "hspec ops key (HLookup k') M r k M' \<longleftrightarrow>
     r = HPtr (case M k' of [] \<Rightarrow> None | e # _ \<Rightarrow> Some e) \<and> M' = M k"
| "hspec ops key (HDelete e) M r k M' \<longleftrightarrow>
     (if M (key e) = [] then r = HRet (- ENOENT) \<and> M' = M k
      else r = HRet 0 \<and> M' = (if op_cmp ops (key e) k = 0 then remove1 e (M k) else M k))"

fun hexec :: "'k htab_ops \<Rightarrow> (nat \<Rightarrow> 'k) \<Rightarrow> 'k hop \<Rightarrow> lstore \<Rightarrow> htab \<Rightarrow> alloc \<Rightarrow>
    (hres \<times> lstore \<times> htab \<times> alloc) option" where
  "hexec ops key (HInsert e) st h al =
     map_option (\<lambda>(r, st, h, al). (HRet r, st, h, al)) (dt_htab_insert ops key st h al e)"
| "hexec ops key (HLookup k) st h al = Some (HPtr (dt_htab_lookup ops key h k), st, h, al)"
| "hexec ops key (HDelete e) st h al =
     map_option (\<lambda>(r, st, h, fr). (HRet r, st, h, al)) (dt_htab_delete ops key st h e)"

fun hpre :: "'k htab_ops \<Rightarrow> (nat \<Rightarrow> 'k) \<Rightarrow> lstore \<Rightarrow> htab \<Rightarrow> 'k hop \<Rightarrow> bool" where
  "hpre ops key st h (HInsert e) \<longleftrightarrow> e \<notin> set (ht_ents st h) \<and> unlinked st e"
| "hpre ops key st h (HLookup k) \<longleftrightarrow> True"
| "hpre ops key st h (HDelete e) \<longleftrightarrow>
     e \<in> set (habs ops key st h (key e)) \<or> habs ops key st h (key e) = []"

context htab_keys
begin

lemma mem_ents:
  assumes inv: "htab_inv ops key st h"
  shows "e \<in> set (ht_ents st h) \<longleftrightarrow> e \<in> set (habs ops key st h (key e))"
proof
  assume "e \<in> set (ht_ents st h)"
  then obtain b where b: "b \<in> set (buckets h)" "e \<in> set (bents st b)" by (auto simp: ht_ents_def)
  from inv have bi: "binv ops key st (ht_fresh h) (buckets h)" by (simp add: htab_inv_def)
  with b have "op_cmp ops (key e) (key (hb_head b)) = 0" by (auto simp: binv_def bucket_ok_def)
  from habsB_bucket [OF bi b(1) cmp_sym [OF this]] b(2)
  show "e \<in> set (habs ops key st h (key e))" by (simp add: habs_def)
next
  assume e: "e \<in> set (habs ops key st h (key e))"
  then obtain b where b: "find (\<lambda>b. op_cmp ops (key (hb_head b)) (key e) = 0) (buckets h) = Some b"
    by (cases "find (\<lambda>b. op_cmp ops (key (hb_head b)) (key e) = 0) (buckets h)")
      (auto simp: habs_def habsB_def)
  then have "b \<in> set (buckets h)" by (auto simp: find_Some_iff)
  with e b show "e \<in> set (ht_ents st h)" by (auto simp: habs_def habsB_def ht_ents_def)
qed

lemma step_refines:
  assumes inv: "htab_inv ops key st h" and pre: "hpre ops key st h op"
  shows "\<exists>r st' h' al'. hexec ops key op st h al = Some (r, st', h', al') \<and> htab_inv ops key st' h' \<and>
    (\<forall>k. hspec ops key op (habs ops key st h) r k (habs ops key st' h' k))"
proof (cases op)
  case (HInsert e)
  with pre have "insert_post ops key st h e (dt_htab_insert ops key st h al e)" by (intro insert_ok [OF inv]) auto
  with HInsert show ?thesis
    by (cases "dt_htab_insert ops key st h al e")
      (auto simp: insert_post_def htab_added_def htab_same_def split: if_splits)
next
  case (HLookup k)
  with inv lookup_eq [OF inv] show ?thesis by simp
next
  case (HDelete e)
  show ?thesis
  proof (cases "habs ops key st h (key e) = []")
    case True
    with HDelete inv delete_absent [OF inv True] show ?thesis by simp
  next
    case False
    with pre HDelete have "e \<in> set (habs ops key st h (key e))" by simp
    from delete_present [OF inv this] HDelete False show ?thesis by (auto simp: htab_removed_def)
  qed
qed

end

text \<open>C3: Hash table operations.  On a table of probes that satisfies the invariant, every insertion of
  an entry that is not yet in it, every lookup and every deletion returns, keeps the
  invariant (slots, bucket chains, links, counts and load), and does to the table what the
  specification does to the stacks of entries under each probe name; out of
  memory leaves the contents alone.\<close>

theorem fqn_htab_step_refines:
  assumes "htab_inv fqn_htab_ops key st h" and "hpre fqn_htab_ops key st h op"
  shows "\<exists>r st' h' al'. hexec fqn_htab_ops key op st h al = Some (r, st', h', al') \<and>
    htab_inv fqn_htab_ops key st' h' \<and>
    (\<forall>k. hspec fqn_htab_ops key op (habs fqn_htab_ops key st h) r k (habs fqn_htab_ops key st' h' k))"
  by (rule fqn_tab.step_refines [OF assms])

definition demo_desc :: "nat \<Rightarrow> probedesc" where
  "demo_desc n = \<lparr>pd_prv = [112], pd_mod = [], pd_fun = [], pd_prb = [of_nat n]\<rparr>"

definition demo_htab :: htab where
  "demo_htab = the (fst (dt_htab_create []))"

theorem fqn_htab_step_refines_witness:
  "\<exists>r st' h' al'. hexec fqn_htab_ops demo_desc (HInsert 3) demo_store demo_htab [] = Some (r, st', h', al') \<and>
    htab_inv fqn_htab_ops demo_desc st' h' \<and>
    hspec fqn_htab_ops demo_desc (HInsert 3) (\<lambda>_. []) r (demo_desc 3)
      (habs fqn_htab_ops demo_desc st' h' (demo_desc 3))"
proof -
  have c: "dt_htab_create [] = (Some demo_htab, [])" by (simp add: demo_htab_def dt_htab_create_def)
  note i = dt_htab_create_inv [OF c]
  have "hpre fqn_htab_ops demo_desc demo_store demo_htab (HInsert 3)"
    using i(2) by (simp add: unlinked_def demo_store_def)
  moreover have "habs fqn_htab_ops demo_desc demo_store demo_htab = (\<lambda>_. [])"
    by (rule ext) (rule i(3))
  ultimately show ?thesis
    using fqn_htab_step_refines [OF i(1), of demo_desc demo_store "HInsert 3" "[]"] by metis
qed

text \<open>C4: Iteration.  When the iterator can be allocated, calling \<open>dt_htab_next\<close> until it returns NULL
  ends, and yields every entry of the table exactly once; their number is what
  \<open>dt_htab_entries\<close> reports, and an entry is returned just when a table lookup stack holds it.\<close>

theorem dt_htab_walk_complete:
  assumes "htab_inv dt_provider_htab_ops key st h"
  shows "\<exists>xs. htab_walk h st None [] [] = Some xs \<and> distinct xs \<and> length xs = dt_htab_entries h \<and>
    (\<forall>e. e \<in> set xs \<longleftrightarrow> e \<in> set (habs dt_provider_htab_ops key st h (key e)))"
proof -
  from assms have "distinct (ht_ents st h)" "dt_htab_entries h = length (ht_ents st h)"
    unfolding htab_inv_def binv_def ht_ents_def dt_htab_entries_def by auto
  with htab_walk_all [OF assms] prov_tab.mem_ents [OF assms] show ?thesis by auto
qed

theorem dt_htab_walk_complete_witness:
  "\<exists>xs. htab_walk demo_htab demo_store None [] [] = Some xs \<and> length xs = dt_htab_entries demo_htab"
proof -
  have c: "dt_htab_create [] = (Some demo_htab, [])" by (simp add: demo_htab_def dt_htab_create_def)
  from dt_htab_walk_complete [OF dt_htab_create_inv(1) [OF c], of demo_store "\<lambda>_. []"] show ?thesis by auto
qed

text \<open>C20: Destruction.  \<open>dt_htab_destroy\<close> of the table of speculation buffers, whose \<open>del\<close> frees the entry it has
  unlinked, returns, never follows a NULL link, never touches an entry it has freed, and unlinks and frees every
  entry of the table exactly once.\<close>

theorem dt_htab_destroy_complete:
  assumes "htab_inv dt_spec_buf_htab_ops key st h"
  shows "\<exists>st' dels. dt_htab_destroy dt_spec_buf_htab_ops st (Some h) = Some (st', dels, dels) \<and> distinct dels \<and>
    length dels = dt_htab_entries h \<and>
    (\<forall>e. e \<in> set dels \<longleftrightarrow> e \<in> set (habs dt_spec_buf_htab_ops key st h (key e)))"
proof -
  from assms have "distinct (ht_ents st h)" "dt_htab_entries h = length (ht_ents st h)"
    unfolding htab_inv_def binv_def ht_ents_def dt_htab_entries_def by auto
  moreover have "op_del dt_spec_buf_htab_ops = del_frees" by (simp add: dt_spec_buf_htab_ops_def dt_spec_buf_del_buf_def)
  ultimately show ?thesis using dt_htab_destroy_eq [OF _ assms] spec_tab.mem_ents [OF assms] by auto
qed

text \<open>A table with the speculation buffers 5 and 6 under the identifier 1 and 4 under the identifier 2.\<close>

definition demo_spec_key :: "nat \<Rightarrow> u32" where
  "demo_spec_key a = (if a = 4 then 2 else 1)"

definition demo_spec_links :: lstore where
  "demo_spec_links = (\<lambda>_. \<lparr>dl_prev = None, dl_next = None\<rparr>)
     (6 := \<lparr>dl_prev = None, dl_next = Some 5\<rparr>, 5 := \<lparr>dl_prev = Some 6, dl_next = None\<rparr>)"

definition demo_spec_htab :: htab where
  "demo_spec_htab =
     \<lparr>ht_tab = [[\<lparr>hb_addr = 1, hb_hval = 2, hb_head = 4, hb_nentries = 1\<rparr>, \<lparr>hb_addr = 0, hb_hval = 1, hb_head = 6, hb_nentries = 2\<rparr>]],
      ht_size = 1, ht_mask = 0, ht_nbuckets = 2, ht_nentries = 3, ht_fresh = 2\<rparr>"

lemma demo_spec_inv: "htab_inv dt_spec_buf_htab_ops demo_spec_key demo_spec_links demo_spec_htab"
proof -
  have "\<exists>n. (1 :: nat) = 2 ^ n" by (rule exI [of _ 0]) simp
  then show ?thesis
    by (simp add: htab_inv_def htab_shape_def binv_def bucket_ok_def buckets_def ht_ents_def bents_def numeral_2_eq_2 demo_spec_htab_def ht_idx_def
        demo_spec_links_def demo_spec_key_def dt_spec_buf_htab_ops_def dt_spec_buf_cmp_def dt_spec_buf_hval_def)
qed

theorem dt_htab_destroy_complete_witness:
  "\<exists>st' dels. dt_htab_destroy dt_spec_buf_htab_ops demo_spec_links (Some demo_spec_htab) = Some (st', dels, dels) \<and>
    distinct dels \<and> length dels = 3 \<and> 4 \<in> set dels \<and> 5 \<in> set dels \<and> 6 \<in> set dels"
proof -
  have h: "habs dt_spec_buf_htab_ops demo_spec_key demo_spec_links demo_spec_htab 1 = [6, 5]"
    "habs dt_spec_buf_htab_ops demo_spec_key demo_spec_links demo_spec_htab 2 = [4]"
    by (simp_all add: habs_def habsB_def buckets_def bents_def demo_spec_htab_def demo_spec_links_def demo_spec_key_def
        dt_spec_buf_htab_ops_def dt_spec_buf_cmp_def numeral_2_eq_2)
  obtain st' dels where d: "dt_htab_destroy dt_spec_buf_htab_ops demo_spec_links (Some demo_spec_htab) = Some (st', dels, dels)"
    "distinct dels" "length dels = dt_htab_entries demo_spec_htab"
    "\<forall>e. e \<in> set dels \<longleftrightarrow> e \<in> set (habs dt_spec_buf_htab_ops demo_spec_key demo_spec_links demo_spec_htab (demo_spec_key e))"
    using dt_htab_destroy_complete [OF demo_spec_inv] by blast
  have "4 \<in> set dels" "5 \<in> set dels" "6 \<in> set dels" using d(4) h by (simp_all add: demo_spec_key_def)
  then show ?thesis using d by (auto simp: dt_htab_entries_def demo_spec_htab_def)
qed

end
