(* ===== verification/DTStrtab.thy ===== *)
theory DTStrtab
  imports DTString
begin

text \<open>
  The compile-time string table of \<open>libdtrace/dt_strtab.c\<close>: strings are stored once, one after
  the other, in chunks of \<open>str_bufsz\<close> bytes, and found again through a hash table.

  A chunk is the list of the bytes written to it; the current position \<open>str_ptr\<close> is the
  end of the last chunk, and a pointer into a chunk is its distance from the start of the
  chunk.  A read behind the bytes written to a chunk, or behind the end of the string
  being looked up, is a read the C code may not make: the operation is then \<open>None\<close>.

  Proved: offsets that were handed out stay valid, the string found at an offset is the one
  inserted, a failed allocation leaves the table as it was, the table is written out as
  one block.  \<open>dt_strtab_compare\<close> does read out of bounds for strings of one character
  and for strings that cross a chunk boundary; the last theorem states when it
  does not.
\<close>

section \<open>The table\<close>

record strhash =
  sh_data :: nat
  sh_buf :: nat
  sh_off :: nat
  sh_len :: nat

record strtab =
  str_hash :: "strhash list list"
  str_hashsz :: nat
  str_bufs :: "u8 list list"
  str_bufsz :: nat
  str_nstrs :: nat
  str_size :: nat

definition dtrace_strbuckets :: nat where
  "dtrace_strbuckets = 211"

definition dt_strtab_grow :: "strtab \<Rightarrow> alloc \<Rightarrow> bool \<times> strtab \<times> alloc" where
  "dt_strtab_grow sp al =
     (let (ok, al) = alloc_ok al in
      if \<not> ok then (False, sp, al)
      else
        (let (ok, al) = alloc_ok al in
         if \<not> ok then (False, sp, al)
         else (True, sp\<lparr>str_bufs := str_bufs sp @ [[]]\<rparr>, al)))"

definition put_byte :: "strtab \<Rightarrow> u8 \<Rightarrow> strtab" where
  "put_byte sp c =
     sp\<lparr>str_bufs := butlast (str_bufs sp) @ [last (str_bufs sp) @ [c]]\<rparr>"

text \<open>The outer option: a zero chunk size fails the assertion.\<close>

definition dt_strtab_create :: "nat \<Rightarrow> alloc \<Rightarrow> (strtab option \<times> alloc) option" where
  "dt_strtab_create bufsz al = (if bufsz = 0 then None else Some
     (let (ok, al) = alloc_ok al in
      if \<not> ok then (None, al)
      else
        (let (ok, al) = alloc_ok al in
         if \<not> ok then (None, al)
         else
           (let sp = \<lparr>str_hash = replicate dtrace_strbuckets [], str_hashsz = dtrace_strbuckets,
                      str_bufs = [], str_bufsz = bufsz, str_nstrs = 1, str_size = 1\<rparr>;
                (ok, sp, al) = dt_strtab_grow sp al
            in if \<not> ok then (None, al)
               else (Some ((put_byte sp 0)\<lparr>str_size := 1, str_nstrs := 1\<rparr>), al)))))"

text \<open>What \<open>dt_strtab_destroy\<close> frees: the hash nodes, the chunks.\<close>

definition dt_strtab_destroy :: "strtab option \<Rightarrow> nat \<times> nat" where
  "dt_strtab_destroy sp =
     (case sp of
        None \<Rightarrow> (0, 0)
      | Some sp \<Rightarrow> (length (concat (str_hash sp)), length (str_bufs sp)))"

fun strncmp :: "u8 list \<Rightarrow> u8 list \<Rightarrow> nat \<Rightarrow> int option" where
  "strncmp a b 0 = Some 0"
| "strncmp (x # a) (y # b) (Suc n) =
     (if x \<noteq> y then Some (uint x - uint y) else if x = 0 then Some 0 else strncmp a b n)"
| "strncmp a b (Suc n) = None"

partial_function (option) dt_strtab_compare ::
  "strtab \<Rightarrow> nat \<Rightarrow> nat \<Rightarrow> u8 list \<Rightarrow> nat \<Rightarrow> int option" where
  "dt_strtab_compare sp b buf str len =
     (if len = 0 then Some 0
      else
        (let (b, buf) = (if buf = str_bufsz sp then (Suc b, 0) else (b, buf))
         in if b \<ge> length (str_bufs sp) then None
            else
              (let resid = str_bufsz sp - buf;
                   n = min resid len;
                   cur = drop buf (str_bufs sp ! b)
               in do {
                 x0 \<leftarrow> rd cur 0; s0 \<leftarrow> rd str 0;
                 if x0 \<noteq> s0 then Some (sint x0 - sint s0)
                 else do {
                   x1 \<leftarrow> rd cur 1; s1 \<leftarrow> rd str 1;
                   if x1 \<noteq> s1 then Some (sint x1 - sint s1)
                   else do {
                     rv \<leftarrow> strncmp (drop 2 cur) (drop 2 str) n;
                     if rv \<noteq> 0 then Some rv
                     else dt_strtab_compare sp b (buf + n) (drop n str) (len - n) } } })))"

text \<open>Copying in; the last component of the result tells whether it succeeded.\<close>

partial_function (option) copyin_loop ::
  "strtab \<Rightarrow> u8 list \<Rightarrow> alloc \<Rightarrow> (bool \<times> strtab \<times> alloc) option" where
  "copyin_loop sp str al =
     (if str = [] then Some (True, sp, al)
      else
        (let (ok, sp, al) =
               (if length (last (str_bufs sp)) = str_bufsz sp then dt_strtab_grow sp al
                else (True, sp, al))
         in if \<not> ok then Some (False, sp, al)
            else
              (let resid = str_bufsz sp - length (last (str_bufs sp));
                   n = min resid (length str);
                   sp = sp\<lparr>str_bufs := butlast (str_bufs sp) @ [last (str_bufs sp) @ take n str]\<rparr>
               in copyin_loop sp (drop n str) al)))"

definition dt_strtab_copyin :: "strtab \<Rightarrow> u8 list \<Rightarrow> alloc \<Rightarrow> (bool \<times> strtab \<times> alloc) option" where
  "dt_strtab_copyin sp str al =
     (let old_p = length (last (str_bufs sp));
          old_n = length (str_bufs sp)
      in map_option (\<lambda>(ok, sp, al).
           if ok then (True, sp, al)
           else (False, sp\<lparr>str_bufs := (take old_n (str_bufs sp))
                            [old_n - 1 := take old_p (str_bufs sp ! (old_n - 1))]\<rparr>, al))
         (copyin_loop sp str al))"

fun dt_strtab_xindex :: "strtab \<Rightarrow> u8 list \<Rightarrow> strhash list \<Rightarrow> nat option option" where
  "dt_strtab_xindex sp str [] = Some None"
| "dt_strtab_xindex sp str (hp # hps) = do {
     r \<leftarrow> dt_strtab_compare sp (sh_buf hp) (sh_data hp) str (length str);
     if r = 0 then Some (Some (sh_off hp)) else dt_strtab_xindex sp str hps }"

definition strtab_h :: "strtab \<Rightarrow> cstr \<Rightarrow> nat" where
  "strtab_h sp str = unat (str2hval (Some str) (of_nat (length str))) mod str_hashsz sp"

text \<open>An offset, or \<open>None\<close> for the result -1.\<close>

definition dt_strtab_index :: "strtab \<Rightarrow> cstr option \<Rightarrow> alloc \<Rightarrow> (nat option \<times> alloc) option" where
  "dt_strtab_index sp str al =
     (case str of
        None \<Rightarrow> Some (Some 0, al)
      | Some str \<Rightarrow>
          if str = [] then Some (Some 0, al)
          else
            (let (ok, al) = alloc_ok al in
             if \<not> ok then Some (None, al)
             else map_option (\<lambda>rc. (rc, al))
                    (dt_strtab_xindex sp (str @ [0]) (str_hash sp ! strtab_h sp str))))"

definition dt_strtab_insert ::
  "strtab \<Rightarrow> cstr option \<Rightarrow> alloc \<Rightarrow> (nat option \<times> strtab \<times> alloc) option" where
  "dt_strtab_insert sp str al =
     (case str of
        None \<Rightarrow> Some (Some 0, sp, al)
      | Some str \<Rightarrow>
          if str = [] then Some (Some 0, sp, al)
          else
            (let slen = length str; (ok, al) = alloc_ok al in
             if \<not> ok then Some (None, sp, al)
             else
               (let h = strtab_h sp str in do {
                  off \<leftarrow> dt_strtab_xindex sp (str @ [0]) (str_hash sp ! h);
                  if off \<noteq> None then Some (off, sp, al)
                  else
                    (let (ok, al) = alloc_ok al in
                     if \<not> ok then Some (None, sp, al)
                     else
                       (let hp = \<lparr>sh_data = length (last (str_bufs sp)),
                                  sh_buf = length (str_bufs sp) - 1,
                                  sh_off = str_size sp, sh_len = slen\<rparr>
                        in do {
                          (ok, sp, al) \<leftarrow> dt_strtab_copyin sp (str @ [0]) al;
                          if \<not> ok then Some (None, sp, al)
                          else Some (Some (sh_off hp),
                            sp\<lparr>str_nstrs := str_nstrs sp + 1, str_size := str_size sp + (slen + 1),
                               str_hash := (str_hash sp)[h := hp # str_hash sp ! h]\<rparr>, al) })) })))"

definition dt_strtab_size :: "strtab \<Rightarrow> nat" where
  "dt_strtab_size sp = str_size sp"

definition dt_strtab_copystr :: "u8 list \<Rightarrow> nat \<Rightarrow> u8 list \<Rightarrow> (int \<times> u8 list) option" where
  "dt_strtab_copystr s off buf =
     (if off + length s \<le> length buf
      then Some (int (length s), take off buf @ s @ drop (off + length s) buf) else None)"

text \<open>
  Writing the table: \<open>func\<close> is called with every chunk, the total so far and its private
  data, and stops the loop with a result that is not positive.
\<close>

fun write_loop :: "(u8 list \<Rightarrow> nat \<Rightarrow> 'p \<Rightarrow> (int \<times> 'p) option) \<Rightarrow> u8 list list \<Rightarrow> int \<Rightarrow> 'p \<Rightarrow>
    (int \<times> 'p) option" where
  "write_loop func [] tot p = Some (tot, p)"
| "write_loop func (c # cs) tot p =
     (case func c (nat tot) p of
        None \<Rightarrow> None
      | Some (res, p) \<Rightarrow> if res \<le> 0 then Some (tot, p) else write_loop func cs (tot + res) p)"

definition dt_strtab_write ::
  "strtab \<Rightarrow> (u8 list \<Rightarrow> nat \<Rightarrow> 'p \<Rightarrow> (int \<times> 'p) option) \<Rightarrow> 'p \<Rightarrow> (int \<times> 'p) option" where
  "dt_strtab_write sp func p =
     map_option (\<lambda>(tot, p). (if tot = 0 \<and> str_size sp \<noteq> 0 then - 1 else tot, p))
       (write_loop func (str_bufs sp) 0 p)"

section \<open>Invariant\<close>

definition blob :: "strtab \<Rightarrow> u8 list" where
  "blob sp = concat (str_bufs sp)"

definition blob_has :: "strtab \<Rightarrow> nat \<Rightarrow> cstr \<Rightarrow> bool" where
  "blob_has sp off str \<longleftrightarrow> prefix (str @ [0]) (drop off (blob sp)) \<and> 0 \<notin> set str"

definition chunks_ok :: "strtab \<Rightarrow> bool" where
  "chunks_ok sp \<longleftrightarrow>
     0 < str_bufsz sp \<and> str_bufs sp \<noteq> [] \<and>
     (\<forall>c \<in> set (butlast (str_bufs sp)). length c = str_bufsz sp) \<and>
     0 < length (last (str_bufs sp)) \<and> length (last (str_bufs sp)) \<le> str_bufsz sp"

definition node_ok :: "strtab \<Rightarrow> strhash \<Rightarrow> bool" where
  "node_ok sp hp \<longleftrightarrow>
     sh_off hp = sh_buf hp * str_bufsz sp + sh_data hp \<and> sh_data hp \<le> str_bufsz sp \<and>
     (\<exists>s. s \<noteq> [] \<and> blob_has sp (sh_off hp) s)"

definition strtab_inv :: "strtab \<Rightarrow> bool" where
  "strtab_inv sp \<longleftrightarrow>
     chunks_ok sp \<and> 0 < str_hashsz sp \<and> length (str_hash sp) = str_hashsz sp \<and>
     str_size sp = length (blob sp) \<and> prefix [0] (blob sp) \<and>
     (\<forall>hp \<in> set (concat (str_hash sp)). node_ok sp hp)"

section \<open>Chunks\<close>

lemma full_chunks:
  assumes "chunks_ok sp" and "b < length (str_bufs sp)"
  shows "length (concat (take b (str_bufs sp))) = b * str_bufsz sp"
proof -
  have "take b (str_bufs sp) = take b (butlast (str_bufs sp))" using assms(2) by (simp add: take_butlast)
  then have "\<forall>c \<in> set (take b (str_bufs sp)). length c = str_bufsz sp"
    using assms(1) by (auto simp: chunks_ok_def dest: in_set_takeD)
  then have m: "map length (take b (str_bufs sp)) = map (\<lambda>_. str_bufsz sp) (take b (str_bufs sp))" by simp
  show ?thesis unfolding length_concat m using assms(2) by (simp add: sum_list_triv)
qed

lemma drop_blob:
  assumes "chunks_ok sp" and "b < length (str_bufs sp)" and "d \<le> length (str_bufs sp ! b)"
  shows "drop (b * str_bufsz sp + d) (blob sp) =
    drop d (str_bufs sp ! b) @ concat (drop (Suc b) (str_bufs sp))"
proof -
  have "blob sp = concat (take b (str_bufs sp)) @ str_bufs sp ! b @ concat (drop (Suc b) (str_bufs sp))"
    using id_take_nth_drop [OF assms(2)] by (metis blob_def concat.simps(2) concat_append)
  then show ?thesis using full_chunks [OF assms(1,2)] assms(3) by simp
qed

lemma strncmp_0:
  "strncmp a b n = Some 0 \<Longrightarrow> \<exists>k \<le> n. k \<le> length a \<and> k \<le> length b \<and> take k a = take k b \<and>
     (k = n \<or> 0 < k \<and> b ! (k - 1) = 0)"
proof (induction a b n rule: strncmp.induct)
  case (2 x a y b n)
  have xy: "x = y" using 2(2) by (cases "x = y") (auto simp: word_uint_eq_iff)
  show ?case
  proof (cases "x = 0")
    case True
    with xy show ?thesis by (intro exI [of _ 1]) auto
  next
    case False
    with 2 xy obtain k where "k \<le> n" "k \<le> length a" "k \<le> length b" "take k a = take k b"
      "k = n \<or> 0 < k \<and> b ! (k - 1) = 0" by auto
    with xy show ?thesis by (intro exI [of _ "Suc k"]) (auto simp: nth_Cons')
  qed
qed auto

lemma compare_chunk:
  assumes "rd cur 0 = Some x0" "rd str 0 = Some x0" "rd cur 1 = Some x1" "rd str 1 = Some x1"
    and "strncmp (drop 2 cur) (drop 2 str) n = Some 0"
    and nz: "\<forall>i < length str - 1. str ! i \<noteq> 0" and n: "n \<le> length str"
  shows "n \<le> length cur" and "take n cur = take n str"
proof -
  from strncmp_0 [OF assms(5)] obtain k where k: "k \<le> length (drop 2 cur)" "k \<le> length (drop 2 str)"
    "take k (drop 2 cur) = take k (drop 2 str)" "k = n \<or> 0 < k \<and> drop 2 str ! (k - 1) = 0" by blast
  have l: "2 \<le> length cur" "2 \<le> length str" "cur ! 0 = str ! 0" "cur ! 1 = str ! 1"
    using assms(1-4) by (auto simp: rd_def split: if_splits)
  have "take 2 cur = take 2 str"
    using l by (intro nth_equalityI) (auto simp: less_2_cases_iff)
  then have t: "take (2 + k) cur = take (2 + k) str" using k(3) by (simp only: take_add)
  have "n \<le> 2 + k"
  proof (cases "k = n")
    case False
    with k(4) have "0 < k" "str ! (2 + (k - 1)) = 0" using l by auto
    with nz have "\<not> 2 + (k - 1) < length str - 1" by blast
    with \<open>0 < k\<close> n show ?thesis by auto
  qed simp
  moreover have "2 + k \<le> length cur" using k(1) l by auto
  ultimately show "n \<le> length cur" "take n cur = take n str"
    using t by (auto simp: min_def) (metis min.absorb1 take_take)
qed

lemma prefix_split: "take n xs = take n ys \<Longrightarrow> prefix (drop n xs) (drop n ys) \<Longrightarrow> n \<le> length xs \<Longrightarrow> prefix xs ys"
  by (metis append_take_drop_id prefix_def append_assoc)

lemma compare_unfold:
  assumes "dt_strtab_compare sp b d str len = Some 0" and "len \<noteq> 0" and "d \<le> str_bufsz sp" and ok: "chunks_ok sp"
  obtains b' d' n x0 x1 where
    "b' * str_bufsz sp + d' = b * str_bufsz sp + d" "d' < str_bufsz sp" "b' < length (str_bufs sp)"
    "n = min (str_bufsz sp - d') len" "rd (drop d' (str_bufs sp ! b')) 0 = Some x0" "rd str 0 = Some x0"
    "rd (drop d' (str_bufs sp ! b')) 1 = Some x1" "rd str 1 = Some x1"
    "strncmp (drop 2 (drop d' (str_bufs sp ! b'))) (drop 2 str) n = Some 0"
    "dt_strtab_compare sp b' (d' + n) (drop n str) (len - n) = Some 0"
proof -
  define b' d' where "b' = (if d = str_bufsz sp then Suc b else b)" and "d' = (if d = str_bufsz sp then 0 else d)"
  have p: "(if d = str_bufsz sp then (Suc b, 0) else (b, d)) = (b', d')" by (simp add: b'_def d'_def)
  have e: "b' * str_bufsz sp + d' = b * str_bufsz sp + d" "d' < str_bufsz sp"
    using assms(3) ok by (auto simp: b'_def d'_def chunks_ok_def)
  define n cur where "n = min (str_bufsz sp - d') len" and "cur = drop d' (str_bufs sp ! b')"
  have E: "dt_strtab_compare sp b d str len = (if b' \<ge> length (str_bufs sp) then None else
    do { x0 \<leftarrow> rd cur 0; s0 \<leftarrow> rd str 0;
       if x0 \<noteq> s0 then Some (sint x0 - sint s0)
       else do { x1 \<leftarrow> rd cur 1; s1 \<leftarrow> rd str 1;
         if x1 \<noteq> s1 then Some (sint x1 - sint s1)
         else do { rv \<leftarrow> strncmp (drop 2 cur) (drop 2 str) n;
           if rv \<noteq> 0 then Some rv
           else dt_strtab_compare sp b' (d' + n) (drop n str) (len - n) } } })"
    using assms(2) unfolding n_def cur_def
    by (subst dt_strtab_compare.simps) (simp only: p Let_def prod.case if_False)
  have s: "sint x0 = sint s0 \<longleftrightarrow> x0 = s0" for x0 s0 :: u8 by (auto intro: signed_word_eqI)
  have "b' < length (str_bufs sp) \<and> (\<exists>x0 x1. rd cur 0 = Some x0 \<and> rd str 0 = Some x0 \<and>
      rd cur 1 = Some x1 \<and> rd str 1 = Some x1) \<and> strncmp (drop 2 cur) (drop 2 str) n = Some 0 \<and>
      dt_strtab_compare sp b' (d' + n) (drop n str) (len - n) = Some 0"
    using assms(1) [unfolded E] by (auto simp: bind_eq_Some_conv s split: if_splits)
  then show thesis unfolding cur_def using e n_def that by blast
qed

lemma compare_sound:
  assumes ok: "chunks_ok sp"
  shows "dt_strtab_compare sp b d str (length str) = Some 0 \<Longrightarrow> d \<le> str_bufsz sp \<Longrightarrow>
    (\<forall>i < length str - 1. str ! i \<noteq> 0) \<Longrightarrow> prefix str (drop (b * str_bufsz sp + d) (blob sp))"
proof (induction "length str" arbitrary: b d str rule: less_induct)
  case less
  show ?case
  proof (cases "str = []")
    case False
    then have "length str \<noteq> 0" by simp
    then obtain b' d' n x0 x1 where
      e: "b' * str_bufsz sp + d' = b * str_bufsz sp + d" "d' < str_bufsz sp" "b' < length (str_bufs sp)"
        "n = min (str_bufsz sp - d') (length str)"
      and c: "rd (drop d' (str_bufs sp ! b')) 0 = Some x0" "rd str 0 = Some x0"
        "rd (drop d' (str_bufs sp ! b')) 1 = Some x1" "rd str 1 = Some x1"
        "strncmp (drop 2 (drop d' (str_bufs sp ! b'))) (drop 2 str) n = Some 0"
      and r: "dt_strtab_compare sp b' (d' + n) (drop n str) (length str - n) = Some 0"
      by (rule compare_unfold [OF less.prems(1) _ less.prems(2) ok])
    have n: "0 < n" "n \<le> length str" "d' + n \<le> str_bufsz sp" using e(2,4) False by auto
    note cc = compare_chunk [OF c less.prems(3) n(2)]
    have "d' \<le> length (str_bufs sp ! b')" using cc(1) n(1) by simp
    note db = drop_blob [OF ok e(3) this]
    have "prefix (drop n str) (drop (b' * str_bufsz sp + (d' + n)) (blob sp))"
      using r n less.prems(3) by (intro less.hyps) auto
    then have "prefix (drop n str) (drop n (drop (b' * str_bufsz sp + d') (blob sp)))" by (simp add: ac_simps)
    moreover have "take n str = take n (drop (b' * str_bufsz sp + d') (blob sp))"
      unfolding db using cc by simp
    ultimately show ?thesis using n(2) e(1) by (metis prefix_split)
  qed simp
qed

lemma grow_cases:
  "dt_strtab_grow sp al = (ok, sp', al') \<Longrightarrow> \<not> ok \<and> sp' = sp \<or> ok \<and> sp' = sp\<lparr>str_bufs := str_bufs sp @ [[]]\<rparr>"
  by (auto simp: dt_strtab_grow_def Let_def split: prod.splits if_splits)

lemma grow_Nil: "dt_strtab_grow sp [] = (ok, sp', al') \<Longrightarrow> ok \<and> al' = []"
  by (auto simp: dt_strtab_grow_def)

lemma concat_butlast_last: "xs \<noteq> [] \<Longrightarrow> concat (butlast xs) @ last xs = concat xs"
  by (induction xs) auto

text \<open>What a call of \<open>dt_strtab_copyin\<close> may do to the chunks: extend the last one, add more.\<close>

definition grown :: "strtab \<Rightarrow> strtab \<Rightarrow> bool" where
  "grown sp sp' \<longleftrightarrow> (\<exists>x more. sp' = sp\<lparr>str_bufs := butlast (str_bufs sp) @ (last (str_bufs sp) @ x) # more\<rparr>)"

lemma grown_refl: "str_bufs sp \<noteq> [] \<Longrightarrow> grown sp sp"
  unfolding grown_def by (rule exI [of _ "[]"], rule exI [of _ "[]"]) simp

lemma grown_grow: "str_bufs sp \<noteq> [] \<Longrightarrow> grown sp (sp\<lparr>str_bufs := str_bufs sp @ [[]]\<rparr>)"
  unfolding grown_def by (rule exI [of _ "[]"], rule exI [of _ "[[]]"]) simp

lemma grown_trans: "grown sp sp' \<Longrightarrow> grown sp' sp'' \<Longrightarrow> str_bufs sp \<noteq> [] \<Longrightarrow> grown sp sp''"
proof -
  assume "grown sp sp'" "grown sp' sp''"
  then obtain x m y m' where
    a: "sp' = sp\<lparr>str_bufs := butlast (str_bufs sp) @ (last (str_bufs sp) @ x) # m\<rparr>"
    and b: "sp'' = sp'\<lparr>str_bufs := butlast (str_bufs sp') @ (last (str_bufs sp') @ y) # m'\<rparr>"
    unfolding grown_def by blast
  show ?thesis
  proof (cases "m = []")
    case True
    then show ?thesis unfolding grown_def b a by (intro exI [of _ "x @ y"] exI [of _ m']) (simp add: butlast_append)
  next
    case False
    then show ?thesis unfolding grown_def b a
      by (intro exI [of _ x] exI [of _ "butlast m @ (last m @ y) # m'"]) (simp add: butlast_append)
  qed
qed

lemma grown_shrink:
  assumes "grown sp sp'" "str_bufs sp \<noteq> []"
  shows "sp'\<lparr>str_bufs := (take (length (str_bufs sp)) (str_bufs sp'))
    [length (str_bufs sp) - 1 := take (length (last (str_bufs sp))) (str_bufs sp' ! (length (str_bufs sp) - 1))]\<rparr> = sp"
proof -
  obtain x m where sp': "sp' = sp\<lparr>str_bufs := butlast (str_bufs sp) @ (last (str_bufs sp) @ x) # m\<rparr>"
    using assms(1) unfolding grown_def by blast
  obtain bl l where b: "str_bufs sp = bl @ [l]" using assms(2) by (metis append_butlast_last_id)
  then have "sp\<lparr>str_bufs := bl @ [l]\<rparr> = sp" by simp
  then show ?thesis unfolding sp' b by (simp add: list_update_append nth_append)
qed

lemma copyin_loop_correct:
  assumes "chunks_ok sp"
  shows "\<exists>ok sp' al'. copyin_loop sp str al = Some (ok, sp', al') \<and> grown sp sp' \<and>
    (ok \<longrightarrow> blob sp' = blob sp @ str \<and> chunks_ok sp') \<and> (al = [] \<longrightarrow> ok \<and> al' = [])"
  using assms
proof (induction "length str" arbitrary: sp str al rule: less_induct)
  case less
  note ok = \<open>chunks_ok sp\<close>
  then have ne: "str_bufs sp \<noteq> []" "0 < str_bufsz sp" by (auto simp: chunks_ok_def)
  show ?case
  proof (cases "str = []")
    case True
    then show ?thesis using ok grown_refl [OF ne(1)] by (subst copyin_loop.simps) auto
  next
    case False
    define G where "G = (if length (last (str_bufs sp)) = str_bufsz sp then dt_strtab_grow sp al else (True, sp, al))"
    obtain gok sp1 al1 where G: "G = (gok, sp1, al1)" by (cases G)
    have "sp1 = sp \<or> sp1 = sp\<lparr>str_bufs := str_bufs sp @ [[]]\<rparr>"
      using G grow_cases [of sp al] by (auto simp: G_def split: if_splits)
    then have sp1: "grown sp sp1" "blob sp1 = blob sp" "str_bufs sp1 \<noteq> []" "str_bufsz sp1 = str_bufsz sp"
      using ne(1) grown_refl grown_grow by (auto simp: blob_def)
    have gn: "al = [] \<longrightarrow> gok \<and> al1 = []" using G grow_Nil [of sp] by (auto simp: G_def split: if_splits)
    show ?thesis
    proof (cases gok)
      case False
      then show ?thesis using gn \<open>str \<noteq> []\<close> G sp1(1)
        by (subst copyin_loop.simps) (auto simp: G_def [symmetric])
    next
      case True
      have lt: "length (last (str_bufs sp1)) < str_bufsz sp" "\<forall>c \<in> set (butlast (str_bufs sp1)). length c = str_bufsz sp"
      proof (atomize(full), cases "length (last (str_bufs sp)) = str_bufsz sp")
        case full: True
        then have "sp1 = sp\<lparr>str_bufs := str_bufs sp @ [[]]\<rparr>" using G True grow_cases [of sp al] by (simp add: G_def)
        moreover have "c = last (str_bufs sp) \<or> c \<in> set (butlast (str_bufs sp))" if "c \<in> set (str_bufs sp)" for c
          using that append_butlast_last_id [OF ne(1)] by (metis in_set_conv_decomp_last butlast_append set_ConsD set_append Un_iff empty_iff empty_set)
        ultimately show "length (last (str_bufs sp1)) < str_bufsz sp \<and> (\<forall>c \<in> set (butlast (str_bufs sp1)). length c = str_bufsz sp)"
          using ok full by (auto simp: chunks_ok_def)
      next
        case False
        then show "length (last (str_bufs sp1)) < str_bufsz sp \<and> (\<forall>c \<in> set (butlast (str_bufs sp1)). length c = str_bufsz sp)"
          using G ok by (auto simp: chunks_ok_def G_def)
      qed
      define n where "n = min (str_bufsz sp1 - length (last (str_bufs sp1))) (length str)"
      define sp2 where "sp2 = sp1\<lparr>str_bufs := butlast (str_bufs sp1) @ [last (str_bufs sp1) @ take n str]\<rparr>"
      have n: "0 < n" "n \<le> length str" using lt(1) sp1(4) False \<open>str \<noteq> []\<close> by (auto simp: n_def)
      have c: "chunks_ok sp2" using lt ne n sp1(4) by (auto simp: chunks_ok_def sp2_def n_def)
      have g: "grown sp sp2" by (rule grown_trans [OF sp1(1) _ ne(1)]) (auto simp: grown_def sp2_def)
      have b: "blob sp2 = blob sp @ take n str"
        using concat_butlast_last [OF sp1(3)] sp1(2) by (simp add: blob_def sp2_def flip: append_assoc)
      have "length (drop n str) < length str" using n by simp
      then obtain ok' sp' al' where r: "copyin_loop sp2 (drop n str) al1 = Some (ok', sp', al')" "grown sp2 sp'"
        "ok' \<longrightarrow> blob sp' = blob sp2 @ drop n str \<and> chunks_ok sp'" "al1 = [] \<longrightarrow> ok' \<and> al' = []"
        using less.hyps [OF _ c, of "drop n str" al1] by blast
      have "copyin_loop sp str al = Some (ok', sp', al')"
        using \<open>str \<noteq> []\<close> True G r(1)
        by (subst copyin_loop.simps) (simp add: G_def [symmetric] n_def sp2_def Let_def)
      with r b gn grown_trans [OF g r(2) ne(1)] show ?thesis by auto
    qed
  qed
qed

lemma dt_strtab_copyin_correct:
  assumes "chunks_ok sp"
  obtains al' sp' where "dt_strtab_copyin sp str al = Some (True, sp', al')" "grown sp sp'"
    "blob sp' = blob sp @ str" "chunks_ok sp'" "al = [] \<longrightarrow> al' = []"
  | al' where "dt_strtab_copyin sp str al = Some (False, sp, al')" "al \<noteq> []"
proof -
  obtain ok sp' al' where c: "copyin_loop sp str al = Some (ok, sp', al')" "grown sp sp'"
    "ok \<longrightarrow> blob sp' = blob sp @ str \<and> chunks_ok sp'" "al = [] \<longrightarrow> ok \<and> al' = []" using copyin_loop_correct [OF assms] by blast
  have "str_bufs sp \<noteq> []" using assms by (simp add: chunks_ok_def)
  note gs = grown_shrink [OF c(2) this]
  show thesis using c gs that by (cases ok) (auto simp: dt_strtab_copyin_def Let_def)
qed

lemma dt_strtab_create_inv:
  "dt_strtab_create bufsz al = Some (Some sp, al') \<Longrightarrow> strtab_inv sp"
  by (auto simp: dt_strtab_create_def dt_strtab_grow_def Let_def strtab_inv_def chunks_ok_def put_byte_def
     dtrace_strbuckets_def blob_def split: prod.splits if_splits)

lemma blob_has_mono: "blob_has sp off s \<Longrightarrow> prefix (blob sp) (blob sp') \<Longrightarrow> blob_has sp' off s"
  unfolding blob_has_def by (cases "off \<le> length (blob sp)") (auto simp: prefix_def)

lemma node_ok_mono: "node_ok sp hp \<Longrightarrow> prefix (blob sp) (blob sp') \<Longrightarrow> str_bufsz sp' = str_bufsz sp \<Longrightarrow> node_ok sp' hp"
  unfolding node_ok_def using blob_has_mono by auto

lemma blob_length: "chunks_ok sp \<Longrightarrow>
  length (blob sp) = (length (str_bufs sp) - 1) * str_bufsz sp + length (last (str_bufs sp))"
proof -
  assume ok: "chunks_ok sp"
  then have ne: "str_bufs sp \<noteq> []" and f: "\<forall>c \<in> set (butlast (str_bufs sp)). length c = str_bufsz sp"
    by (auto simp: chunks_ok_def)
  have "map length (butlast (str_bufs sp)) = replicate (length (butlast (str_bufs sp))) (str_bufsz sp)"
    using f by (simp add: map_replicate_const [symmetric] del: length_butlast)
  then have "length (concat (butlast (str_bufs sp))) = length (butlast (str_bufs sp)) * str_bufsz sp"
    by (simp add: length_concat sum_list_replicate del: length_butlast)
  then show ?thesis using concat_butlast_last [OF ne] unfolding blob_def
    by (metis length_append length_butlast)
qed

lemma xindex_sound:
  assumes "dt_strtab_xindex sp (str @ [0]) hps = Some (Some off)" "\<forall>hp \<in> set hps. node_ok sp hp" "chunks_ok sp" "0 \<notin> set str"
  shows "blob_has sp off str"
  using assms
proof (induction hps)
  case (Cons hp hps)
  then obtain r where r: "dt_strtab_compare sp (sh_buf hp) (sh_data hp) (str @ [0]) (length (str @ [0])) = Some r"
    by (auto simp: bind_eq_Some_conv)
  have n: "node_ok sp hp" using Cons by simp
  show ?case
  proof (cases "r = 0")
    case True
    have "prefix (str @ [0]) (drop (sh_off hp) (blob sp))"
      using compare_sound [OF Cons.prems(3) r [unfolded True]] n Cons.prems(4)
      by (auto simp: node_ok_def nth_append in_set_conv_nth)
    then show ?thesis using Cons.prems True r by (simp add: blob_has_def)
  qed (use Cons r in auto)
qed simp

lemma grown_same: "grown sp sp' \<Longrightarrow> str_bufsz sp' = str_bufsz sp \<and> str_hash sp' = str_hash sp \<and>
    str_hashsz sp' = str_hashsz sp \<and> str_size sp' = str_size sp"
  by (auto simp: grown_def)

lemma strtab_h_less: "strtab_inv sp \<Longrightarrow> strtab_h sp str < length (str_hash sp)"
  by (simp add: strtab_inv_def strtab_h_def)

definition inserted :: "strtab \<Rightarrow> cstr \<Rightarrow> nat option \<Rightarrow> strtab \<Rightarrow> bool" where
  "inserted sp str r sp' \<longleftrightarrow> strtab_inv sp' \<and> prefix (blob sp) (blob sp') \<and>
     (case r of None \<Rightarrow> sp' = sp | Some off \<Rightarrow> blob_has sp' off str)"

lemma strtab_insert_new:
  assumes inv: "strtab_inv sp" and str: "0 \<notin> set str" "str \<noteq> []" and g: "grown sp sp1" "blob sp1 = blob sp @ str @ [0]" "chunks_ok sp1"
    and hp: "hp = \<lparr>sh_data = length (last (str_bufs sp)), sh_buf = length (str_bufs sp) - 1, sh_off = str_size sp, sh_len = l\<rparr>"
    and sp': "sp' = sp1\<lparr>str_nstrs := k, str_size := str_size sp1 + (length str + 1), str_hash := (str_hash sp1)[h := hp # str_hash sp1 ! h]\<rparr>"
    and h: "h < length (str_hash sp)"
  shows "inserted sp str (Some (sh_off hp)) sp'"
proof -
  have b: "blob sp' = blob sp @ str @ [0]" "chunks_ok sp'" using g by (auto simp: sp' blob_def chunks_ok_def)
  have s: "str_size sp = length (blob sp)" "chunks_ok sp" using inv by (auto simp: strtab_inv_def)
  have has: "blob_has sp' (sh_off hp) str" using str by (simp add: blob_has_def b hp s)
  have f: "str_bufsz sp' = str_bufsz sp" "str_hashsz sp' = str_hashsz sp" using grown_same [OF g(1)] by (auto simp: sp')
  have "node_ok sp' hp" using has str s blob_length [OF s(2)] f
    by (auto simp: node_ok_def hp chunks_ok_def)
  moreover have "node_ok sp' x" if "x \<in> set (concat (str_hash sp))" for x
    using that inv f b node_ok_mono [of sp x sp'] by (auto simp: strtab_inv_def)
  moreover have "set (concat (str_hash sp')) \<subseteq> insert hp (set (concat (str_hash sp)))"
    using grown_same [OF g(1)] h set_update_subset_insert [of "str_hash sp" h "hp # str_hash sp ! h"] by (fastforce simp: sp')
  ultimately have "\<forall>x \<in> set (concat (str_hash sp')). node_ok sp' x" by blast
  then show ?thesis using inv b has f grown_same [OF g(1)]
    by (auto simp: inserted_def strtab_inv_def sp' prefix_def)
qed

lemma insert_correct:
  assumes inv: "strtab_inv sp" and str: "0 \<notin> set str" and r: "dt_strtab_insert sp (Some str) al = Some (r, sp', al')"
  shows "inserted sp str r sp'"
proof -
  have ok: "chunks_ok sp" using inv by (simp add: strtab_inv_def)
  have same: "inserted sp str None sp" using inv by (simp add: inserted_def)
  obtain m al1 where m: "alloc_ok al = (m, al1)" by (cases "alloc_ok al")
  obtain m2 al2 where m2: "alloc_ok al1 = (m2, al2)" by (cases "alloc_ok al1")
  define h where "h = strtab_h sp str"
  have h: "h < length (str_hash sp)" unfolding h_def by (rule strtab_h_less [OF inv])
  have nodes: "\<forall>hp \<in> set (str_hash sp ! h). node_ok sp hp" using inv h by (auto simp: strtab_inv_def)
  consider "str = []" | "str \<noteq> []" "\<not> m"
    | off where "str \<noteq> []" m "dt_strtab_xindex sp (str @ [0]) (str_hash sp ! h) = Some (Some off)"
    | "str \<noteq> []" m "dt_strtab_xindex sp (str @ [0]) (str_hash sp ! h) = Some None" "\<not> m2"
    | "str \<noteq> []" m "dt_strtab_xindex sp (str @ [0]) (str_hash sp ! h) = Some None" m2
    using r m by (fastforce simp: dt_strtab_insert_def Let_def h_def bind_eq_Some_conv)
  then show ?thesis
  proof cases
    case 1
    then show ?thesis using r inv by (auto simp: dt_strtab_insert_def inserted_def blob_has_def strtab_inv_def)
  next
    case 3
    then have "blob_has sp off str" using xindex_sound [OF _ nodes ok str] by blast
    then show ?thesis using 3 r m inv by (auto simp: dt_strtab_insert_def Let_def h_def inserted_def)
  next
    case 5
    show ?thesis
    proof (rule dt_strtab_copyin_correct [OF ok, of "str @ [0]" al2])
      fix al3 sp1 assume "dt_strtab_copyin sp (str @ [0]) al2 = Some (True, sp1, al3)" "grown sp sp1"
        "blob sp1 = blob sp @ str @ [0]" "chunks_ok sp1" "al2 = [] \<longrightarrow> al3 = []"
      then show ?thesis using 5 r m m2 strtab_insert_new [OF inv str 5(1) _ _ _ refl refl h]
        by (auto simp: dt_strtab_insert_def Let_def h_def)
    next
      fix al3 assume "dt_strtab_copyin sp (str @ [0]) al2 = Some (False, sp, al3)" "al2 \<noteq> []"
      then show ?thesis using 5 r m m2 same by (auto simp: dt_strtab_insert_def Let_def h_def)
    qed
  qed (use r m m2 same in \<open>auto simp: dt_strtab_insert_def Let_def h_def\<close>)
qed

text \<open>Inserting a list of strings, one call after the other; the results in order.\<close>

fun inserts :: "strtab \<Rightarrow> cstr list \<Rightarrow> alloc \<Rightarrow> (nat option list \<times> strtab) option" where
  "inserts sp [] al = Some ([], sp)"
| "inserts sp (s # ss) al = do {
     (r, sp, al) \<leftarrow> dt_strtab_insert sp (Some s) al;
     (rs, sp) \<leftarrow> inserts sp ss al;
     Some (r # rs, sp) }"

lemma inserts_correct:
  "inserts sp ss al = Some (rs, sp') \<Longrightarrow> strtab_inv sp \<Longrightarrow> \<forall>s \<in> set ss. 0 \<notin> set s \<Longrightarrow>
   strtab_inv sp' \<and> prefix (blob sp) (blob sp') \<and> length rs = length ss \<and>
   (\<forall>i < length ss. \<forall>off. rs ! i = Some off \<longrightarrow> blob_has sp' off (ss ! i))"
proof (induction ss arbitrary: sp al rs)
  case (Cons s ss)
  then obtain r sp1 al1 rs' where i: "dt_strtab_insert sp (Some s) al = Some (r, sp1, al1)"
    "inserts sp1 ss al1 = Some (rs', sp')" "rs = r # rs'" by (auto simp: bind_eq_Some_conv)
  have a: "inserted sp s r sp1" using insert_correct [OF Cons.prems(2) _ i(1)] Cons.prems(3) by simp
  then have "strtab_inv sp1" by (simp add: inserted_def)
  with Cons.IH [OF i(2)] Cons.prems(3) have b: "strtab_inv sp'" "prefix (blob sp1) (blob sp')" "length rs' = length ss"
    "\<forall>i < length ss. \<forall>off. rs' ! i = Some off \<longrightarrow> blob_has sp' off (ss ! i)" by auto
  have "\<forall>i < length (s # ss). \<forall>off. rs ! i = Some off \<longrightarrow> blob_has sp' off ((s # ss) ! i)"
  proof (intro allI impI)
    fix k off assume "k < length (s # ss)" "rs ! k = Some off"
    then show "blob_has sp' off ((s # ss) ! k)"
      using a b blob_has_mono [of sp1 _ s sp'] i(3) by (cases k) (auto simp: inserted_def)
  qed
  moreover have "prefix (blob sp) (blob sp')" using a b(2) by (auto simp: inserted_def)
  ultimately show ?case using b i(3) by simp
qed simp

lemma write_loop_copy:
  "length buf = off + length (concat cs) + k \<Longrightarrow> \<forall>c \<in> set cs. c \<noteq> [] \<Longrightarrow>
   write_loop dt_strtab_copystr cs (int off) buf =
     Some (int (off + length (concat cs)), take off buf @ concat cs @ drop (off + length (concat cs)) buf)"
proof (induction cs arbitrary: off buf)
  case (Cons c cs)
  define buf' where "buf' = take off buf @ c @ drop (off + length c) buf"
  have "write_loop dt_strtab_copystr (c # cs) (int off) buf = write_loop dt_strtab_copystr cs (int (off + length c)) buf'"
    using Cons.prems by (simp add: dt_strtab_copystr_def buf'_def)
  also have "\<dots> = Some (int (off + length c + length (concat cs)), take (off + length c) buf' @ concat cs @ drop (off + length c + length (concat cs)) buf')"
    using Cons.prems by (intro Cons.IH) (auto simp: buf'_def)
  also have "take (off + length c) buf' = take off buf @ c" using Cons.prems by (simp add: buf'_def)
  also have "drop (off + length c + length (concat cs)) buf' = drop (off + length (concat (c # cs))) buf"
    using Cons.prems by (simp add: buf'_def ac_simps)
  finally show ?case by (simp add: ac_simps)
qed simp

lemma dt_strtab_write_correct:
  assumes "strtab_inv sp" "length buf = dt_strtab_size sp"
  shows "dt_strtab_write sp dt_strtab_copystr buf = Some (int (dt_strtab_size sp), blob sp)"
proof -
  have sz: "str_size sp = length (blob sp)" "str_size sp \<noteq> 0" and ok: "chunks_ok sp"
    using assms(1) by (auto simp: strtab_inv_def prefix_def)
  have ne: "\<forall>c \<in> set (str_bufs sp). c \<noteq> []"
  proof
    fix c assume "c \<in> set (str_bufs sp)"
    then have "c \<in> set (butlast (str_bufs sp)) \<or> c = last (str_bufs sp)" using ok
      by (metis append_butlast_last_id chunks_ok_def insert_iff list.simps(15) empty_set rotate1.simps(2) set_rotate1 Un_iff set_append singletonD)
    then show "c \<noteq> []" using ok by (auto simp: chunks_ok_def)
  qed
  have "write_loop dt_strtab_copystr (str_bufs sp) 0 buf = Some (int (length (blob sp)), blob sp)"
    using write_loop_copy [of buf 0 "str_bufs sp" 0] assms(2) sz ne by (simp add: dt_strtab_size_def blob_def)
  then show ?thesis using sz by (simp add: dt_strtab_write_def dt_strtab_size_def)
qed

lemma strncmp_total: "0 \<in> set a \<Longrightarrow> 0 \<in> set b \<Longrightarrow> \<exists>r. strncmp a b n = Some r"
  by (induction a b n rule: strncmp.induct) auto

lemma compare_total:
  assumes ok: "chunks_ok sp" and one: "length (str_bufs sp) = 1" and hp: "node_ok sp hp"
    and str: "0 \<notin> set str" "2 \<le> length str"
  shows "\<exists>r. dt_strtab_compare sp (sh_buf hp) (sh_data hp) (str @ [0]) (length (str @ [0])) = Some r"
proof -
  obtain c where c: "str_bufs sp = [c]" using one by (auto simp: length_Suc_conv)
  have cz: "0 < str_bufsz sp" "length c \<le> str_bufsz sp" using ok c by (auto simp: chunks_ok_def)
  obtain s where s: "s \<noteq> []" "0 \<notin> set s" "prefix (s @ [0]) (drop (sh_off hp) c)"
    using hp c by (auto simp: node_ok_def blob_has_def blob_def)
  then have "sh_off hp < length c" by (auto simp: prefix_def) (metis append_is_Nil_conv drop_eq_Nil2 leI)
  moreover have "sh_off hp = sh_buf hp * str_bufsz sp + sh_data hp" using hp by (simp add: node_ok_def)
  ultimately have b: "sh_buf hp = 0" "sh_off hp = sh_data hp" "sh_data hp < length c"
    using cz by (cases "sh_buf hp"; simp)+
  define d cur n where "d = sh_data hp" and "cur = drop d c" and "n = min (str_bufsz sp - d) (length (str @ [0]))"
  obtain rest where cur: "cur = s @ 0 # rest" using s(3) b by (auto simp: cur_def d_def prefix_def)
  have rd: "rd cur 0 = Some (cur ! 0)" "rd cur 1 = Some (cur ! 1)" "rd (str @ [0]) 0 = Some (str ! 0)" "rd (str @ [0]) 1 = Some (str ! 1)"
    using s(1) str(2) cur by (cases s; auto simp: rd_def nth_append Suc_le_eq)+
  have E: "dt_strtab_compare sp 0 d (str @ [0]) (length (str @ [0])) =
     (if cur ! 0 \<noteq> str ! 0 then Some (sint (cur ! 0) - sint (str ! 0))
      else if cur ! 1 \<noteq> str ! 1 then Some (sint (cur ! 1) - sint (str ! 1))
      else do { rv \<leftarrow> strncmp (drop 2 cur) (drop 2 (str @ [0])) n;
           if rv \<noteq> 0 then Some rv
           else dt_strtab_compare sp 0 (d + n) (drop n (str @ [0])) (length (str @ [0]) - n) })"
  proof -
    have d: "(if d = str_bufsz sp then (Suc 0, 0) else (0, d)) = (0, d)" using b cz by (simp add: d_def)
    have ne: "length (str @ [0]) \<noteq> 0" by simp
    show ?thesis using ne rd(3,4) rd(1,2) [unfolded cur_def] c unfolding n_def cur_def
      by (subst dt_strtab_compare.simps) (simp only: d Let_def prod.case if_False bind.bind_lunit nth_Cons_0 list.size not_le One_nat_def
        zero_less_Suc if_True simp_thms add_0_right if_not_P add_0)
  qed
  show ?thesis
  proof (cases "cur ! 0 = str ! 0 \<and> cur ! 1 = str ! 1")
    case True
    have "s ! 1 \<noteq> 0 \<and> 2 \<le> length s"
      using True s(1) str cur by (cases s; cases "List.tl s") (auto simp: in_set_conv_nth nth_append Suc_le_eq)
    then have "0 \<in> set (drop 2 cur)" by (simp add: cur)
    moreover have "0 \<in> set (drop 2 (str @ [0]))" using str(2) by simp
    ultimately obtain r where r: "strncmp (drop 2 cur) (drop 2 (str @ [0])) n = Some r" using strncmp_total by blast
    show ?thesis
    proof (cases "r = 0")
      case r0: True
      have nz: "\<forall>i < length (str @ [0]) - 1. (str @ [0]) ! i \<noteq> 0" using str(1) by (auto simp: nth_append in_set_conv_nth)
      have n: "n \<le> length (str @ [0])" by (simp add: n_def)
      note cc = compare_chunk [OF rd(1) _ rd(2) _ r [unfolded r0] nz n]
      have t: "n \<le> length cur" "take n cur = take n (str @ [0])" using cc rd(3,4) True by auto
      have "n = length (str @ [0])"
      proof (rule ccontr)
        assume "n \<noteq> length (str @ [0])"
        then have "n = str_bufsz sp - d" "n \<le> length str" by (auto simp: n_def)
        then have "take n cur = cur" using cz(2) by (simp add: cur_def)
        then have "0 \<in> set (take n str)" using t(2) \<open>n \<le> length str\<close> cur by (metis in_set_conv_decomp take_append diff_is_0_eq' take0 append_Nil2)
        then show False using str(1) by (auto dest: in_set_takeD)
      qed
      then show ?thesis using E True r r0 b by (simp add: dt_strtab_compare.simps d_def)
    qed (use E True r b in \<open>auto simp: d_def\<close>)
  qed (use E b in \<open>auto simp: d_def\<close>)
qed

lemma xindex_total:
  assumes ok: "chunks_ok sp" and one: "length (str_bufs sp) = 1" and str: "0 \<notin> set str" "2 \<le> length str"
  shows "\<forall>hp \<in> set hps. node_ok sp hp \<Longrightarrow> \<exists>r. dt_strtab_xindex sp (str @ [0]) hps = Some r"
proof (induction hps)
  case (Cons hp hps)
  then show ?case using compare_total [OF ok one _ str, of hp] by auto
qed simp

lemma insert_total:
  assumes inv: "strtab_inv sp" and one: "length (str_bufs sp) = 1" and str: "0 \<notin> set str" "2 \<le> length str"
    and fit: "str_size sp + length str + 1 \<le> str_bufsz sp"
  obtains r sp' al' where "dt_strtab_insert sp (Some str) al = Some (r, sp', al')"
    "length (str_bufs sp') = 1" "str_bufsz sp' = str_bufsz sp" "str_size sp' \<le> str_size sp + length str + 1"
    "al = [] \<longrightarrow> r \<noteq> None \<and> al' = []"
proof -
  have ok: "chunks_ok sp" and sz: "str_size sp = length (blob sp)" using inv by (auto simp: strtab_inv_def)
  define h where "h = strtab_h sp str"
  have h: "h < length (str_hash sp)" unfolding h_def by (rule strtab_h_less [OF inv])
  then have "\<forall>hp \<in> set (str_hash sp ! h). node_ok sp hp" using inv by (auto simp: strtab_inv_def)
  with xindex_total [OF ok one str] obtain x where x: "dt_strtab_xindex sp (str @ [0]) (str_hash sp ! h) = Some x" by blast
  have ne: "str \<noteq> []" using str(2) by auto
  obtain m al1 where m: "alloc_ok al = (m, al1)" by (cases "alloc_ok al")
  obtain m2 al2 where m2: "alloc_ok al1 = (m2, al2)" by (cases "alloc_ok al1")
  have al: "al = [] \<longrightarrow> m \<and> m2 \<and> al1 = []" using m m2 by auto
  consider "\<not> m" | m "x \<noteq> None" | m "x = None" "\<not> m2" | m "x = None" m2 by blast
  then show thesis
  proof cases
    case 4
    show thesis
    proof (rule dt_strtab_copyin_correct [OF ok, of "str @ [0]" al2])
      fix al3 sp1 assume c: "dt_strtab_copyin sp (str @ [0]) al2 = Some (True, sp1, al3)" "grown sp sp1"
        "blob sp1 = blob sp @ str @ [0]" "chunks_ok sp1" "al2 = [] \<longrightarrow> al3 = []"
      have "(length (str_bufs sp1) - 1) * str_bufsz sp1 + length (last (str_bufs sp1)) \<le> str_bufsz sp1"
        using blob_length [OF c(4)] c(3) fit sz grown_same [OF c(2)] by simp
      then have "length (str_bufs sp1) = 1" using c(4)
        by (cases "length (str_bufs sp1) - 1") (auto simp: chunks_ok_def Suc_le_eq le_Suc_eq)
      moreover have "dt_strtab_insert sp (Some str) al = Some (Some (str_size sp),
          sp1\<lparr>str_nstrs := str_nstrs sp1 + 1, str_size := str_size sp1 + (length str + 1),
            str_hash := (str_hash sp1)[h := \<lparr>sh_data = length (last (str_bufs sp)), sh_buf = length (str_bufs sp) - 1,
              sh_off = str_size sp, sh_len = length str\<rparr> # str_hash sp1 ! h]\<rparr>, al3)"
        using 4 m m2 ne x c(1) by (simp add: dt_strtab_insert_def Let_def h_def)
      ultimately show thesis using m m2 c(5) grown_same [OF c(2)] by (elim that) auto
    next
      fix al3 assume "dt_strtab_copyin sp (str @ [0]) al2 = Some (False, sp, al3)" "al2 \<noteq> []"
      moreover from this have "dt_strtab_insert sp (Some str) al = Some (None, sp, al3)"
        using 4 m m2 ne x by (simp add: dt_strtab_insert_def Let_def h_def)
      ultimately show thesis using m m2 one by (intro that) auto
    qed
  qed (use m m2 al ne x one that in \<open>auto simp: dt_strtab_insert_def Let_def h_def\<close>)
qed

lemma inserts_total:
  assumes "strtab_inv sp" "length (str_bufs sp) = 1" "\<forall>s \<in> set ss. 0 \<notin> set s \<and> 2 \<le> length s"
    "str_size sp + (\<Sum>s\<leftarrow>ss. length s + 1) \<le> str_bufsz sp"
  shows "\<exists>rs sp'. inserts sp ss al = Some (rs, sp') \<and> (al = [] \<longrightarrow> None \<notin> set rs)"
  using assms
proof (induction ss arbitrary: sp al)
  case (Cons s ss)
  then have s: "0 \<notin> set s" "2 \<le> length s" "str_size sp + length s + 1 \<le> str_bufsz sp" by auto
  obtain r sp1 al1 where i: "dt_strtab_insert sp (Some s) al = Some (r, sp1, al1)" "length (str_bufs sp1) = 1"
    "str_bufsz sp1 = str_bufsz sp" "str_size sp1 \<le> str_size sp + length s + 1" "al = [] \<longrightarrow> r \<noteq> None \<and> al1 = []"
    by (rule insert_total [OF Cons.prems(1,2) s])
  have "strtab_inv sp1" using insert_correct [OF Cons.prems(1) s(1) i(1)] by (simp add: inserted_def)
  with Cons.IH [of sp1 al1] Cons.prems i obtain rs sp' where "inserts sp1 ss al1 = Some (rs, sp')" "al1 = [] \<longrightarrow> None \<notin> set rs" by auto
  with i show ?case by auto
qed simp

text \<open>C15: strings put into a fresh table are all found in the block that \<open>dt_strtab_write\<close> with \<open>dt_strtab_copystr\<close>
  fills: the block has the size of the table, and at every offset that an insertion returned it holds
  the string of that insertion and its NUL byte, whatever was inserted later and however many
  chunks the strings needed; insertions that failed for want of memory do no harm.\<close>

theorem dt_strtab_roundtrip:
  assumes "dt_strtab_create bufsz al0 = Some (Some sp, al1)"
    and "inserts sp ss al = Some (rs, sp')" and "\<forall>s \<in> set ss. 0 \<notin> set s"
    and "length buf = dt_strtab_size sp'"
  shows "\<exists>out. dt_strtab_write sp' dt_strtab_copystr buf = Some (int (dt_strtab_size sp'), out) \<and>
    length out = dt_strtab_size sp' \<and> length rs = length ss \<and>
    (\<forall>i < length ss. \<forall>off. rs ! i = Some off \<longrightarrow> prefix (ss ! i @ [0]) (drop off out))"
proof -
  note inv = dt_strtab_create_inv [OF assms(1)]
  note r = inserts_correct [OF assms(2) inv assms(3)]
  then show ?thesis using dt_strtab_write_correct [OF _ assms(4)]
    by (auto simp: blob_has_def strtab_inv_def dt_strtab_size_def)
qed

definition strtab_demo :: "cstr list" where
  "strtab_demo = [[102, 111, 111], [98, 97], [102, 111, 111]]"

lemma create_one_chunk:
  "dt_strtab_create bufsz al = Some (Some sp, al') \<Longrightarrow> length (str_bufs sp) = 1 \<and> str_size sp = 1 \<and> str_bufsz sp = bufsz"
  by (auto simp: dt_strtab_create_def dt_strtab_grow_def Let_def put_byte_def split: prod.splits if_splits)

lemma create_all_ok: "0 < bufsz \<Longrightarrow> \<exists>sp. dt_strtab_create bufsz [] = Some (Some sp, [])"
  by (simp add: dt_strtab_create_def dt_strtab_grow_def)

theorem dt_strtab_roundtrip_witness:
  "\<exists>sp rs sp' out. dt_strtab_create 32 [] = Some (Some sp, []) \<and> inserts sp strtab_demo [] = Some (rs, sp') \<and> None \<notin> set rs \<and>
     dt_strtab_write sp' dt_strtab_copystr (replicate (dt_strtab_size sp') 7) = Some (int (dt_strtab_size sp'), out) \<and>
     (\<forall>i < 3. prefix (strtab_demo ! i @ [0]) (drop (the (rs ! i)) out))"
proof -
  obtain sp where sp: "dt_strtab_create 32 [] = Some (Some sp, [])" using create_all_ok [of 32] by auto
  obtain rs sp' where r: "inserts sp strtab_demo [] = Some (rs, sp')" "None \<notin> set rs"
    using inserts_total [OF dt_strtab_create_inv [OF sp], of strtab_demo "[]"] create_one_chunk [OF sp]
    by (auto simp: strtab_demo_def)
  have "\<forall>s \<in> set strtab_demo. 0 \<notin> set s" by (simp add: strtab_demo_def)
  from dt_strtab_roundtrip [OF sp r(1) this, of "replicate (dt_strtab_size sp') 7"] obtain out where
    "dt_strtab_write sp' dt_strtab_copystr (replicate (dt_strtab_size sp') 7) = Some (int (dt_strtab_size sp'), out)"
    "length rs = length strtab_demo"
    "\<forall>i < length strtab_demo. \<forall>off. rs ! i = Some off \<longrightarrow> prefix (strtab_demo ! i @ [0]) (drop off out)" by auto
  moreover have "length strtab_demo = 3" by (simp add: strtab_demo_def)
  ultimately show ?thesis using sp r by (metis nth_mem option.collapse)
qed

text \<open>C24: insertion never reads outside the strings it compares and always returns, whatever allocations fail,
  as long as all strings have two characters or more and fit into the first chunk; with enough memory
  every insertion succeeds.\<close>

theorem dt_strtab_insert_safe:
  assumes "dt_strtab_create bufsz al0 = Some (Some sp, al1)" "\<forall>s \<in> set ss. 0 \<notin> set s \<and> 2 \<le> length s"
    "1 + (\<Sum>s\<leftarrow>ss. length s + 1) \<le> bufsz"
  shows "\<exists>rs sp'. inserts sp ss al = Some (rs, sp') \<and> (al = [] \<longrightarrow> None \<notin> set rs)"
  using inserts_total [OF dt_strtab_create_inv [OF assms(1)] _ assms(2)] create_one_chunk [OF assms(1)] assms(3) by simp

theorem dt_strtab_insert_safe_witness:
  "\<exists>sp rs sp'. dt_strtab_create 32 [] = Some (Some sp, []) \<and> inserts sp strtab_demo [] = Some (rs, sp') \<and> None \<notin> set rs"
proof -
  obtain sp where sp: "dt_strtab_create 32 [] = Some (Some sp, [])" using create_all_ok [of 32] by auto
  then show ?thesis using dt_strtab_insert_safe [OF sp, of strtab_demo "[]"] by (auto simp: strtab_demo_def)
qed

text \<open>
  Without the bound on the length the comparison leaves the strings: the second insertion of a string
  of one character reads the byte behind the NUL of its copy.
\<close>

lemma dt_strtab_compare_overread:
  "dt_strtab_compare \<lparr>str_hash = [], str_hashsz = 1, str_bufs = [[0, 120, 0]], str_bufsz = 32, str_nstrs = 2, str_size = 3\<rparr>
     0 1 [120, 0] 2 = None"
  by (subst dt_strtab_compare.simps) (simp add: rd_def min_def numeral_2_eq_2)

end
