(* ===== verification/DTRegset.thy ===== *)
theory DTRegset
  imports DTPrelude "HOL-Library.Monad_Syntax"
begin

unbundle bit_operations_syntax

text \<open>
  The register allocator of \<open>libdtrace/dt_regset.c\<close> with the bitmaps of \<open>include/sys/bitmap.h\<close>
  it keeps its state in.  The two spill functions are parameters of the allocator, as in
  the code; they work on a state \<open>'s\<close> of the client (the instruction list of the code generator).
  An assertion that fails is \<open>None\<close>; a register -1 is \<open>None\<close> too, inside the result.

  Proved: the bitmap operations act on single bits, the allocator keeps its bitmaps
  well-formed, and a client that brackets its allocations finds every register it held
  before with the value it had, however many registers were spilled in between.
\<close>

section \<open>Bitmaps\<close>

definition BT_ULSHIFT :: nat where "BT_ULSHIFT = 6"

definition BT_NBIPUL :: nat where "BT_NBIPUL = push_bit BT_ULSHIFT 1"

definition BT_ULMASK :: nat where "BT_ULMASK = BT_NBIPUL - 1"

definition BT_WIM :: "u64 list \<Rightarrow> nat \<Rightarrow> u64" where
  "BT_WIM bitmap bitindex = bitmap ! drop_bit BT_ULSHIFT bitindex"

definition BT_BIW :: "nat \<Rightarrow> u64" where
  "BT_BIW bitindex = push_bit (bitindex AND BT_ULMASK) 1"

definition BT_BITOUL :: "nat \<Rightarrow> nat" where
  "BT_BITOUL nbits = (nbits + BT_NBIPUL - 1) div BT_NBIPUL"

definition BT_TEST :: "u64 list \<Rightarrow> nat \<Rightarrow> bool" where
  "BT_TEST bitmap bitindex \<longleftrightarrow> BT_WIM bitmap bitindex AND BT_BIW bitindex \<noteq> 0"

definition BT_SET :: "u64 list \<Rightarrow> nat \<Rightarrow> u64 list" where
  "BT_SET bitmap bitindex =
     bitmap[drop_bit BT_ULSHIFT bitindex := BT_WIM bitmap bitindex OR BT_BIW bitindex]"

definition BT_CLEAR :: "u64 list \<Rightarrow> nat \<Rightarrow> u64 list" where
  "BT_CLEAR bitmap bitindex =
     bitmap[drop_bit BT_ULSHIFT bitindex := BT_WIM bitmap bitindex AND NOT (BT_BIW bitindex)]"

lemma bt_index: "drop_bit BT_ULSHIFT i = i div 64" "i AND BT_ULMASK = i mod 64"
  "BT_NBIPUL = 64" "BT_BITOUL n = (n + 63) div 64"
proof -
  have "BT_ULMASK = mask 6" by (simp add: BT_ULMASK_def BT_NBIPUL_def BT_ULSHIFT_def mask_eq_exp_minus_1)
  then show "i AND BT_ULMASK = i mod 64" using take_bit_eq_mask [of 6 i] by (simp add: take_bit_eq_mod)
qed (auto simp: BT_ULSHIFT_def drop_bit_eq_div BT_NBIPUL_def BT_BITOUL_def)

lemma bt_test_bit: "BT_TEST m i \<longleftrightarrow> bit (m ! (i div 64)) (i mod 64)"
  by (simp add: BT_TEST_def BT_WIM_def BT_BIW_def bt_index and_exp_eq_0_iff_not_bit)

lemma bt_same: "i div 64 = j div 64 \<Longrightarrow> i mod 64 = j mod 64 \<longleftrightarrow> i = (j :: nat)"
  by (metis mod_div_mult_eq)

lemma bt_set [simp]:
  "i div 64 < length m \<Longrightarrow> BT_TEST (BT_SET m i) j \<longleftrightarrow> j = i \<or> BT_TEST m j"
  "length (BT_SET m i) = length m"
  unfolding bt_test_bit
  by (auto simp: BT_SET_def BT_WIM_def BT_BIW_def bt_index nth_list_update bit_simps bt_same)

lemma bt_clear [simp]:
  "i div 64 < length m \<Longrightarrow> BT_TEST (BT_CLEAR m i) j \<longleftrightarrow> j \<noteq> i \<and> BT_TEST m j"
  "length (BT_CLEAR m i) = length m"
  unfolding bt_test_bit
  by (auto simp: BT_CLEAR_def BT_WIM_def BT_BIW_def bt_index nth_list_update bit_simps dest: bt_same)

lemma bt_clear_set: "i div 64 < length m \<Longrightarrow> \<not> BT_TEST m i \<Longrightarrow> BT_CLEAR (BT_SET m i) i = m"
proof -
  assume i: "i div 64 < length m" and "\<not> BT_TEST m i"
  then have "(m ! (i div 64) OR 2 ^ (i mod 64)) AND NOT (2 ^ (i mod 64)) = m ! (i div 64)"
    unfolding bt_test_bit by (auto simp: bit_simps intro!: bit_word_eqI)
  with i show ?thesis by (simp add: BT_CLEAR_def BT_SET_def BT_WIM_def BT_BIW_def bt_index)
qed
section \<open>The register set\<close>

record 's regset =
  dr_size :: nat
  dr_spill_store :: "nat \<Rightarrow> 's \<Rightarrow> 's"
  dr_spill_load :: "nat \<Rightarrow> 's \<Rightarrow> 's"
  dr_active :: "u64 list"
  dr_spilled :: "u64 list"

definition dt_regset_reset :: "'s regset \<Rightarrow> 's regset" where
  "dt_regset_reset drp =
     drp\<lparr>dr_active := replicate (BT_BITOUL (dr_size drp)) 0,
         dr_spilled := replicate (BT_BITOUL (dr_size drp)) 0\<rparr>"

text \<open>The three \<open>malloc\<close> calls; both bitmaps are requested before either is tested.\<close>

definition dt_regset_create ::
  "nat \<Rightarrow> (nat \<Rightarrow> 's \<Rightarrow> 's) \<Rightarrow> (nat \<Rightarrow> 's \<Rightarrow> 's) \<Rightarrow> alloc \<Rightarrow> 's regset option \<times> alloc" where
  "dt_regset_create nregs stf ldf al =
     (let (ok, al) = alloc_ok al in
      if \<not> ok then (None, al)
      else
        (let nregs = nregs + 1;
             (a, al) = alloc_ok al;
             (b, al) = alloc_ok al
         in if \<not> a \<or> \<not> b then (None, al)
            else (Some (dt_regset_reset
                    \<lparr>dr_size = nregs, dr_spill_store = stf, dr_spill_load = ldf,
                     dr_active = [], dr_spilled = []\<rparr>), al)))"

fun find_clear :: "u64 list \<Rightarrow> nat \<Rightarrow> nat option" where
  "find_clear m 0 = None"
| "find_clear m (Suc reg) = (if \<not> BT_TEST m reg then Some reg else find_clear m reg)"

definition dt_regset_alloc :: "'s regset \<Rightarrow> 's \<Rightarrow> nat option \<times> 's regset \<times> 's" where
  "dt_regset_alloc drp s =
     (case find_clear (dr_active drp) (dr_size drp) of
        Some reg \<Rightarrow> (Some reg, drp\<lparr>dr_active := BT_SET (dr_active drp) reg\<rparr>, s)
      | None \<Rightarrow>
          (case find_clear (dr_spilled drp) (dr_size drp) of
             Some reg \<Rightarrow> (Some reg, drp\<lparr>dr_spilled := BT_SET (dr_spilled drp) reg\<rparr>,
                          dr_spill_store drp reg s)
           | None \<Rightarrow> (None, drp, s)))"

text \<open>The boolean of \<open>dt_regset_xalloc\<close> is whether the result is 0.\<close>

definition dt_regset_xalloc :: "'s regset \<Rightarrow> nat \<Rightarrow> 's \<Rightarrow> (bool \<times> 's regset \<times> 's) option" where
  "dt_regset_xalloc drp reg s =
     (if \<not> reg < dr_size drp then None
      else if BT_TEST (dr_active drp) reg then
        if BT_TEST (dr_spilled drp) reg then Some (False, drp, s)
        else Some (True, drp\<lparr>dr_spilled := BT_SET (dr_spilled drp) reg,
                             dr_active := BT_SET (dr_active drp) reg\<rparr>,
                   dr_spill_store drp reg s)
      else Some (True, drp\<lparr>dr_active := BT_SET (dr_active drp) reg\<rparr>, s))"

definition dt_regset_free :: "'s regset \<Rightarrow> nat \<Rightarrow> 's \<Rightarrow> ('s regset \<times> 's) option" where
  "dt_regset_free drp reg s =
     (if \<not> reg < dr_size drp \<or> \<not> BT_TEST (dr_active drp) reg then None
      else if BT_TEST (dr_spilled drp) reg then
        Some (drp\<lparr>dr_spilled := BT_CLEAR (dr_spilled drp) reg\<rparr>, dr_spill_load drp reg s)
      else Some (drp\<lparr>dr_active := BT_CLEAR (dr_active drp) reg\<rparr>, s))"

text \<open>The roll-back \<open>while (--reg > 0) dt_regset_free(drp, reg)\<close>.\<close>

fun unalloc_args :: "'s regset \<Rightarrow> nat \<Rightarrow> 's \<Rightarrow> ('s regset \<times> 's) option" where
  "unalloc_args drp 0 s = Some (drp, s)"
| "unalloc_args drp (Suc 0) s = Some (drp, s)"
| "unalloc_args drp (Suc (Suc reg)) s = do {
     (drp, s) \<leftarrow> dt_regset_free drp (Suc reg) s;
     unalloc_args drp (Suc reg) s }"

fun xalloc_from :: "'s regset \<Rightarrow> nat list \<Rightarrow> 's \<Rightarrow> (bool \<times> 's regset \<times> 's) option" where
  "xalloc_from drp [] s = Some (True, drp, s)"
| "xalloc_from drp (r # rs) s = do {
     (ok, drp, s) \<leftarrow> dt_regset_xalloc drp r s;
     if \<not> ok then do { (drp, s) \<leftarrow> unalloc_args drp r s; Some (False, drp, s) }
     else xalloc_from drp rs s }"

definition dt_regset_xalloc_args :: "'s regset \<Rightarrow> 's \<Rightarrow> (bool \<times> 's regset \<times> 's) option" where
  "dt_regset_xalloc_args drp s = xalloc_from drp [1..<6] s"

fun free_regs :: "'s regset \<Rightarrow> nat list \<Rightarrow> 's \<Rightarrow> ('s regset \<times> 's) option" where
  "free_regs drp [] s = Some (drp, s)"
| "free_regs drp (r # rs) s = do { (drp, s) \<leftarrow> dt_regset_free drp r s; free_regs drp rs s }"

definition dt_regset_free_args :: "'s regset \<Rightarrow> 's \<Rightarrow> ('s regset \<times> 's) option" where
  "dt_regset_free_args drp s = free_regs drp [1..<6] s"

definition dt_regset_dump :: "'s regset \<Rightarrow> string" where
  "dt_regset_dump drp =
     map (\<lambda>reg. if BT_TEST (dr_active drp) reg then CHR ''x''
               else if BT_TEST (dr_spilled drp) reg then CHR ''s'' else CHR ''.'')
       [0..<dr_size drp]"

section \<open>Well-formed register sets\<close>

definition regset_ok :: "'s regset \<Rightarrow> bool" where
  "regset_ok drp \<longleftrightarrow>
     length (dr_active drp) = BT_BITOUL (dr_size drp) \<and> length (dr_spilled drp) = BT_BITOUL (dr_size drp) \<and>
     (\<forall>r < dr_size drp. BT_TEST (dr_spilled drp) r \<longrightarrow> BT_TEST (dr_active drp) r)"

abbreviation active :: "'s regset \<Rightarrow> nat \<Rightarrow> bool" where
  "active drp r \<equiv> BT_TEST (dr_active drp) r"

abbreviation spilled :: "'s regset \<Rightarrow> nat \<Rightarrow> bool" where
  "spilled drp r \<equiv> BT_TEST (dr_spilled drp) r"

lemma regset_okD:
  assumes "regset_ok drp" "r < dr_size drp"
  shows "r div 64 < length (dr_active drp)" "r div 64 < length (dr_spilled drp)" "spilled drp r \<Longrightarrow> active drp r"
  using assms by (auto simp: regset_ok_def bt_index)

lemma bt_test_zeros [simp]: "i < 64 * n \<Longrightarrow> \<not> BT_TEST (replicate n 0) i"
  by (simp add: bt_test_bit less_mult_imp_div_less mult.commute)

lemma dt_regset_reset_ok: "regset_ok (dt_regset_reset drp) \<and> (\<forall>r < dr_size drp. \<not> active (dt_regset_reset drp) r \<and> \<not> spilled (dt_regset_reset drp) r)"
proof -
  have "r < 64 * BT_BITOUL (dr_size drp)" if "r < dr_size drp" for r
    using that by (simp add: bt_index)
  then show ?thesis by (auto simp: dt_regset_reset_def regset_ok_def)
qed

lemma dt_regset_create_ok:
  "dt_regset_create n stf ldf al = (Some drp, al') \<Longrightarrow>
   regset_ok drp \<and> dr_size drp = n + 1 \<and> dr_spill_store drp = stf \<and> dr_spill_load drp = ldf \<and>
   (\<forall>r < n + 1. \<not> active drp r \<and> \<not> spilled drp r)"
  using dt_regset_reset_ok [of "\<lparr>dr_size = n + 1, dr_spill_store = stf, dr_spill_load = ldf, dr_active = [], dr_spilled = []\<rparr>"]
  by (auto simp: dt_regset_create_def Let_def dt_regset_reset_def split: prod.splits if_splits)

lemma find_clear_Some: "find_clear m n = Some r \<Longrightarrow> r < n \<and> \<not> BT_TEST m r \<and> (\<forall>q. r < q \<and> q < n \<longrightarrow> BT_TEST m q)"
  by (induction n) (auto split: if_splits simp: less_Suc_eq)

lemma find_clear_None: "find_clear m n = None \<longleftrightarrow> (\<forall>q < n. BT_TEST m q)"
  by (induction n) (auto simp: less_Suc_eq)

text \<open>What each operation does to the two sets; the sets of the result are those of the argument but for one bit.\<close>

lemma dt_regset_alloc_cases:
  assumes "regset_ok drp" "dt_regset_alloc drp s = (r, drp', s')"
  obtains (fresh) q where "r = Some q" "q < dr_size drp" "\<not> active drp q" "\<not> spilled drp q"
    "drp' = drp\<lparr>dr_active := BT_SET (dr_active drp) q\<rparr>" "s' = s" "\<forall>p. q < p \<and> p < dr_size drp \<longrightarrow> active drp p"
  | (spill) q where "r = Some q" "q < dr_size drp" "\<forall>p < dr_size drp. active drp p" "\<not> spilled drp q"
    "drp' = drp\<lparr>dr_spilled := BT_SET (dr_spilled drp) q\<rparr>" "s' = dr_spill_store drp q s"
  | (none) "r = None" "drp' = drp" "s' = s" "\<forall>p < dr_size drp. active drp p \<and> spilled drp p"
proof (cases "find_clear (dr_active drp) (dr_size drp)")
  case (Some q)
  then show ?thesis using assms find_clear_Some [OF Some] regset_okD(3) [OF assms(1), of q]
    by (intro fresh) (auto simp: dt_regset_alloc_def)
next
  case None
  note a = None and all = None [unfolded find_clear_None]
  show ?thesis
  proof (cases "find_clear (dr_spilled drp) (dr_size drp)")
    case (Some q)
    then show ?thesis using a all assms find_clear_Some [OF Some] by (intro spill) (auto simp: dt_regset_alloc_def)
  next
    case None
    then show ?thesis using a all assms(2) None [unfolded find_clear_None] by (intro none) (auto simp: dt_regset_alloc_def)
  qed
qed

lemma dt_regset_alloc_ok:
  assumes "regset_ok drp" "dt_regset_alloc drp s = (r, drp', s')"
  shows "regset_ok drp'"
  by (rule dt_regset_alloc_cases [OF assms]) (use assms(1) regset_okD [OF assms(1)] in \<open>auto simp: regset_ok_def\<close>)

lemma dt_regset_xalloc_ok:
  assumes "regset_ok drp" "dt_regset_xalloc drp r s = Some (ok, drp', s')"
  shows "regset_ok drp'"
  using assms regset_okD [OF assms(1), of r] by (auto simp: dt_regset_xalloc_def regset_ok_def split: if_splits)

lemma dt_regset_free_ok:
  assumes "regset_ok drp" "dt_regset_free drp r s = Some (drp', s')"
  shows "regset_ok drp'"
  using assms regset_okD [OF assms(1), of r] by (auto simp: dt_regset_free_def regset_ok_def split: if_splits)

section \<open>Clients that bracket their allocations\<close>

text \<open>
  A client sees registers and, through the spill functions, one slot per register: the register
  file and the slots are the two components of a bank.  \<open>uses\<close> is what a client that
  brackets its allocations can do: take a register, write to it, work on, give it back; or take
  the argument registers 1 to 5 together (and register 0 behind them) for a call that changes
  them, and give them back.
\<close>

type_synonym 'v bank = "(nat \<Rightarrow> 'v) \<times> (nat \<Rightarrow> 'v)"

definition bank_store :: "nat \<Rightarrow> 'v bank \<Rightarrow> 'v bank" where
  "bank_store r b = (fst b, (snd b)(r := fst b r))"

definition bank_load :: "nat \<Rightarrow> 'v bank \<Rightarrow> 'v bank" where
  "bank_load r b = ((fst b)(r := snd b r), snd b)"

inductive uses :: "'v bank regset \<Rightarrow> 'v bank \<Rightarrow> 'v bank regset \<Rightarrow> 'v bank \<Rightarrow> bool" where
  none: "uses drp b drp b"
| seq: "uses drp b drp1 b1 \<Longrightarrow> uses drp1 b1 drp2 b2 \<Longrightarrow> uses drp b drp2 b2"
| one: "dt_regset_alloc drp b = (Some r, drp1, b1) \<Longrightarrow> uses drp1 ((fst b1)(r := v), snd b1) drp2 b2 \<Longrightarrow>
    dt_regset_free drp2 r b2 = Some (drp3, b3) \<Longrightarrow> uses drp b drp3 b3"
| specific: "dt_regset_xalloc drp r b = Some (True, drp1, b1) \<Longrightarrow> uses drp1 ((fst b1)(r := v), snd b1) drp2 b2 \<Longrightarrow>
    dt_regset_free drp2 r b2 = Some (drp3, b3) \<Longrightarrow> uses drp b drp3 b3"
| args: "dt_regset_xalloc_args drp b = Some (True, drp1, b1) \<Longrightarrow>
    uses drp1 (\<lambda>r. if 1 \<le> r \<and> r \<le> 5 then g r else fst b1 r, snd b1) drp2 b2 \<Longrightarrow>
    dt_regset_free_args drp2 b2 = Some (drp3, b3) \<Longrightarrow> uses drp b drp3 b3"

text \<open>The client's view: the registers in use and the values spilled from beneath them.\<close>

definition same_view :: "'v bank regset \<Rightarrow> 'v bank \<Rightarrow> 'v bank \<Rightarrow> bool" where
  "same_view drp b b' \<longleftrightarrow>
     (\<forall>r < dr_size drp. (active drp r \<longrightarrow> fst b' r = fst b r) \<and> (spilled drp r \<longrightarrow> snd b' r = snd b r))"

lemma same_view_refl [simp]: "same_view drp b b"
  by (simp add: same_view_def)

lemma same_view_trans: "same_view drp b b1 \<Longrightarrow> same_view drp b1 b2 \<Longrightarrow> same_view drp b b2"
  by (simp add: same_view_def)

definition bank_set :: "'v bank regset \<Rightarrow> bool" where
  "bank_set drp \<longleftrightarrow> regset_ok drp \<and> dr_spill_store drp = bank_store \<and> dr_spill_load drp = bank_load"

text \<open>A specific register: taken (directly, or spilled first), used, given back.\<close>

lemma take_and_free:
  assumes "bank_set drp" "r < dr_size drp"
    and t: "\<not> active drp r \<and> drp1 = drp\<lparr>dr_active := BT_SET (dr_active drp) r\<rparr> \<and> b1 = b \<or>
       active drp r \<and> \<not> spilled drp r \<and> drp1 = drp\<lparr>dr_spilled := BT_SET (dr_spilled drp) r\<rparr> \<and> b1 = bank_store r b"
    and b2: "\<forall>q < dr_size drp. q \<noteq> r \<longrightarrow> (active drp q \<longrightarrow> fst b2 q = fst b1 q) \<and> (spilled drp q \<longrightarrow> snd b2 q = snd b1 q)"
      "spilled drp1 r \<longrightarrow> snd b2 r = snd b1 r"
    and f: "dt_regset_free drp1 r b2 = Some (drp3, b3)"
  shows "drp3 = drp \<and> same_view drp b b3"
proof -
  have ok: "regset_ok drp" and ld: "dr_spill_load drp = bank_load" using assms(1) by (auto simp: bank_set_def)
  note i = regset_okD [OF ok assms(2)]
  from t show ?thesis
  proof (elim disjE conjE)
    assume a: "\<not> active drp r" "drp1 = drp\<lparr>dr_active := BT_SET (dr_active drp) r\<rparr>" "b1 = b"
    moreover have "\<not> spilled drp r" using a(1) i(3) by blast
    ultimately show ?thesis using f b2 i bt_clear_set [OF i(1) a(1)] assms(2)
      by (auto simp: dt_regset_free_def same_view_def)
  next
    assume a: "active drp r" "\<not> spilled drp r" "drp1 = drp\<lparr>dr_spilled := BT_SET (dr_spilled drp) r\<rparr>" "b1 = bank_store r b"
    then show ?thesis using f b2 i bt_clear_set [OF i(2) a(2)] assms(2) ld
      by (auto simp: dt_regset_free_def same_view_def bank_load_def bank_store_def)
  qed
qed

lemma bt_set_idem: "i div 64 < length m \<Longrightarrow> BT_TEST m i \<Longrightarrow> BT_SET m i = m"
proof -
  assume i: "i div 64 < length m" and "BT_TEST m i"
  then have "m ! (i div 64) OR 2 ^ (i mod 64) = m ! (i div 64)"
    unfolding bt_test_bit by (auto simp: bit_simps intro!: bit_word_eqI)
  with i show ?thesis by (simp add: BT_SET_def BT_WIM_def BT_BIW_def bt_index)
qed

lemma bt_ext:
  assumes "length m = length m'" "\<And>i. BT_TEST m i = BT_TEST m' i"
  shows "m = m'"
proof (rule nth_equalityI [OF assms(1)])
  fix k
  have "bit (m ! k) j = bit (m' ! k) j" if "j < 64" for j
    using assms(2) [of "64 * k + j"] that by (simp add: bt_test_bit)
  then show "m ! k = m' ! k" by (auto intro: bit_word_eqI)
qed

lemma xalloc_cases:
  assumes "bank_set drp" "dt_regset_xalloc drp r b = Some (True, drp1, b1)"
  shows "r < dr_size drp" "\<not> active drp r \<and> drp1 = drp\<lparr>dr_active := BT_SET (dr_active drp) r\<rparr> \<and> b1 = b \<or>
       active drp r \<and> \<not> spilled drp r \<and> drp1 = drp\<lparr>dr_spilled := BT_SET (dr_spilled drp) r\<rparr> \<and> b1 = bank_store r b"
proof -
  show r: "r < dr_size drp" using assms(2) by (auto simp: dt_regset_xalloc_def split: if_splits)
  have ok: "regset_ok drp" using assms(1) by (simp add: bank_set_def)
  show "\<not> active drp r \<and> drp1 = drp\<lparr>dr_active := BT_SET (dr_active drp) r\<rparr> \<and> b1 = b \<or>
       active drp r \<and> \<not> spilled drp r \<and> drp1 = drp\<lparr>dr_spilled := BT_SET (dr_spilled drp) r\<rparr> \<and> b1 = bank_store r b"
    using assms r bt_set_idem [OF regset_okD(1) [OF ok r]]
    by (auto simp: dt_regset_xalloc_def bank_set_def split: if_splits)
qed

lemma bank_set_take:
  assumes "bank_set drp" "r < dr_size drp"
    and "\<not> active drp r \<and> drp1 = drp\<lparr>dr_active := BT_SET (dr_active drp) r\<rparr> \<and> b1 = b \<or>
       active drp r \<and> \<not> spilled drp r \<and> drp1 = drp\<lparr>dr_spilled := BT_SET (dr_spilled drp) r\<rparr> \<and> b1 = bank_store r b"
  shows "bank_set drp1" "dr_size drp1 = dr_size drp"
    "active drp1 q \<longleftrightarrow> active drp q \<or> q = r" "spilled drp1 q \<longleftrightarrow> spilled drp q \<or> q = r \<and> active drp r"
    "fst b1 = fst b" "snd b1 = (if active drp r then (snd b)(r := fst b r) else snd b)"
proof -
  have ok: "regset_ok drp" using assms(1) by (simp add: bank_set_def)
  note i = regset_okD [OF ok assms(2)]
  show "bank_set drp1" using assms i by (auto simp: bank_set_def regset_ok_def)
qed (use assms regset_okD [of drp r] in \<open>auto simp: bank_set_def bank_store_def\<close>)

text \<open>The argument registers, taken in turn and given back in the same order.\<close>

lemma xalloc_from_takes:
  assumes "distinct rs" "bank_set drp" "xalloc_from drp rs b = Some (True, drp1, b1)"
  shows "bank_set drp1 \<and> dr_size drp1 = dr_size drp \<and> (\<forall>r \<in> set rs. r < dr_size drp \<and> \<not> spilled drp r) \<and>
    (\<forall>q. active drp1 q \<longleftrightarrow> active drp q \<or> q \<in> set rs) \<and>
    (\<forall>q. spilled drp1 q \<longleftrightarrow> spilled drp q \<or> q \<in> set rs \<and> active drp q) \<and>
    fst b1 = fst b \<and> (\<forall>q. snd b1 q = (if q \<in> set rs \<and> active drp q then fst b q else snd b q))"
  using assms
proof (induction rs arbitrary: drp b)
  case (Cons r rs)
  obtain drp0 b0 where x: "dt_regset_xalloc drp r b = Some (True, drp0, b0)" and y: "xalloc_from drp0 rs b0 = Some (True, drp1, b1)"
    using Cons.prems(3) by (auto simp: bind_eq_Some_conv split: if_splits)
  note c = xalloc_cases [OF Cons.prems(2) x]
  note t = bank_set_take [OF Cons.prems(2) c]
  have n: "\<not> spilled drp r" using c(2) regset_okD(3) [of drp r] Cons.prems(2) c(1) by (auto simp: bank_set_def)
  have "r \<notin> set rs" "distinct rs" using Cons.prems(1) by auto
  then show ?case using Cons.IH [OF _ t(1) y] t c(1) n by auto
qed simp

lemma free_regs_frees:
  assumes "distinct rs" "bank_set drp" "free_regs drp rs b = Some (drp3, b3)"
  shows "bank_set drp3 \<and> dr_size drp3 = dr_size drp \<and>
    (\<forall>q. active drp3 q \<longleftrightarrow> active drp q \<and> \<not> (q \<in> set rs \<and> \<not> spilled drp q)) \<and>
    (\<forall>q. spilled drp3 q \<longleftrightarrow> spilled drp q \<and> q \<notin> set rs) \<and>
    (\<forall>q. fst b3 q = (if q \<in> set rs \<and> spilled drp q then snd b q else fst b q)) \<and> snd b3 = snd b"
  using assms
proof (induction rs arbitrary: drp b)
  case (Cons r rs)
  obtain drp0 b0 where x: "dt_regset_free drp r b = Some (drp0, b0)" and y: "free_regs drp0 rs b0 = Some (drp3, b3)"
    using Cons.prems(3) by (auto simp: bind_eq_Some_conv)
  have r: "r < dr_size drp" using x by (auto simp: dt_regset_free_def split: if_splits)
  have ok: "regset_ok drp" using Cons.prems(2) by (simp add: bank_set_def)
  note i = regset_okD [OF ok r]
  have s: "bank_set drp0" "dr_size drp0 = dr_size drp"
    using x Cons.prems(2) dt_regset_free_ok [OF ok x] by (auto simp: bank_set_def dt_regset_free_def split: if_splits)
  have t: "active drp0 q \<longleftrightarrow> active drp q \<and> \<not> (q = r \<and> \<not> spilled drp r)" "spilled drp0 q \<longleftrightarrow> spilled drp q \<and> q \<noteq> r"
    "fst b0 = (if spilled drp r then (fst b)(r := snd b r) else fst b)" "snd b0 = snd b" for q
    using x i Cons.prems(2) by (auto simp: dt_regset_free_def bank_set_def bank_load_def split: if_splits)
  have "r \<notin> set rs" "distinct rs" using Cons.prems(1) by auto
  then show ?case using Cons.IH [OF _ s(1) y] t s(2) by auto
qed simp

lemma bank_set_eqI:
  assumes "bank_set drp" "bank_set drp'" "dr_size drp' = dr_size drp" "\<And>q. active drp' q = active drp q" "\<And>q. spilled drp' q = spilled drp q"
  shows "drp' = drp"
  using assms bt_ext [of "dr_active drp'" "dr_active drp"] bt_ext [of "dr_spilled drp'" "dr_spilled drp"]
  by (auto simp: bank_set_def regset_ok_def)

lemma uses_keeps: "uses drp b drp' b' \<Longrightarrow> bank_set drp \<Longrightarrow> drp' = drp \<and> same_view drp b b'"
proof (induction rule: uses.induct)
  case (seq drp b drp1 b1 drp2 b2)
  then show ?case using same_view_trans by blast
next
  case (one drp b r drp1 b1 v drp2 b2 drp3 b3)
  have ok: "regset_ok drp" using one.prems by (simp add: bank_set_def)
  have c: "r < dr_size drp" "\<not> active drp r \<and> drp1 = drp\<lparr>dr_active := BT_SET (dr_active drp) r\<rparr> \<and> b1 = b \<or>
       active drp r \<and> \<not> spilled drp r \<and> drp1 = drp\<lparr>dr_spilled := BT_SET (dr_spilled drp) r\<rparr> \<and> b1 = bank_store r b"
    by (rule dt_regset_alloc_cases [OF ok one.hyps(1)]; use one.prems in \<open>auto simp: bank_set_def\<close>)+
  note t = bank_set_take [OF one.prems c]
  have "drp2 = drp1" "same_view drp1 ((fst b1)(r := v), snd b1) b2" using one.IH [OF t(1)] by auto
  then show ?case using take_and_free [OF one.prems c _ _ one.hyps(3) [unfolded \<open>drp2 = drp1\<close>]] t c(1)
    by (simp add: same_view_def)
next
  case (specific drp r b drp1 b1 v drp2 b2 drp3 b3)
  note c = xalloc_cases [OF specific.prems specific.hyps(1)]
  note t = bank_set_take [OF specific.prems c]
  have "drp2 = drp1" "same_view drp1 ((fst b1)(r := v), snd b1) b2" using specific.IH [OF t(1)] by auto
  then show ?case using take_and_free [OF specific.prems c _ _ specific.hyps(3) [unfolded \<open>drp2 = drp1\<close>]] t c(1)
    by (simp add: same_view_def)
next
  case (args drp b drp1 b1 g drp2 b2 drp3 b3)
  have x: "xalloc_from drp [1..<6] b = Some (True, drp1, b1)" using args.hyps(1) by (simp add: dt_regset_xalloc_args_def)
  have d: "distinct [1..<6::nat]" by simp
  note t = xalloc_from_takes [OF d args.prems x]
  then have s: "drp2 = drp1" "same_view drp1 (\<lambda>r. if 1 \<le> r \<and> r \<le> 5 then g r else fst b1 r, snd b1) b2" using args.IH by auto
  have f: "free_regs drp1 [1..<6] b2 = Some (drp3, b3)" using args.hyps(3) s(1) by (simp add: dt_regset_free_args_def)
  note u = free_regs_frees [OF d conjunct1 [OF t] f]
  have "drp3 = drp" using t u by (intro bank_set_eqI) (use args.prems in auto)
  moreover have "same_view drp b b3" using t u s(2) by (auto simp: same_view_def)
  ultimately show ?case ..
qed simp

definition taken :: "'v bank regset \<Rightarrow> 'v bank \<Rightarrow> nat set \<Rightarrow> 'v bank regset \<Rightarrow> 'v bank \<Rightarrow> bool" where
  "taken drp b R drp1 b1 \<longleftrightarrow> bank_set drp1 \<and> dr_size drp1 = dr_size drp \<and> (\<forall>r \<in> R. r < dr_size drp \<and> \<not> spilled drp r) \<and>
    (\<forall>q. active drp1 q \<longleftrightarrow> active drp q \<or> q \<in> R) \<and>
    (\<forall>q. spilled drp1 q \<longleftrightarrow> spilled drp q \<or> q \<in> R \<and> active drp q) \<and>
    fst b1 = fst b \<and> (\<forall>q. snd b1 q = (if q \<in> R \<and> active drp q then fst b q else snd b q))"

lemma taken_give_back:
  assumes "bank_set drp" "taken drp b R drp1 b1" "distinct rs" "set rs = R" "free_regs drp1 rs b1 = Some (drp3, b3)"
  shows "drp3 = drp \<and> same_view drp b b3"
proof -
  have t: "bank_set drp1" using assms(2) by (simp add: taken_def)
  note u = free_regs_frees [OF assms(3) t assms(5)]
  have "drp3 = drp" using assms(1,2,4) u by (intro bank_set_eqI) (auto simp: taken_def)
  moreover have "same_view drp b b3" using assms(2,4) u by (auto simp: same_view_def taken_def)
  ultimately show ?thesis ..
qed

lemma unalloc_args_free: "unalloc_args drp n b = free_regs drp (rev [1..<n]) b"
  by (induction drp n b rule: unalloc_args.induct) (auto split: prod.splits intro!: Option.bind_cong)

lemma xalloc_from_fails:
  assumes "bank_set drp" "taken drp b {1..<k} drp1 b1" "1 \<le> k" "xalloc_from drp1 [k..<n] b1 = Some (False, drp3, b3)"
  shows "drp3 = drp \<and> same_view drp b b3"
  using assms(2-)
proof (induction "n - k" arbitrary: k drp1 b1)
  case (Suc m)
  have l: "[k..<n] = k # [Suc k..<n]" using Suc.hyps(2) by (simp add: upt_conv_Cons)
  have bs: "bank_set drp1" using Suc.prems(1) by (simp add: taken_def)
  obtain ok drp2 b2 where x: "dt_regset_xalloc drp1 k b1 = Some (ok, drp2, b2)"
    using Suc.prems(3) by (auto simp: l bind_eq_Some_conv)
  show ?case
  proof (cases ok)
    case False
    then have "drp2 = drp1" "b2 = b1" using x by (auto simp: dt_regset_xalloc_def split: if_splits)
    then have "free_regs drp1 (rev [1..<k]) b1 = Some (drp3, b3)"
      using Suc.prems(3) x False by (auto simp: l bind_eq_Some_conv unalloc_args_free)
    then show ?thesis using taken_give_back [OF assms(1) Suc.prems(1), of "rev [1..<k]"] by simp
  next
    case True
    then have "dt_regset_xalloc drp1 k b1 = Some (True, drp2, b2)" using x by simp
    note c = xalloc_cases [OF bs this]
    note t = bank_set_take [OF bs c]
    have "k \<notin> {1..<k}" "{1..<Suc k} = insert k {1..<k}" using Suc.prems(2) by auto
    moreover have "\<not> spilled drp1 k" using c regset_okD(3) [of drp1 k] bs by (auto simp: bank_set_def)
    ultimately have "taken drp b {1..<Suc k} drp2 b2" using Suc.prems(1) t c(1) by (auto simp: taken_def)
    then show ?thesis using Suc.hyps(1) [of "Suc k" drp2 b2] Suc.hyps(2) Suc.prems(2,3) x True by (simp add: l)
  qed
qed simp

lemma taken_none: "bank_set drp \<Longrightarrow> taken drp b {} drp b"
  by (simp add: taken_def)

text \<open>C5: a client that brackets its allocations (single registers, a specific register, the argument registers for a call)
  gets the allocator back in the state it had, bit for bit, and finds every register that was in use with its
  value, and every value that was spilled in its slot, however often its own allocations spilled registers.\<close>

theorem dt_regset_bracket:
  assumes "regset_ok drp" "dr_spill_store drp = bank_store" "dr_spill_load drp = bank_load"
    and "uses drp b drp' b'"
  shows "drp' = drp \<and> same_view drp b b'"
  using uses_keeps [OF assms(4)] assms(1-3) by (simp add: bank_set_def)

text \<open>C23: when \<open>dt_regset_xalloc_args\<close> cannot have all of registers 1 to 5 it reports that and gives back those it
  already took: the allocator and the values the client holds are as before the call.\<close>

theorem dt_regset_xalloc_args_fail:
  assumes "regset_ok drp" "dr_spill_store drp = bank_store" "dr_spill_load drp = bank_load"
    and "dt_regset_xalloc_args drp b = Some (False, drp', b')"
  shows "drp' = drp \<and> same_view drp b b'"
proof -
  have "bank_set drp" using assms(1-3) by (simp add: bank_set_def)
  then show ?thesis using xalloc_from_fails [of drp b 1 drp b 6 drp' b'] taken_none [of drp b] assms(4)
    by (simp add: dt_regset_xalloc_args_def)
qed

text \<open>Two registers: both taken, then the first one once more, which spills it.\<close>

definition regset_demo :: "nat bank regset" where
  "regset_demo = \<lparr>dr_size = 2, dr_spill_store = bank_store, dr_spill_load = bank_load, dr_active = [3], dr_spilled = [0]\<rparr>"

lemma regset_demo_ok: "regset_ok regset_demo \<and> dr_spill_store regset_demo = bank_store \<and> dr_spill_load regset_demo = bank_load"
  by (auto simp: regset_demo_def regset_ok_def bt_index bt_test_bit less_Suc_eq numeral_2_eq_2)

lemma full_bits:
  "BT_TEST [12] 1 = False" "BT_SET [12] 1 = [14]" "BT_TEST [14] 2" "BT_TEST [8] 2 = False" "BT_SET [8] 2 = [12]"
  "BT_SET [14] 2 = [14]" "BT_TEST [14] 3" "BT_TEST [12] 3" "BT_TEST [12] 2" "BT_CLEAR [12] 2 = [8]" "BT_TEST [14] 1"
  "BT_TEST [8] 1 = False" "BT_CLEAR [14] 1 = [12]" "BT_TEST [3] 0" "BT_TEST [3] 1" "BT_TEST [0] 1 = False"
  "BT_SET [0] 1 = [2]" "BT_TEST [2] 1" "BT_CLEAR [2] 1 = [0]"
  by code_simp+

lemma regset_demo_uses:
  "uses regset_demo (\<lambda>r. r + 7, \<lambda>_. 0) regset_demo (\<lambda>r. r + 7, (\<lambda>_. 0)(1 := 8))"
proof (rule uses.one [OF _ uses.none, where r = 1 and v = 42])
  show "dt_regset_alloc regset_demo (\<lambda>r. r + 7, \<lambda>_. 0) = (Some 1, regset_demo\<lparr>dr_spilled := [2]\<rparr>, (\<lambda>r. r + 7, (\<lambda>_. 0)(1 := 8)))"
  proof -
    have "find_clear [3] 2 = None" "find_clear [0] 2 = Some 1" by code_simp+
    then show ?thesis using full_bits(17) by (simp add: dt_regset_alloc_def regset_demo_def bank_store_def fun_eq_iff)
  qed
qed (use full_bits(15,18,19) in \<open>auto simp: dt_regset_free_def regset_demo_def bank_load_def fun_eq_iff\<close>)

theorem dt_regset_bracket_witness:
  "same_view regset_demo (\<lambda>r. r + 7, \<lambda>_. 0) (\<lambda>r. r + 7, (\<lambda>_. 0)(1 := 8))"
  using dt_regset_bracket [OF _ _ _ regset_demo_uses] regset_demo_ok by blast

definition regset_full :: "nat bank regset" where
  "regset_full = \<lparr>dr_size = 9, dr_spill_store = bank_store, dr_spill_load = bank_load, dr_active = [12], dr_spilled = [8]\<rparr>"

lemma regset_full_ok: "regset_ok regset_full \<and> dr_spill_store regset_full = bank_store \<and> dr_spill_load regset_full = bank_load"
proof -
  have "(8 :: u64) AND 12 = 8" by simp
  then have "bit (8 :: u64) r \<Longrightarrow> bit (12 :: u64) r" for r by (metis bit_and_iff)
  then show ?thesis by (auto simp: regset_full_def regset_ok_def bt_index bt_test_bit)
qed

lemma regset_full_fails: "\<exists>b'. dt_regset_xalloc_args regset_full (\<lambda>r. r, \<lambda>_. 0) = Some (False, regset_full, b')"
proof -
  have l: "[1..<6] = [1, 2, 3, 4, 5 :: nat]" by (simp add: upt_rec)
  have u: "unalloc_args drp 3 s = free_regs drp [2, 1] s" for drp :: "'a regset" and s
    unfolding unalloc_args_free by (simp add: upt_rec numeral_2_eq_2)
  show ?thesis unfolding dt_regset_xalloc_args_def l
    by (simp add: regset_full_def dt_regset_xalloc_def dt_regset_free_def u full_bits del: One_nat_def)
qed

theorem dt_regset_xalloc_args_fail_witness:
  "\<exists>b'. dt_regset_xalloc_args regset_full (\<lambda>r. r, \<lambda>_. 0) = Some (False, regset_full, b') \<and> same_view regset_full (\<lambda>r. r, \<lambda>_. 0) b'"
proof -
  obtain b' where b: "dt_regset_xalloc_args regset_full (\<lambda>r. r, \<lambda>_. 0) = Some (False, regset_full, b')" using regset_full_fails by blast
  then show ?thesis using dt_regset_xalloc_args_fail [OF _ _ _ b] regset_full_ok by blast
qed

end
