(* ===== verification/DTBpf.thy ===== *)
theory DTBpf
  imports DTPrelude
begin

unbundle bit_operations_syntax

text \<open>
  The BPF instructions that the compiler emits: the encoding macros of \<open>include/bpf_asm.h\<close>
  with the opcode constants of \<open>libbpf/include/linux/bpf.h\<close> and \<open>bpf_common.h\<close>, and the
  machine that runs them, after the BPF instruction set: eleven 64-bit registers, memory of
  bytes, little-endian, 64-bit arithmetic that wraps, an unsigned division in which
  dividing by zero gives 0, shift counts modulo 64.

  A branch is described by the \<^emph>\<open>outcome\<close> of an instruction, without its target, so that the same
  description serves programs with labels (\<open>DTAs\<close>) and with offsets.  Calls are a parameter.
\<close>

section \<open>Opcodes\<close>

abbreviation (input) BPF_LD :: u8 where "BPF_LD \<equiv> 0x00"
abbreviation (input) BPF_LDX :: u8 where "BPF_LDX \<equiv> 0x01"
abbreviation (input) BPF_ST :: u8 where "BPF_ST \<equiv> 0x02"
abbreviation (input) BPF_STX :: u8 where "BPF_STX \<equiv> 0x03"
abbreviation (input) BPF_ALU :: u8 where "BPF_ALU \<equiv> 0x04"
abbreviation (input) BPF_JMP :: u8 where "BPF_JMP \<equiv> 0x05"
abbreviation (input) BPF_ALU64 :: u8 where "BPF_ALU64 \<equiv> 0x07"

abbreviation (input) BPF_W :: u8 where "BPF_W \<equiv> 0x00"
abbreviation (input) BPF_H :: u8 where "BPF_H \<equiv> 0x08"
abbreviation (input) BPF_B :: u8 where "BPF_B \<equiv> 0x10"
abbreviation (input) BPF_DW :: u8 where "BPF_DW \<equiv> 0x18"

abbreviation (input) BPF_IMM :: u8 where "BPF_IMM \<equiv> 0x00"
abbreviation (input) BPF_MEM :: u8 where "BPF_MEM \<equiv> 0x60"
abbreviation (input) BPF_XADD :: u8 where "BPF_XADD \<equiv> 0xc0"

abbreviation (input) BPF_ADD :: u8 where "BPF_ADD \<equiv> 0x00"
abbreviation (input) BPF_SUB :: u8 where "BPF_SUB \<equiv> 0x10"
abbreviation (input) BPF_MUL :: u8 where "BPF_MUL \<equiv> 0x20"
abbreviation (input) BPF_DIV :: u8 where "BPF_DIV \<equiv> 0x30"
abbreviation (input) BPF_OR :: u8 where "BPF_OR \<equiv> 0x40"
abbreviation (input) BPF_AND :: u8 where "BPF_AND \<equiv> 0x50"
abbreviation (input) BPF_LSH :: u8 where "BPF_LSH \<equiv> 0x60"
abbreviation (input) BPF_RSH :: u8 where "BPF_RSH \<equiv> 0x70"
abbreviation (input) BPF_NEG :: u8 where "BPF_NEG \<equiv> 0x80"
abbreviation (input) BPF_MOD :: u8 where "BPF_MOD \<equiv> 0x90"
abbreviation (input) BPF_XOR :: u8 where "BPF_XOR \<equiv> 0xa0"
abbreviation (input) BPF_MOV :: u8 where "BPF_MOV \<equiv> 0xb0"
abbreviation (input) BPF_ARSH :: u8 where "BPF_ARSH \<equiv> 0xc0"
abbreviation (input) BPF_END :: u8 where "BPF_END \<equiv> 0xd0"
abbreviation (input) BPF_TO_BE :: u8 where "BPF_TO_BE \<equiv> 0x08"

abbreviation (input) BPF_JA :: u8 where "BPF_JA \<equiv> 0x00"
abbreviation (input) BPF_JEQ :: u8 where "BPF_JEQ \<equiv> 0x10"
abbreviation (input) BPF_JGT :: u8 where "BPF_JGT \<equiv> 0x20"
abbreviation (input) BPF_JGE :: u8 where "BPF_JGE \<equiv> 0x30"
abbreviation (input) BPF_JSET :: u8 where "BPF_JSET \<equiv> 0x40"
abbreviation (input) BPF_JNE :: u8 where "BPF_JNE \<equiv> 0x50"
abbreviation (input) BPF_JSGT :: u8 where "BPF_JSGT \<equiv> 0x60"
abbreviation (input) BPF_JSGE :: u8 where "BPF_JSGE \<equiv> 0x70"
abbreviation (input) BPF_CALL :: u8 where "BPF_CALL \<equiv> 0x80"
abbreviation (input) BPF_EXIT :: u8 where "BPF_EXIT \<equiv> 0x90"
abbreviation (input) BPF_JLT :: u8 where "BPF_JLT \<equiv> 0xa0"
abbreviation (input) BPF_JLE :: u8 where "BPF_JLE \<equiv> 0xb0"
abbreviation (input) BPF_JSLT :: u8 where "BPF_JSLT \<equiv> 0xc0"
abbreviation (input) BPF_JSLE :: u8 where "BPF_JSLE \<equiv> 0xd0"

abbreviation (input) BPF_K :: u8 where "BPF_K \<equiv> 0x00"
abbreviation (input) BPF_X :: u8 where "BPF_X \<equiv> 0x08"

abbreviation (input) BPF_PSEUDO_CALL :: nat where "BPF_PSEUDO_CALL \<equiv> 1"

abbreviation (input) BPF_REG_0 :: nat where "BPF_REG_0 \<equiv> 0"
abbreviation (input) BPF_REG_1 :: nat where "BPF_REG_1 \<equiv> 1"
abbreviation (input) BPF_REG_2 :: nat where "BPF_REG_2 \<equiv> 2"
abbreviation (input) BPF_REG_3 :: nat where "BPF_REG_3 \<equiv> 3"
abbreviation (input) BPF_REG_4 :: nat where "BPF_REG_4 \<equiv> 4"
abbreviation (input) BPF_REG_5 :: nat where "BPF_REG_5 \<equiv> 5"
abbreviation (input) BPF_REG_9 :: nat where "BPF_REG_9 \<equiv> 9"
abbreviation (input) BPF_REG_FP :: nat where "BPF_REG_FP \<equiv> 10"

definition BPF_CLASS :: "u8 \<Rightarrow> u8" where "BPF_CLASS code = code AND 0x07"

definition BPF_OP :: "u8 \<Rightarrow> u8" where "BPF_OP code = code AND 0xf0"

definition BPF_SIZE :: "u8 \<Rightarrow> u8" where "BPF_SIZE code = code AND 0x18"

definition BPF_MODE :: "u8 \<Rightarrow> u8" where "BPF_MODE code = code AND 0xe0"

definition BPF_SRC :: "u8 \<Rightarrow> u8" where "BPF_SRC code = code AND 0x08"

section \<open>Instructions\<close>

record bpf_insn =
  bi_code :: u8
  bi_dst :: nat
  bi_src :: nat
  bi_off :: u16
  bi_imm :: u32

definition BPF_ALU64_REG :: "u8 \<Rightarrow> nat \<Rightarrow> nat \<Rightarrow> bpf_insn" where
  "BPF_ALU64_REG op dst src =
     \<lparr>bi_code = BPF_ALU64 OR op OR BPF_X, bi_dst = dst, bi_src = src, bi_off = 0, bi_imm = 0\<rparr>"

definition BPF_END_REG :: "u8 \<Rightarrow> nat \<Rightarrow> u8 \<Rightarrow> bpf_insn" where
  "BPF_END_REG sz dst dir =
     \<lparr>bi_code = BPF_ALU OR BPF_END OR dir, bi_dst = dst, bi_src = 0, bi_off = 0,
      bi_imm = (if sz = BPF_DW then 64 else if sz = BPF_W then 32 else if sz = BPF_H then 16 else 0)\<rparr>"

definition BPF_NEG_REG :: "nat \<Rightarrow> bpf_insn" where
  "BPF_NEG_REG dst =
     \<lparr>bi_code = BPF_ALU64 OR BPF_NEG, bi_dst = dst, bi_src = 0, bi_off = 0, bi_imm = 0\<rparr>"

definition BPF_ALU64_IMM :: "u8 \<Rightarrow> nat \<Rightarrow> int \<Rightarrow> bpf_insn" where
  "BPF_ALU64_IMM op dst val =
     \<lparr>bi_code = BPF_ALU64 OR op OR BPF_K, bi_dst = dst, bi_src = 0, bi_off = 0, bi_imm = word_of_int val\<rparr>"

definition BPF_MOV_REG :: "nat \<Rightarrow> nat \<Rightarrow> bpf_insn" where
  "BPF_MOV_REG dst src = BPF_ALU64_REG BPF_MOV dst src"

definition BPF_MOV_IMM :: "nat \<Rightarrow> int \<Rightarrow> bpf_insn" where
  "BPF_MOV_IMM dst val = BPF_ALU64_IMM BPF_MOV dst val"

definition BPF_LOAD :: "u8 \<Rightarrow> nat \<Rightarrow> nat \<Rightarrow> int \<Rightarrow> bpf_insn" where
  "BPF_LOAD sz dst src ofs =
     \<lparr>bi_code = BPF_LDX OR BPF_MEM OR sz, bi_dst = dst, bi_src = src, bi_off = word_of_int ofs, bi_imm = 0\<rparr>"

definition BPF_LDDW :: "nat \<Rightarrow> u64 \<Rightarrow> bpf_insn \<times> bpf_insn" where
  "BPF_LDDW dst val =
     (\<lparr>bi_code = BPF_LD OR BPF_IMM OR BPF_DW, bi_dst = dst, bi_src = 0, bi_off = 0, bi_imm = ucast val\<rparr>,
      \<lparr>bi_code = 0, bi_dst = 0, bi_src = 0, bi_off = 0, bi_imm = ucast (drop_bit 32 val)\<rparr>)"

definition BPF_STORE :: "u8 \<Rightarrow> nat \<Rightarrow> int \<Rightarrow> nat \<Rightarrow> bpf_insn" where
  "BPF_STORE sz dst ofs src =
     \<lparr>bi_code = BPF_STX OR BPF_MEM OR sz, bi_dst = dst, bi_src = src, bi_off = word_of_int ofs, bi_imm = 0\<rparr>"

definition BPF_XADD_REG :: "u8 \<Rightarrow> nat \<Rightarrow> int \<Rightarrow> nat \<Rightarrow> bpf_insn" where
  "BPF_XADD_REG sz dst ofs src =
     \<lparr>bi_code = BPF_STX OR BPF_XADD OR sz, bi_dst = dst, bi_src = src, bi_off = word_of_int ofs, bi_imm = 0\<rparr>"

definition BPF_STORE_IMM :: "u8 \<Rightarrow> nat \<Rightarrow> int \<Rightarrow> int \<Rightarrow> bpf_insn" where
  "BPF_STORE_IMM sz dst ofs val =
     \<lparr>bi_code = BPF_ST OR BPF_MEM OR sz, bi_dst = dst, bi_src = 0, bi_off = word_of_int ofs, bi_imm = word_of_int val\<rparr>"

definition BPF_CALL_HELPER :: "int \<Rightarrow> bpf_insn" where
  "BPF_CALL_HELPER val =
     \<lparr>bi_code = BPF_JMP OR BPF_CALL, bi_dst = 0, bi_src = 0, bi_off = 0, bi_imm = word_of_int val\<rparr>"

definition BPF_CALL_FUNC :: "int \<Rightarrow> bpf_insn" where
  "BPF_CALL_FUNC val =
     \<lparr>bi_code = BPF_JMP OR BPF_CALL, bi_dst = 0, bi_src = BPF_PSEUDO_CALL, bi_off = 0, bi_imm = word_of_int val\<rparr>"

definition BPF_RETURN :: bpf_insn where
  "BPF_RETURN =
     \<lparr>bi_code = BPF_JMP OR BPF_EXIT, bi_dst = 0, bi_src = 0, bi_off = 0, bi_imm = 0\<rparr>"

definition BPF_BRANCH_REG :: "u8 \<Rightarrow> nat \<Rightarrow> nat \<Rightarrow> int \<Rightarrow> bpf_insn" where
  "BPF_BRANCH_REG op r1 r2 ofs =
     \<lparr>bi_code = BPF_JMP OR op OR BPF_X, bi_dst = r1, bi_src = r2, bi_off = word_of_int ofs, bi_imm = 0\<rparr>"

definition BPF_BRANCH_IMM :: "u8 \<Rightarrow> nat \<Rightarrow> int \<Rightarrow> int \<Rightarrow> bpf_insn" where
  "BPF_BRANCH_IMM op r1 val ofs =
     \<lparr>bi_code = BPF_JMP OR op OR BPF_K, bi_dst = r1, bi_src = 0, bi_off = word_of_int ofs, bi_imm = word_of_int val\<rparr>"

definition BPF_JUMP :: "int \<Rightarrow> bpf_insn" where
  "BPF_JUMP ofs =
     \<lparr>bi_code = BPF_JMP OR BPF_JA, bi_dst = 0, bi_src = 0, bi_off = word_of_int ofs, bi_imm = 0\<rparr>"

definition BPF_NOP :: bpf_insn where
  "BPF_NOP = BPF_JUMP 0"

definition BPF_IS_CALL :: "bpf_insn \<Rightarrow> bool" where
  "BPF_IS_CALL x \<longleftrightarrow> bi_code x = BPF_JMP OR BPF_CALL"

definition BPF_IS_NOP :: "bpf_insn \<Rightarrow> bool" where
  "BPF_IS_NOP x \<longleftrightarrow> bi_code x = BPF_JMP OR BPF_JA \<and> bi_off x = 0"

definition BPF_EQUAL :: "bpf_insn \<Rightarrow> bpf_insn \<Rightarrow> bool" where
  "BPF_EQUAL x y \<longleftrightarrow>
     bi_code x = bi_code y \<and> bi_dst x = bi_dst y \<and> bi_src x = bi_src y \<and>
     bi_off x = bi_off y \<and> bi_imm x = bi_imm y"

section \<open>Memory\<close>

type_synonym memory = "u64 \<Rightarrow> u8"

fun mem_load :: "nat \<Rightarrow> memory \<Rightarrow> u64 \<Rightarrow> u64" where
  "mem_load 0 m a = 0"
| "mem_load (Suc n) m a = ucast (m a) OR push_bit 8 (mem_load n m (a + 1))"

definition mem_store :: "nat \<Rightarrow> memory \<Rightarrow> u64 \<Rightarrow> u64 \<Rightarrow> memory" where
  "mem_store n m a v x = (if unat (x - a) < n then ucast (drop_bit (8 * unat (x - a)) v) else m x)"

text \<open>Two blocks of memory that do not meet, addresses modulo the address space.\<close>

definition apart :: "u64 \<Rightarrow> nat \<Rightarrow> u64 \<Rightarrow> nat \<Rightarrow> bool" where
  "apart a n b k \<longleftrightarrow> n \<le> unat (b - a) \<and> k \<le> unat (a - b)"

lemma bit_mem_load:
  "bit (mem_load n m a) k \<longleftrightarrow> k < 8 * n \<and> k < 64 \<and> bit (m (a + of_nat (k div 8))) (k mod 8)"
proof (induction n arbitrary: a k)
  case (Suc n)
  show ?case
  proof (cases "k < 8")
    case True
    then show ?thesis by (auto simp: bit_simps Suc)
  next
    case False
    then obtain j where j: "k = j + 8" by (metis add.commute le_Suc_ex not_less)
    have "\<not> bit (m a) k" using False bit_imp_le_length [of "m a" k] by auto
    moreover have "(j + 8) div 8 = Suc (j div 8)" by simp
    ultimately show ?thesis by (auto simp: bit_simps Suc j ac_simps)
  qed
qed simp

lemma mem_load_cong:
  "(\<And>i. i < n \<Longrightarrow> m (a + of_nat i) = m' (a + of_nat i)) \<Longrightarrow> mem_load n m a = mem_load n m' a"
  by (rule bit_word_eqI) (auto simp: bit_mem_load less_mult_imp_div_less mult.commute)

lemma unat_small: "i < 2 ^ 64 \<Longrightarrow> unat (of_nat i :: u64) = i"
  by (simp add: unsigned_of_nat take_bit_nat_eq_self)

lemma in_block: "i < 2 ^ 64 \<Longrightarrow> unat (a + of_nat i - (a :: u64)) = i"
  by (simp add: unat_small)

lemma mem_load_store_same:
  assumes "n \<le> 8"
  shows "mem_load n (mem_store n m a v) a = take_bit (8 * n) v"
proof (rule bit_word_eqI)
  fix k :: nat assume "k < LENGTH(64)"
  have "unat (a + of_nat (k div 8) - a) = k div 8" if "k < 8 * n"
    using that assms by (intro in_block) simp
  then show "bit (mem_load n (mem_store n m a v) a) k = bit (take_bit (8 * n) v) k"
    using \<open>k < LENGTH(64)\<close> by (auto simp: bit_mem_load mem_store_def bit_simps less_mult_imp_div_less mult.commute)
qed

lemma mem_load_store8 [simp]: "mem_load 8 (mem_store 8 m a v) a = v"
  using mem_load_store_same [of 8 m a v] take_bit_length_eq [of v] by simp

lemma apart_sym: "apart a n b k \<Longrightarrow> apart b k a n"
  by (simp add: apart_def)

lemma unat_minus_word: "w \<noteq> 0 \<Longrightarrow> unat w + unat (- w :: u64) = 2 ^ 64"
  using unat_plus_if' [of w "- w"] by (auto split: if_splits simp: unat_eq_zero)

lemma unat_add_small: "unat x + unat y < 2 ^ 64 \<Longrightarrow> unat (x + y :: u64) = unat x + unat y"
  using unat_plus_if' [of x y] by simp

lemma unat_back:
  fixes w :: u64
  assumes "i < unat w"
  shows "unat (of_nat i - w) = i + unat (- w)"
proof -
  have w: "unat w < 2 ^ 64" "w \<noteq> 0" using assms unsigned_less [of w] by auto
  then have "i + unat (- w) < 2 ^ 64" and i: "i < 2 ^ 64" using assms unat_minus_word [OF w(2)] by simp_all
  then have "unat (of_nat i + - w) = unat (of_nat i :: u64) + unat (- w)"
    by (intro unat_add_small) (simp add: unat_small)
  then show ?thesis using i by (simp add: unat_small)
qed

lemma apart_not_in: "apart a n b k \<Longrightarrow> i < n \<Longrightarrow> \<not> unat (a + of_nat i - b) < k"
  using unat_back [of i "b - a"] by (simp add: apart_def algebra_simps)

lemma mem_load_store_apart:
  assumes "apart a n b k"
  shows "mem_load n (mem_store k m b v) a = mem_load n m a"
  using apart_not_in [OF assms] by (intro mem_load_cong) (simp add: mem_store_def)

lemma apart_sub:
  assumes "apart a n b k" "i + n' \<le> n" "j + k' \<le> k" "0 < n'" "0 < k'"
  shows "apart (a + of_nat i) n' (b + of_nat j) k'"
proof -
  have one: "n' \<le> unat (b + of_nat j - (a + of_nat i))"
    if "n \<le> unat (b - a)" "k \<le> unat (- (b - a))" "i + n' \<le> n" "j + k' \<le> k" "0 < n'" "0 < k'"
    for a b :: u64 and n k i j n' k'
  proof -
    define w where "w = b - a"
    have "w \<noteq> 0" "unat w < 2 ^ 64" using that unsigned_less [of w] by (auto simp: w_def)
    then have "unat w + j < 2 ^ 64" using that unat_minus_word [of w] unfolding w_def [symmetric] by linarith
    then have "unat (of_nat (unat w + j - i) :: u64) = unat w + j - i" by (intro unat_small) simp
    moreover have "i \<le> unat w + j" using that by (simp add: w_def)
    then have "(of_nat (unat w + j - i) :: u64) = w + of_nat j - of_nat i" by (simp add: of_nat_diff)
    moreover have e: "b + of_nat j - (a + of_nat i) = w + of_nat j - of_nat i" by (simp add: w_def algebra_simps)
    ultimately have "unat (b + of_nat j - (a + of_nat i)) = unat w + j - i" unfolding e by simp
    then show ?thesis using that by (simp add: w_def)
  qed
  show ?thesis using assms one [of n b a k i n' j k'] one [of k a b n j k' i n'] by (simp add: apart_def)
qed

section \<open>The machine\<close>

record mstate =
  m_regs :: "nat \<Rightarrow> u64"
  m_mem :: memory

text \<open>
  What an instruction does: go on with the next instruction or with the one behind the next, branch,
  leave the function, or nothing defined.
\<close>

datatype outcome = Next mstate | Next2 mstate | Taken mstate | Exit mstate | Stuck

definition set_reg :: "nat \<Rightarrow> u64 \<Rightarrow> mstate \<Rightarrow> mstate" where
  "set_reg r v m = m\<lparr>m_regs := (m_regs m)(r := v)\<rparr>"

definition set_mem :: "memory \<Rightarrow> mstate \<Rightarrow> mstate" where
  "set_mem mm m = m\<lparr>m_mem := mm\<rparr>"

definition bpf_alu :: "u8 \<Rightarrow> u64 \<Rightarrow> u64 \<Rightarrow> u64 option" where
  "bpf_alu op d s =
     (if op = BPF_ADD then Some (d + s)
      else if op = BPF_SUB then Some (d - s)
      else if op = BPF_MUL then Some (d * s)
      else if op = BPF_DIV then Some (if s = 0 then 0 else d div s)
      else if op = BPF_OR then Some (d OR s)
      else if op = BPF_AND then Some (d AND s)
      else if op = BPF_LSH then Some (push_bit (unat (s AND 63)) d)
      else if op = BPF_RSH then Some (drop_bit (unat (s AND 63)) d)
      else if op = BPF_NEG then Some (- d)
      else if op = BPF_MOD then Some (if s = 0 then d else d mod s)
      else if op = BPF_XOR then Some (d XOR s)
      else if op = BPF_MOV then Some s
      else if op = BPF_ARSH then Some (signed_drop_bit (unat (s AND 63)) d)
      else None)"

definition bpf_cond :: "u8 \<Rightarrow> u64 \<Rightarrow> u64 \<Rightarrow> bool option" where
  "bpf_cond op d s =
     (if op = BPF_JEQ then Some (d = s)
      else if op = BPF_JGT then Some (s < d)
      else if op = BPF_JGE then Some (s \<le> d)
      else if op = BPF_JSET then Some (d AND s \<noteq> 0)
      else if op = BPF_JNE then Some (d \<noteq> s)
      else if op = BPF_JSGT then Some (sint s < sint d)
      else if op = BPF_JSGE then Some (sint s \<le> sint d)
      else if op = BPF_JLT then Some (d < s)
      else if op = BPF_JLE then Some (d \<le> s)
      else if op = BPF_JSLT then Some (sint d < sint s)
      else if op = BPF_JSLE then Some (sint d \<le> sint s)
      else None)"

definition size_bytes :: "u8 \<Rightarrow> nat" where
  "size_bytes sz = (if sz = BPF_B then 1 else if sz = BPF_H then 2 else if sz = BPF_W then 4 else 8)"

fun byte_swap :: "nat \<Rightarrow> u64 \<Rightarrow> u64" where
  "byte_swap 0 v = 0"
| "byte_swap (Suc n) v = push_bit (8 * n) (v AND 255) OR byte_swap n (drop_bit 8 v)"

type_synonym calls = "bpf_insn \<Rightarrow> mstate \<Rightarrow> mstate option"

definition exec_insn :: "calls \<Rightarrow> bpf_insn \<Rightarrow> bpf_insn option \<Rightarrow> mstate \<Rightarrow> outcome" where
  "exec_insn ext i nxt m =
     (let code = bi_code i;
          d = m_regs m (bi_dst i);
          s = (if BPF_SRC code = BPF_X then m_regs m (bi_src i) else scast (bi_imm i));
          n = size_bytes (BPF_SIZE code)
      in if BPF_CLASS code = BPF_ALU64 then
           (case bpf_alu (BPF_OP code) d s of None \<Rightarrow> Stuck | Some v \<Rightarrow> Next (set_reg (bi_dst i) v m))
         else if BPF_CLASS code = BPF_ALU then
           if BPF_OP code = BPF_END \<and> BPF_SRC code = BPF_TO_BE
           then Next (set_reg (bi_dst i) (byte_swap (unat (bi_imm i) div 8) d) m)
           else Stuck
         else if BPF_CLASS code = BPF_LDX \<and> BPF_MODE code = BPF_MEM then
           Next (set_reg (bi_dst i) (mem_load n (m_mem m) (m_regs m (bi_src i) + scast (bi_off i))) m)
         else if BPF_CLASS code = BPF_ST \<and> BPF_MODE code = BPF_MEM then
           Next (set_mem (mem_store n (m_mem m) (d + scast (bi_off i)) (scast (bi_imm i))) m)
         else if BPF_CLASS code = BPF_STX \<and> BPF_MODE code = BPF_MEM then
           Next (set_mem (mem_store n (m_mem m) (d + scast (bi_off i)) (m_regs m (bi_src i))) m)
         else if BPF_CLASS code = BPF_STX \<and> BPF_MODE code = BPF_XADD then
           (let a = d + scast (bi_off i)
            in Next (set_mem (mem_store n (m_mem m) a (mem_load n (m_mem m) a + m_regs m (bi_src i))) m))
         else if code = BPF_LD OR BPF_IMM OR BPF_DW then
           (case nxt of
              None \<Rightarrow> Stuck
            | Some j \<Rightarrow> Next2 (set_reg (bi_dst i) (ucast (bi_imm i) OR push_bit 32 (ucast (bi_imm j))) m))
         else if BPF_CLASS code = BPF_JMP then
           if code = BPF_JMP OR BPF_JA then Taken m
           else if code = BPF_JMP OR BPF_CALL then
             (case ext i m of None \<Rightarrow> Stuck | Some m' \<Rightarrow> Next m')
           else if code = BPF_JMP OR BPF_EXIT then Exit m
           else (case bpf_cond (BPF_OP code) d s of
                   None \<Rightarrow> Stuck
                 | Some b \<Rightarrow> if b then Taken m else Next m)
         else Stuck)"

section \<open>Decoding\<close>

lemma op_high: "op AND 15 = (0 :: u8) \<Longrightarrow> op AND 0xf0 = op"
proof -
  assume z: "op AND 15 = 0"
  have "(0xf0 OR 15 :: u8) = - 1" by simp
  then have "op = op AND (0xf0 OR 15)" by (simp only: and.right_neutral)
  also have "\<dots> = (op AND 0xf0) OR (op AND 15)" by (rule bit.conj_disj_distrib)
  finally show ?thesis using z by simp
qed

lemma op_low:
  assumes "op AND 15 = (0 :: u8)"
  shows "op AND 7 = 0" "op AND 8 = 0"
proof -
  have "op AND 7 = (op AND 15) AND 7" "op AND 8 = (op AND 15) AND 8" by (simp_all add: and.assoc)
  then show "op AND 7 = 0" "op AND 8 = 0" using assms by simp_all
qed

lemma code_fields:
  assumes "op AND 15 = (0 :: u8)"
  shows "BPF_CLASS (BPF_ALU64 OR op OR BPF_X) = BPF_ALU64" "BPF_OP (BPF_ALU64 OR op OR BPF_X) = op"
    "BPF_SRC (BPF_ALU64 OR op OR BPF_X) = BPF_X"
    "BPF_CLASS (BPF_ALU64 OR op) = BPF_ALU64" "BPF_OP (BPF_ALU64 OR op) = op" "BPF_SRC (BPF_ALU64 OR op) = BPF_K"
    "BPF_CLASS (BPF_JMP OR op OR BPF_X) = BPF_JMP" "BPF_OP (BPF_JMP OR op OR BPF_X) = op"
    "BPF_SRC (BPF_JMP OR op OR BPF_X) = BPF_X"
    "BPF_CLASS (BPF_JMP OR op) = BPF_JMP" "BPF_OP (BPF_JMP OR op) = op" "BPF_SRC (BPF_JMP OR op) = BPF_K"
  using op_high [OF assms] op_low [OF assms]
  by (simp_all add: BPF_CLASS_def BPF_OP_def BPF_SRC_def bit.conj_disj_distrib2)

lemma sz_fields:
  assumes "sz AND 0xe7 = (0 :: u8)"
  shows "BPF_CLASS (BPF_LDX OR BPF_MEM OR sz) = BPF_LDX" "BPF_MODE (BPF_LDX OR BPF_MEM OR sz) = BPF_MEM"
    "BPF_SIZE (BPF_LDX OR BPF_MEM OR sz) = sz"
    "BPF_CLASS (BPF_ST OR BPF_MEM OR sz) = BPF_ST" "BPF_MODE (BPF_ST OR BPF_MEM OR sz) = BPF_MEM"
    "BPF_SIZE (BPF_ST OR BPF_MEM OR sz) = sz"
    "BPF_CLASS (BPF_STX OR BPF_MEM OR sz) = BPF_STX" "BPF_MODE (BPF_STX OR BPF_MEM OR sz) = BPF_MEM"
    "BPF_SIZE (BPF_STX OR BPF_MEM OR sz) = sz"
    "BPF_CLASS (BPF_STX OR BPF_XADD OR sz) = BPF_STX" "BPF_MODE (BPF_STX OR BPF_XADD OR sz) = BPF_XADD"
    "BPF_SIZE (BPF_STX OR BPF_XADD OR sz) = sz"
proof -
  have "(0x18 OR 0xe7 :: u8) = - 1" by simp
  then have "sz = sz AND (0x18 OR 0xe7)" by (simp only: and.right_neutral)
  also have "\<dots> = (sz AND 0x18) OR (sz AND 0xe7)" by (rule bit.conj_disj_distrib)
  finally have h: "sz AND 0x18 = sz" using assms by simp
  have "sz AND 7 = (sz AND 0xe7) AND 7" "sz AND 0xe0 = (sz AND 0xe7) AND 0xe0" by (simp_all add: and.assoc)
  then have l: "sz AND 7 = 0" "sz AND 0xe0 = 0" using assms by simp_all
  show "BPF_CLASS (BPF_LDX OR BPF_MEM OR sz) = BPF_LDX" "BPF_MODE (BPF_LDX OR BPF_MEM OR sz) = BPF_MEM"
    "BPF_SIZE (BPF_LDX OR BPF_MEM OR sz) = sz"
    "BPF_CLASS (BPF_ST OR BPF_MEM OR sz) = BPF_ST" "BPF_MODE (BPF_ST OR BPF_MEM OR sz) = BPF_MEM"
    "BPF_SIZE (BPF_ST OR BPF_MEM OR sz) = sz"
    "BPF_CLASS (BPF_STX OR BPF_MEM OR sz) = BPF_STX" "BPF_MODE (BPF_STX OR BPF_MEM OR sz) = BPF_MEM"
    "BPF_SIZE (BPF_STX OR BPF_MEM OR sz) = sz"
    "BPF_CLASS (BPF_STX OR BPF_XADD OR sz) = BPF_STX" "BPF_MODE (BPF_STX OR BPF_XADD OR sz) = BPF_XADD"
    "BPF_SIZE (BPF_STX OR BPF_XADD OR sz) = sz"
    using h l by (simp_all add: BPF_CLASS_def BPF_MODE_def BPF_SIZE_def bit.conj_disj_distrib2)
qed

definition off16 :: "int \<Rightarrow> u64" where "off16 i = scast (word_of_int i :: u16)"

definition imm32 :: "int \<Rightarrow> u64" where "imm32 i = scast (word_of_int i :: u32)"

lemma off16_small: "- (2 ^ 15) \<le> i \<Longrightarrow> i < 2 ^ 15 \<Longrightarrow> off16 i = word_of_int i"
  unfolding off16_def by (simp add: signed_of_int signed_take_bit_int_eq_self)

lemma imm32_small: "- (2 ^ 31) \<le> i \<Longrightarrow> i < 2 ^ 31 \<Longrightarrow> imm32 i = word_of_int i"
  unfolding imm32_def by (simp add: signed_of_int signed_take_bit_int_eq_self)

lemma exec_alu_reg [insn_simps]:
  "op AND 15 = 0 \<Longrightarrow> exec_insn ext (BPF_ALU64_REG op d s) nxt m =
     (case bpf_alu op (m_regs m d) (m_regs m s) of None \<Rightarrow> Stuck | Some v \<Rightarrow> Next (set_reg d v m))"
  by (simp add: exec_insn_def BPF_ALU64_REG_def code_fields Let_def split: option.splits)

lemma exec_alu_imm [insn_simps]:
  "op AND 15 = 0 \<Longrightarrow> exec_insn ext (BPF_ALU64_IMM op d i) nxt m =
     (case bpf_alu op (m_regs m d) (imm32 i) of None \<Rightarrow> Stuck | Some v \<Rightarrow> Next (set_reg d v m))"
  by (simp add: exec_insn_def BPF_ALU64_IMM_def code_fields Let_def imm32_def split: option.splits)

lemma exec_mov_reg [insn_simps]: "exec_insn ext (BPF_MOV_REG d s) nxt m = Next (set_reg d (m_regs m s) m)"
  by (simp add: BPF_MOV_REG_def exec_alu_reg bpf_alu_def)

lemma exec_mov_imm [insn_simps]: "exec_insn ext (BPF_MOV_IMM d i) nxt m = Next (set_reg d (imm32 i) m)"
  by (simp add: BPF_MOV_IMM_def exec_alu_imm bpf_alu_def)

lemma exec_neg [insn_simps]: "exec_insn ext (BPF_NEG_REG d) nxt m = Next (set_reg d (- m_regs m d) m)"
  by (simp add: BPF_NEG_REG_def exec_insn_def BPF_CLASS_def BPF_OP_def bpf_alu_def)

lemma exec_load [insn_simps]:
  "sz AND 0xe7 = 0 \<Longrightarrow> exec_insn ext (BPF_LOAD sz d s i) nxt m =
     Next (set_reg d (mem_load (size_bytes sz) (m_mem m) (m_regs m s + off16 i)) m)"
  by (simp add: exec_insn_def BPF_LOAD_def sz_fields Let_def off16_def)

lemma exec_store [insn_simps]:
  "sz AND 0xe7 = 0 \<Longrightarrow> exec_insn ext (BPF_STORE sz d i s) nxt m =
     Next (set_mem (mem_store (size_bytes sz) (m_mem m) (m_regs m d + off16 i) (m_regs m s)) m)"
  by (simp add: exec_insn_def BPF_STORE_def sz_fields Let_def off16_def)

lemma exec_store_imm [insn_simps]:
  "sz AND 0xe7 = 0 \<Longrightarrow> exec_insn ext (BPF_STORE_IMM sz d i v) nxt m =
     Next (set_mem (mem_store (size_bytes sz) (m_mem m) (m_regs m d + off16 i) (imm32 v)) m)"
  by (simp add: exec_insn_def BPF_STORE_IMM_def sz_fields Let_def off16_def imm32_def)

lemma exec_xadd [insn_simps]:
  "sz AND 0xe7 = 0 \<Longrightarrow> exec_insn ext (BPF_XADD_REG sz d i s) nxt m =
     Next (set_mem (mem_store (size_bytes sz) (m_mem m) (m_regs m d + off16 i)
       (mem_load (size_bytes sz) (m_mem m) (m_regs m d + off16 i) + m_regs m s)) m)"
  by (simp add: exec_insn_def BPF_XADD_REG_def sz_fields Let_def off16_def)

lemma exec_lddw [insn_simps]:
  "exec_insn ext (fst (BPF_LDDW d v)) (Some (snd (BPF_LDDW d v))) m = Next2 (set_reg d v m)"
proof -
  have "ucast (ucast v :: u32) OR push_bit 32 (ucast (ucast (drop_bit 32 v) :: u32)) = v"
    by (rule bit_word_eqI) (auto simp: bit_simps)
  then show ?thesis by (simp add: exec_insn_def BPF_LDDW_def BPF_CLASS_def BPF_MODE_def)
qed

lemma exec_call [insn_simps]:
  "exec_insn ext (BPF_CALL_FUNC i) nxt m = (case ext (BPF_CALL_FUNC i) m of None \<Rightarrow> Stuck | Some m' \<Rightarrow> Next m')"
  "exec_insn ext (BPF_CALL_HELPER i) nxt m = (case ext (BPF_CALL_HELPER i) m of None \<Rightarrow> Stuck | Some m' \<Rightarrow> Next m')"
  by (simp_all add: exec_insn_def BPF_CALL_FUNC_def BPF_CALL_HELPER_def BPF_CLASS_def)

lemma exec_return [insn_simps]: "exec_insn ext BPF_RETURN nxt m = Exit m"
  by (simp add: exec_insn_def BPF_RETURN_def BPF_CLASS_def)

lemma exec_jump [insn_simps]: "exec_insn ext (BPF_JUMP l) nxt m = Taken m"
  by (simp add: exec_insn_def BPF_JUMP_def BPF_CLASS_def)

lemma exec_nop [insn_simps]: "exec_insn ext BPF_NOP nxt m = Taken m"
  by (simp add: BPF_NOP_def exec_jump)

definition is_jop :: "u8 \<Rightarrow> bool" where
  "is_jop op \<longleftrightarrow> op \<in> {BPF_JEQ, BPF_JGT, BPF_JGE, BPF_JSET, BPF_JNE, BPF_JSGT, BPF_JSGE, BPF_JLT, BPF_JLE, BPF_JSLT, BPF_JSLE}"

lemma exec_branch_reg [insn_simps]:
  "is_jop op \<Longrightarrow> exec_insn ext (BPF_BRANCH_REG op a b l) nxt m =
     (if the (bpf_cond op (m_regs m a) (m_regs m b)) then Taken m else Next m)"
  by (auto simp: is_jop_def exec_insn_def BPF_BRANCH_REG_def BPF_CLASS_def BPF_OP_def BPF_SRC_def bpf_cond_def)

lemma exec_branch_imm [insn_simps]:
  "is_jop op \<Longrightarrow> exec_insn ext (BPF_BRANCH_IMM op a v l) nxt m =
     (if the (bpf_cond op (m_regs m a) (imm32 v)) then Taken m else Next m)"
  by (auto simp: is_jop_def exec_insn_def BPF_BRANCH_IMM_def BPF_CLASS_def BPF_OP_def BPF_SRC_def bpf_cond_def imm32_def)

end
