(* ===== verification/DTAs.thy ===== *)
theory DTAs
  imports DTBpf DTStrtab
begin

unbundle bit_operations_syntax

text \<open>
  Instruction lists and the assembler: \<open>libdtrace/dt_as.h\<close> and \<open>libdtrace/dt_as.c\<close>.

  The code generator appends labelled instructions to a list (\<open>dt_irlist_append\<close> behind the
  \<open>emit\<close> macros); a branch carries the number of a label in its offset field.  \<open>dt_as\<close> turns the
  list into a program of BPF instructions: it drops the labelled no-operations, replaces
  label numbers by relative offsets, and collects variable, relocation and string
  tables.  Errors raised with \<open>longjmp\<close> are the left values of a sum.

  Proved: the label table holds what the branches need, and the assembled program does
  what the list with its labels does, step by step.
\<close>

section \<open>Identifiers\<close>

datatype idkind = DT_IDENT_ARRAY | DT_IDENT_SCALAR | DT_IDENT_PTR | DT_IDENT_FUNC | DT_IDENT_AGG
  | DT_IDENT_AGGFUNC | DT_IDENT_ACTFUNC | DT_IDENT_XLSOU | DT_IDENT_XLPTR | DT_IDENT_SYMBOL
  | DT_IDENT_ENUM | DT_IDENT_PRAGAT | DT_IDENT_PRAGBN | DT_IDENT_PROBE

abbreviation (input) DT_IDFLG_TLS :: u16 where "DT_IDFLG_TLS \<equiv> 0x0001"
abbreviation (input) DT_IDFLG_LOCAL :: u16 where "DT_IDFLG_LOCAL \<equiv> 0x0002"
abbreviation (input) DT_IDFLG_DIFR :: u16 where "DT_IDFLG_DIFR \<equiv> 0x0040"
abbreviation (input) DT_IDFLG_DIFW :: u16 where "DT_IDFLG_DIFW \<equiv> 0x0080"
abbreviation (input) DT_IDFLG_USER :: u16 where "DT_IDFLG_USER \<equiv> 0x0200"
abbreviation (input) DT_IDFLG_BPF :: u16 where "DT_IDFLG_BPF \<equiv> 0x1000"

text \<open>\<open>di_symid\<close> is the field \<open>id\<close> of the symbol information that \<open>di_data\<close> points to.\<close>

record ident =
  di_name :: cstr
  di_kind :: idkind
  di_flags :: u16
  di_id :: u32
  di_offset :: int
  di_size :: int
  di_symid :: "u64 option"

section \<open>Instruction lists\<close>

abbreviation (input) DT_LBL_NONE :: nat where "DT_LBL_NONE \<equiv> 0"

record irnode =
  di_label :: nat
  di_instr :: bpf_insn
  di_extern :: "ident option"

record irlist =
  dl_list :: "irnode list"
  dl_len :: nat
  dl_label :: nat

definition dt_irlist_create :: irlist where
  "dt_irlist_create = \<lparr>dl_list = [], dl_len = 0, dl_label = 1\<rparr>"

text \<open>A labelled no-operation only marks a place.\<close>

definition ir_counts :: "irnode \<Rightarrow> bool" where
  "ir_counts dip \<longleftrightarrow> di_label dip = DT_LBL_NONE \<or> \<not> BPF_IS_NOP (di_instr dip)"

definition dt_irlist_append :: "irlist \<Rightarrow> irnode \<Rightarrow> irlist" where
  "dt_irlist_append dlp dip =
     dlp\<lparr>dl_list := dl_list dlp @ [dip],
         dl_len := (if ir_counts dip then dl_len dlp + 1 else dl_len dlp)\<rparr>"

definition dt_irlist_label :: "irlist \<Rightarrow> nat \<times> irlist" where
  "dt_irlist_label dlp = (dl_label dlp, dlp\<lparr>dl_label := dl_label dlp + 1\<rparr>)"

definition dt_cg_node_alloc :: "nat \<Rightarrow> bpf_insn \<Rightarrow> irnode" where
  "dt_cg_node_alloc label instr = \<lparr>di_label = label, di_instr = instr, di_extern = None\<rparr>"

definition emitle :: "irlist \<Rightarrow> nat \<Rightarrow> bpf_insn \<Rightarrow> ident option \<Rightarrow> irlist" where
  "emitle dlp lbl instr idp = dt_irlist_append dlp ((dt_cg_node_alloc lbl instr)\<lparr>di_extern := idp\<rparr>)"

definition emite :: "irlist \<Rightarrow> bpf_insn \<Rightarrow> ident \<Rightarrow> irlist" where
  "emite dlp instr idp = emitle dlp DT_LBL_NONE instr (Some idp)"

definition emitl :: "irlist \<Rightarrow> nat \<Rightarrow> bpf_insn \<Rightarrow> irlist" where
  "emitl dlp lbl instr = emitle dlp lbl instr None"

definition emit :: "irlist \<Rightarrow> bpf_insn \<Rightarrow> irlist" where
  "emit dlp instr = emitle dlp DT_LBL_NONE instr None"

section \<open>The object that the assembler builds\<close>

record 't difv =
  dtdv_name :: u32
  dtdv_id :: u32
  dtdv_offset :: u32
  dtdv_kind :: u8
  dtdv_scope :: u8
  dtdv_insn_from :: u32
  dtdv_insn_to :: u32
  dtdv_flags :: u16
  dtdv_type :: 't

record relodesc =
  dofr_name :: u32
  dofr_type :: u32
  dofr_offset :: u64
  dofr_data :: u64

record 't difo =
  dtdo_buf :: "bpf_insn list"
  dtdo_strtab :: "u8 list"
  dtdo_vartab :: "'t difv list"
  dtdo_reclen :: nat
  dtdo_destructive :: bool
  dtdo_breltab :: "relodesc list"
  dtdo_kreltab :: "relodesc list"
  dtdo_ureltab :: "relodesc list"

datatype aserr = AS_NOMEM | AS_STR2BIG | AS_UNKNOWN | AS_RELO | AS_ASSERT | AS_OVERREAD

datatype linkmode = DT_LINK_KERNEL | DT_LINK_DYNAMIC | DT_LINK_STATIC

definition R_BPF_64_64 :: u32 where "R_BPF_64_64 = 1"

definition R_BPF_64_32 :: u32 where "R_BPF_64_32 = 10"

definition DIF_STROFF_MAX :: nat where "DIF_STROFF_MAX = 0x7fff"

section \<open>Variables\<close>

definition var_in_table :: "ident \<Rightarrow> bool" where
  "var_in_table idp \<longleftrightarrow> di_flags idp AND (DT_IDFLG_DIFR OR DT_IDFLG_DIFW) \<noteq> 0 \<or> di_kind idp = DT_IDENT_AGG"

definition dt_countvar :: "ident \<Rightarrow> nat \<Rightarrow> nat" where
  "dt_countvar idp n =
     (if di_flags idp AND (DT_IDFLG_DIFR OR DT_IDFLG_DIFW) \<noteq> 0 then n + 1
      else if di_kind idp = DT_IDENT_AGG then n + 1 else n)"

text \<open>An insertion into the string table of the compiler, with the checks that follow it everywhere.\<close>

definition as_string :: "strtab \<Rightarrow> cstr \<Rightarrow> alloc \<Rightarrow> aserr + (nat \<times> strtab \<times> alloc)" where
  "as_string sp name al =
     (case dt_strtab_insert sp (Some name) al of
        None \<Rightarrow> Inl AS_OVERREAD
      | Some (None, sp, al) \<Rightarrow> Inl AS_NOMEM
      | Some (Some off, sp, al) \<Rightarrow> if off > DIF_STROFF_MAX then Inl AS_STR2BIG else Inr (off, sp, al))"

text \<open>
  \<open>diftype\<close> stands for the type information the parser and libctf compute for an identifier.  The
  result has the identifier with its marks cleared.
\<close>

definition dt_copyvar ::
  "(ident \<Rightarrow> 't) \<Rightarrow> irlist \<Rightarrow> ident \<Rightarrow> 't difv list \<Rightarrow> strtab \<Rightarrow> alloc \<Rightarrow> aserr + ('t difv list \<times> ident \<times> strtab \<times> alloc)" where
  "dt_copyvar diftype dlp idp vartab sp al =
     (if di_flags idp AND (DT_IDFLG_DIFR OR DT_IDFLG_DIFW) = 0 \<and> di_kind idp \<noteq> DT_IDENT_AGG
      then Inr (vartab, idp, sp, al)
      else
        (case as_string sp (di_name idp) al of
           Inl e \<Rightarrow> Inl e
         | Inr (stroff, sp, al) \<Rightarrow>
             (let dvp = \<lparr>dtdv_name = of_nat stroff, dtdv_id = di_id idp,
                         dtdv_offset = word_of_int (di_offset idp),
                         dtdv_kind = (case di_kind idp of DT_IDENT_AGG \<Rightarrow> 2 | DT_IDENT_ARRAY \<Rightarrow> 0 | _ \<Rightarrow> 1),
                         dtdv_scope = (if di_flags idp AND DT_IDFLG_LOCAL \<noteq> 0 then 2
                                       else if di_flags idp AND DT_IDFLG_TLS \<noteq> 0 then 1 else 0),
                         dtdv_insn_from = 0,
                         dtdv_insn_to = of_nat (dl_len dlp) - 1,
                         dtdv_flags = (if di_flags idp AND DT_IDFLG_DIFR \<noteq> 0 then 1 else 0) OR
                                      (if di_flags idp AND DT_IDFLG_DIFW \<noteq> 0 then 2 else 0),
                         dtdv_type = diftype idp\<rparr>
              in Inr (vartab @ [dvp],
                      idp\<lparr>di_flags := di_flags idp AND NOT (DT_IDFLG_DIFR OR DT_IDFLG_DIFW)\<rparr>, sp, al))))"

fun as_copyvars ::
  "(ident \<Rightarrow> 't) \<Rightarrow> irlist \<Rightarrow> ident list \<Rightarrow> 't difv list \<Rightarrow> strtab \<Rightarrow> alloc \<Rightarrow>
     aserr + ('t difv list \<times> ident list \<times> strtab \<times> alloc)" where
  "as_copyvars diftype dlp [] vartab sp al = Inr (vartab, [], sp, al)"
| "as_copyvars diftype dlp (idp # idps) vartab sp al =
     (case dt_copyvar diftype dlp idp vartab sp al of
        Inl e \<Rightarrow> Inl e
      | Inr (vartab, idp, sp, al) \<Rightarrow>
          (case as_copyvars diftype dlp idps vartab sp al of
             Inl e \<Rightarrow> Inl e
           | Inr (vartab, idps, sp, al) \<Rightarrow> Inr (vartab, idp # idps, sp, al)))"

section \<open>The passes of the assembler\<close>

definition link_masks :: "linkmode \<Rightarrow> u32 \<times> u32 \<times> u32 \<times> u32" where
  "link_masks lm =
     (case lm of
        DT_LINK_KERNEL \<Rightarrow> (0, - 1, ucast DT_IDFLG_USER, ucast DT_IDFLG_USER)
      | DT_LINK_DYNAMIC \<Rightarrow> (ucast DT_IDFLG_USER, 0, ucast DT_IDFLG_USER, ucast DT_IDFLG_USER)
      | DT_LINK_STATIC \<Rightarrow> (0, - 1, 0, - 1))"

text \<open>The class of a relocation: BPF, kernel, user, or none.\<close>

datatype relclass = RelB | RelK | RelU | RelNone

definition rel_class :: "linkmode \<Rightarrow> ident \<Rightarrow> relclass" where
  "rel_class lm idp =
     (let (kmask, kbits, umask, ubits) = link_masks lm; f = ucast (di_flags idp) :: u32
      in if di_flags idp AND DT_IDFLG_BPF \<noteq> 0 then RelB
         else if f AND kmask = kbits then RelK
         else if f AND umask = ubits then RelU else RelNone)"

text \<open>The first pass, for one external reference: the class whose counter goes up, or an error.\<close>

definition as_count :: "linkmode \<Rightarrow> bpf_insn \<Rightarrow> ident \<Rightarrow> aserr + relclass" where
  "as_count lm instr idp =
     (let bpf = (di_flags idp AND DT_IDFLG_BPF \<noteq> 0) in
      if bi_code instr = BPF_ST OR BPF_MEM OR BPF_W \<or> bi_code instr = BPF_ST OR BPF_MEM OR BPF_DW \<or>
         bi_code instr = BPF_ALU64 OR BPF_MOV OR BPF_K
      then if bpf then Inr RelB else Inl AS_UNKNOWN
      else if bi_code instr = BPF_LD OR BPF_IMM OR BPF_DW then Inr (rel_class lm idp)
      else if bi_code instr = BPF_JMP OR BPF_CALL
      then if bi_src instr = BPF_PSEUDO_CALL \<and> bpf then Inr RelB else Inl AS_UNKNOWN
      else Inl AS_UNKNOWN)"

record pass1 =
  p1_buf :: "bpf_insn list"
  p1_labels :: "nat list"
  p1_brel :: nat
  p1_krel :: nat
  p1_urel :: nat

definition as_pass1_node :: "linkmode \<Rightarrow> irnode \<Rightarrow> pass1 \<Rightarrow> aserr + pass1" where
  "as_pass1_node lm dip st =
     (let st = (if di_label dip \<noteq> DT_LBL_NONE
                then st\<lparr>p1_labels := (p1_labels st)[di_label dip := length (p1_buf st)]\<rparr> else st);
          st = (if ir_counts dip then st\<lparr>p1_buf := p1_buf st @ [di_instr dip]\<rparr> else st)
      in case di_extern dip of
           None \<Rightarrow> Inr st
         | Some idp \<Rightarrow>
             (case as_count lm (di_instr dip) idp of
                Inl e \<Rightarrow> Inl e
              | Inr RelB \<Rightarrow> Inr (st\<lparr>p1_brel := p1_brel st + 1\<rparr>)
              | Inr RelK \<Rightarrow> Inr (st\<lparr>p1_krel := p1_krel st + 1\<rparr>)
              | Inr RelU \<Rightarrow> Inr (st\<lparr>p1_urel := p1_urel st + 1\<rparr>)
              | Inr RelNone \<Rightarrow> Inr st))"

fun as_pass1 :: "linkmode \<Rightarrow> irnode list \<Rightarrow> pass1 \<Rightarrow> aserr + pass1" where
  "as_pass1 lm [] st = Inr st"
| "as_pass1 lm (dip # dips) st =
     (case as_pass1_node lm dip st of Inl e \<Rightarrow> Inl e | Inr st \<Rightarrow> as_pass1 lm dips st)"

text \<open>The second pass, for the instruction at index \<open>i\<close>; the assertion on the label number is an error.\<close>

definition is_branch :: "bpf_insn \<Rightarrow> bool" where
  "is_branch instr \<longleftrightarrow>
     BPF_CLASS (bi_code instr) = BPF_JMP \<and> \<not> BPF_IS_NOP instr \<and>
     BPF_OP (bi_code instr) \<noteq> BPF_CALL \<and> BPF_OP (bi_code instr) \<noteq> BPF_EXIT"

definition as_branch :: "nat \<Rightarrow> nat list \<Rightarrow> nat \<Rightarrow> bpf_insn \<Rightarrow> aserr + bpf_insn" where
  "as_branch nlabels labels i instr =
     (if \<not> is_branch instr then Inr instr
      else if \<not> unat (scast (bi_off instr) :: u32) < nlabels then Inl AS_ASSERT
      else Inr (instr\<lparr>bi_off :=
             ucast (of_nat (labels ! unat (scast (bi_off instr) :: u32)) - of_nat i - 1 :: u32)\<rparr>))"

fun as_pass2 :: "nat \<Rightarrow> nat list \<Rightarrow> nat \<Rightarrow> bpf_insn list \<Rightarrow> aserr + bpf_insn list" where
  "as_pass2 nlabels labels i [] = Inr []"
| "as_pass2 nlabels labels i (instr # instrs) =
     (case as_branch nlabels labels i instr of
        Inl e \<Rightarrow> Inl e
      | Inr instr \<Rightarrow>
          (case as_pass2 nlabels labels (Suc i) instrs of Inl e \<Rightarrow> Inl e | Inr ins \<Rightarrow> Inr (instr # ins)))"

section \<open>Relocations\<close>

record pass3 =
  p3_i :: nat
  p3_buf :: "bpf_insn list"
  p3_b :: "relodesc list"
  p3_k :: "relodesc list"
  p3_u :: "relodesc list"

definition rel_type :: "bpf_insn \<Rightarrow> u32 option" where
  "rel_type instr =
     (if bi_code instr = BPF_LD OR BPF_IMM OR BPF_DW then Some R_BPF_64_64
      else if bi_code instr = BPF_ST OR BPF_MEM OR BPF_W then Some R_BPF_64_32
      else if bi_code instr = BPF_ST OR BPF_MEM OR BPF_DW then Some R_BPF_64_32
      else if bi_code instr = BPF_ALU64 OR BPF_MOV OR BPF_K then Some R_BPF_64_32
      else if bi_code instr = BPF_JMP OR BPF_CALL \<and> bi_src instr = BPF_PSEUDO_CALL then Some R_BPF_64_32
      else None)"

text \<open>
  \<open>nodefs\<close>: whether unresolved kernel and user symbols are allowed (\<open>DTRACE_C_KNODEF\<close>,
  \<open>DTRACE_C_UNODEF\<close>); otherwise \<open>dt_as_undef\<close> ends the compilation.
\<close>

definition as_reloc ::
  "linkmode \<Rightarrow> bool \<times> bool \<Rightarrow> nat \<Rightarrow> nat list \<Rightarrow> irnode \<Rightarrow> ident \<Rightarrow> pass3 \<Rightarrow> strtab \<Rightarrow> alloc \<Rightarrow>
     aserr + (pass3 \<times> strtab \<times> alloc)" where
  "as_reloc lm nodefs nlabels labels dip idp st sp al =
     (let i = p3_i st; c = rel_class lm idp in
      if c = RelNone then Inr (st, sp, al)
      else if \<not> (case c of RelB \<Rightarrow> True | RelK \<Rightarrow> fst nodefs | _ \<Rightarrow> snd nodefs) then Inl AS_RELO
      else
        (case rel_type (di_instr dip) of
           None \<Rightarrow> Inl AS_UNKNOWN
         | Some t \<Rightarrow>
             (case as_string sp (di_name idp) al of
                Inl e \<Rightarrow> Inl e
              | Inr (soff, sp, al) \<Rightarrow>
                  (let rp = \<lparr>dofr_name = of_nat soff, dofr_type = t, dofr_offset = of_nat ((i - 1) * 8), dofr_data = 0\<rparr> in
                   if c = RelB then
                     if di_kind idp = DT_IDENT_FUNC then
                       if \<not> unat (di_id idp) < nlabels then Inl AS_ASSERT
                       else
                         (let l = labels ! unat (di_id idp)
                          in Inr (st\<lparr>p3_b := p3_b st @ [rp\<lparr>dofr_data := of_nat l\<rparr>],
                                     p3_buf := (p3_buf st)[i - 1 := (p3_buf st ! (i - 1))\<lparr>bi_imm := of_nat l - of_nat i\<rparr>]\<rparr>,
                                  sp, al))
                     else Inr (st\<lparr>p3_b := p3_b st @ [rp\<lparr>dofr_data := ucast (di_id idp)\<rparr>]\<rparr>, sp, al)
                   else
                     (case di_symid idp of
                        None \<Rightarrow> Inl AS_ASSERT
                      | Some sid \<Rightarrow>
                          if c = RelK then Inr (st\<lparr>p3_k := p3_k st @ [rp\<lparr>dofr_data := sid\<rparr>]\<rparr>, sp, al)
                          else Inr (st\<lparr>p3_u := p3_u st @ [rp\<lparr>dofr_data := sid\<rparr>]\<rparr>, sp, al))))))"

fun as_relocs ::
  "linkmode \<Rightarrow> bool \<times> bool \<Rightarrow> nat \<Rightarrow> nat list \<Rightarrow> irnode list \<Rightarrow> pass3 \<Rightarrow> strtab \<Rightarrow> alloc \<Rightarrow>
     aserr + (pass3 \<times> strtab \<times> alloc)" where
  "as_relocs lm nodefs nlabels labels [] st sp al = Inr (st, sp, al)"
| "as_relocs lm nodefs nlabels labels (dip # dips) st sp al =
     (if \<not> ir_counts dip then as_relocs lm nodefs nlabels labels dips st sp al
      else
        (let st = st\<lparr>p3_i := p3_i st + 1\<rparr> in
         case di_extern dip of
           None \<Rightarrow> as_relocs lm nodefs nlabels labels dips st sp al
         | Some idp \<Rightarrow>
             (case as_reloc lm nodefs nlabels labels dip idp st sp al of
                Inl e \<Rightarrow> Inl e
              | Inr (st, sp, al) \<Rightarrow> as_relocs lm nodefs nlabels labels dips st sp al)))"

section \<open>The assembler\<close>

record 't asenv =
  as_linkmode :: linkmode
  as_nodefs :: "bool \<times> bool"
  as_destruct :: bool
  as_bufoff :: nat
  as_diftype :: "ident \<Rightarrow> 't"
  as_idents :: "ident list"

definition as_alloc :: "bool \<Rightarrow> alloc \<Rightarrow> aserr + alloc" where
  "as_alloc needed al =
     (if \<not> needed then Inr al
      else (let (ok, al) = alloc_ok al in if ok then Inr al else Inl AS_NOMEM))"

text \<open>The variable table: as many entries as \<open>dt_countvar\<close> counts in the four tables of identifiers.\<close>

definition as_vars ::
  "'t asenv \<Rightarrow> irlist \<Rightarrow> strtab \<Rightarrow> alloc \<Rightarrow> aserr + ('t difv list \<times> ident list \<times> strtab \<times> alloc)" where
  "as_vars env dlp sp al =
     (let n = fold dt_countvar (as_idents env) 0 in
      if n = 0 then Inr ([], as_idents env, sp, al)
      else
        (case as_alloc True al of
           Inl e \<Rightarrow> Inl e
         | Inr al \<Rightarrow> as_copyvars (as_diftype env) dlp (as_idents env) [] sp al))"

definition as_reltabs ::
  "'t asenv \<Rightarrow> irlist \<Rightarrow> pass1 \<Rightarrow> bpf_insn list \<Rightarrow> strtab \<Rightarrow> alloc \<Rightarrow> aserr + (pass3 \<times> strtab \<times> alloc)" where
  "as_reltabs env dlp p1 buf sp al =
     (case as_alloc (p1_brel p1 \<noteq> 0) al of
        Inl e \<Rightarrow> Inl e
      | Inr al \<Rightarrow>
          (case as_alloc (p1_krel p1 \<noteq> 0) al of
             Inl e \<Rightarrow> Inl e
           | Inr al \<Rightarrow>
               (case as_alloc (p1_urel p1 \<noteq> 0) al of
                  Inl e \<Rightarrow> Inl e
                | Inr al \<Rightarrow>
                    (let st = \<lparr>p3_i = 0, p3_buf = buf, p3_b = [], p3_k = [], p3_u = []\<rparr> in
                     if p1_brel p1 + p1_krel p1 + p1_urel p1 > 0 then
                       (case as_relocs (as_linkmode env) (as_nodefs env) (dl_label dlp) (p1_labels p1) (dl_list dlp) st sp al of
                          Inl e \<Rightarrow> Inl e
                        | Inr (st, sp, al) \<Rightarrow>
                            if length (p3_b st) = p1_brel p1 \<and> length (p3_k st) = p1_krel p1 \<and>
                               length (p3_u st) = p1_urel p1 \<and> p3_i st = length buf
                            then Inr (st, sp, al) else Inl AS_ASSERT)
                     else Inr (st, sp, al)))))"

definition dt_as ::
  "'t asenv \<Rightarrow> irlist \<Rightarrow> strtab \<Rightarrow> nat \<Rightarrow> alloc \<Rightarrow> aserr + ('t difo \<times> ident list \<times> strtab \<times> nat \<times> alloc)" where
  "dt_as env dlp sp maxreclen al =
     (case as_alloc True al of Inl e \<Rightarrow> Inl e | Inr al \<Rightarrow>
     (case as_alloc True al of Inl e \<Rightarrow> Inl e | Inr al \<Rightarrow>
     (case as_alloc True al of Inl e \<Rightarrow> Inl e | Inr al \<Rightarrow>
     (case as_pass1 (as_linkmode env) (dl_list dlp)
             \<lparr>p1_buf = [], p1_labels = replicate (dl_label dlp) 0, p1_brel = 0, p1_krel = 0, p1_urel = 0\<rparr> of
        Inl e \<Rightarrow> Inl e
      | Inr p1 \<Rightarrow>
          if length (p1_buf p1) \<noteq> dl_len dlp then Inl AS_ASSERT
          else
            (case as_pass2 (dl_label dlp) (p1_labels p1) 0 (p1_buf p1) of Inl e \<Rightarrow> Inl e | Inr buf \<Rightarrow>
            (case as_vars env dlp sp al of Inl e \<Rightarrow> Inl e | Inr (vartab, idps, sp, al) \<Rightarrow>
            (case as_reltabs env dlp p1 buf sp al of Inl e \<Rightarrow> Inl e | Inr (p3, sp, al) \<Rightarrow>
            (case as_alloc (dt_strtab_size sp > 0) al of Inl e \<Rightarrow> Inl e | Inr al \<Rightarrow>
            (case dt_strtab_write sp dt_strtab_copystr (replicate (dt_strtab_size sp) 0) of
               None \<Rightarrow> Inl AS_OVERREAD
             | Some (_, strtab) \<Rightarrow>
                 Inr (\<lparr>dtdo_buf = p3_buf p3, dtdo_strtab = strtab, dtdo_vartab = vartab,
                       dtdo_reclen = as_bufoff env, dtdo_destructive = as_destruct env,
                       dtdo_breltab = p3_b p3, dtdo_kreltab = p3_k p3, dtdo_ureltab = p3_u p3\<rparr>,
                      idps, sp, max (as_bufoff env) maxreclen, al))))))))))"

text \<open>
  Copying an object: each of the six tables that is not empty is allocated and copied.  The result
  \<open>None\<close> of the first allocation is dereferenced on the way out.
\<close>

datatype 'a copied = Copied 'a | CopyNoMem | CopyNull

fun copy_tables :: "bool list \<Rightarrow> alloc \<Rightarrow> bool \<times> alloc" where
  "copy_tables [] al = (True, al)"
| "copy_tables (needed # ts) al =
     (if \<not> needed then copy_tables ts al
      else (let (ok, al) = alloc_ok al in if \<not> ok then (False, al) else copy_tables ts al))"

definition dt_difo_copy :: "'t difo \<Rightarrow> alloc \<Rightarrow> 't difo copied \<times> alloc" where
  "dt_difo_copy odp al =
     (let (ok, al) = alloc_ok al in
      if \<not> ok then (CopyNull, al)
      else
        (let (ok, al) = copy_tables [dtdo_buf odp \<noteq> [], dtdo_strtab odp \<noteq> [], dtdo_vartab odp \<noteq> [],
                           dtdo_breltab odp \<noteq> [], dtdo_kreltab odp \<noteq> [], dtdo_ureltab odp \<noteq> []] al
         in if \<not> ok then (CopyNoMem, al) else (Copied (odp\<lparr>dtdo_reclen := 0\<rparr>), al)))"

section \<open>Running labelled code and assembled code\<close>

datatype cfg = At nat mstate | Done mstate

fun label_pos :: "irnode list \<Rightarrow> nat \<Rightarrow> nat option" where
  "label_pos [] l = None"
| "label_pos (dip # dips) l = (if di_label dip = l then Some 0 else map_option Suc (label_pos dips l))"

definition br_label :: "bpf_insn \<Rightarrow> nat" where
  "br_label i = unat (scast (bi_off i) :: u32)"

definition nth_instr :: "irnode list \<Rightarrow> nat \<Rightarrow> bpf_insn option" where
  "nth_instr P k = (if k < length P then Some (di_instr (P ! k)) else None)"

fun ir_step :: "calls \<Rightarrow> irnode list \<Rightarrow> cfg \<Rightarrow> cfg option" where
  "ir_step ext P (Done m) = None"
| "ir_step ext P (At pc m) =
     (case nth_instr P pc of
        None \<Rightarrow> None
      | Some i \<Rightarrow>
          (case exec_insn ext i (nth_instr P (pc + 1)) m of
             Next m' \<Rightarrow> Some (At (pc + 1) m')
           | Next2 m' \<Rightarrow> Some (At (pc + 2) m')
           | Taken m' \<Rightarrow> if BPF_IS_NOP i then Some (At (pc + 1) m')
                        else map_option (\<lambda>t. At t m') (label_pos P (br_label i))
           | Exit m' \<Rightarrow> Some (Done m')
           | Stuck \<Rightarrow> None))"

definition nth_insn :: "bpf_insn list \<Rightarrow> nat \<Rightarrow> bpf_insn option" where
  "nth_insn B k = (if k < length B then Some (B ! k) else None)"

fun asm_step :: "calls \<Rightarrow> bpf_insn list \<Rightarrow> cfg \<Rightarrow> cfg option" where
  "asm_step ext B (Done m) = None"
| "asm_step ext B (At pc m) =
     (case nth_insn B pc of
        None \<Rightarrow> None
      | Some i \<Rightarrow>
          (case exec_insn ext i (nth_insn B (pc + 1)) m of
             Next m' \<Rightarrow> Some (At (pc + 1) m')
           | Next2 m' \<Rightarrow> Some (At (pc + 2) m')
           | Taken m' \<Rightarrow> Some (At (nat (int pc + 1 + sint (bi_off i))) m')
           | Exit m' \<Rightarrow> Some (Done m')
           | Stuck \<Rightarrow> None))"

abbreviation ir_steps :: "calls \<Rightarrow> irnode list \<Rightarrow> cfg \<Rightarrow> cfg \<Rightarrow> bool" where
  "ir_steps ext P \<equiv> (\<lambda>c c'. ir_step ext P c = Some c')\<^sup>*\<^sup>*"

abbreviation asm_steps :: "calls \<Rightarrow> bpf_insn list \<Rightarrow> cfg \<Rightarrow> cfg \<Rightarrow> bool" where
  "asm_steps ext B \<equiv> (\<lambda>c c'. asm_step ext B c = Some c')\<^sup>*\<^sup>*"

section \<open>What the passes compute\<close>

definition out_pos :: "irnode list \<Rightarrow> nat \<Rightarrow> nat" where
  "out_pos P k = length (filter ir_counts (take k P))"

definition labels_of :: "irnode list \<Rightarrow> nat list" where
  "labels_of P = filter (\<lambda>l. l \<noteq> DT_LBL_NONE) (map di_label P)"

lemma out_pos_simps [simp]: "out_pos P 0 = 0" "out_pos (n # P) (Suc k) = (if ir_counts n then 1 else 0) + out_pos P k"
  by (auto simp: out_pos_def)

lemma label_pos_None: "label_pos P l = None \<longleftrightarrow> l \<notin> set (map di_label P)"
  by (induction P) auto

lemma label_pos_Some: "label_pos P l = Some k \<Longrightarrow> k < length P \<and> di_label (P ! k) = l"
  by (induction P arbitrary: k) (auto split: if_splits)

lemma as_pass1_node_buf:
  assumes "as_pass1_node lm dip st = Inr st'"
  shows "p1_buf st' = p1_buf st @ (if ir_counts dip then [di_instr dip] else [])"
    "p1_labels st' = (if di_label dip \<noteq> 0 then (p1_labels st)[di_label dip := length (p1_buf st)] else p1_labels st)"
  using assms by (auto simp: as_pass1_node_def Let_def split: option.splits sum.splits relclass.splits if_splits)

lemma as_pass1_result:
  assumes "as_pass1 lm P st = Inr st'" "distinct (labels_of P)"
  shows "p1_buf st' = p1_buf st @ map di_instr (filter ir_counts P) \<and> length (p1_labels st') = length (p1_labels st) \<and>
    (\<forall>l. l \<noteq> 0 \<and> l < length (p1_labels st) \<longrightarrow> p1_labels st' ! l =
      (case label_pos P l of None \<Rightarrow> p1_labels st ! l | Some k \<Rightarrow> length (p1_buf st) + out_pos P k))"
  using assms
proof (induction P arbitrary: st)
  case (Cons dip P)
  obtain st1 where s: "as_pass1_node lm dip st = Inr st1" "as_pass1 lm P st1 = Inr st'"
    using Cons.prems(1) by (auto split: sum.splits)
  note b = as_pass1_node_buf [OF s(1)]
  have d: "distinct (labels_of P)" and n: "di_label dip \<noteq> 0 \<Longrightarrow> label_pos P (di_label dip) = None"
    using Cons.prems(2) by (auto simp: labels_of_def label_pos_None split: if_splits)
  note IH = Cons.IH [OF s(2) d]
  show ?case
  proof (intro conjI allI impI)
    fix l assume l: "l \<noteq> 0 \<and> l < length (p1_labels st)"
    show "p1_labels st' ! l = (case label_pos (dip # P) l of None \<Rightarrow> p1_labels st ! l | Some k \<Rightarrow> length (p1_buf st) + out_pos (dip # P) k)"
    proof (cases "di_label dip = l")
      case True
      then show ?thesis using IH b n l by auto
    next
      case False
      then show ?thesis using IH b l by (auto split: option.splits)
    qed
  qed (use IH b in auto)
qed simp

lemma as_pass2_result:
  assumes "as_pass2 n labels i B = Inr B'"
  shows "length B' = length B \<and> (\<forall>k < length B. as_branch n labels (i + k) (B ! k) = Inr (B' ! k))"
  using assms
proof (induction B arbitrary: i B')
  case (Cons b B)
  then obtain b' B'' where "as_branch n labels i b = Inr b'" "as_pass2 n labels (Suc i) B = Inr B''" "B' = b' # B''"
    by (auto split: sum.splits)
  then show ?case using Cons.IH [of "Suc i" B''] by (auto simp: nth_Cons split: nat.splits)
qed simp

text \<open>Only calls of functions inside the object change in the relocation pass.\<close>

definition plain_externs :: "irnode list \<Rightarrow> bool" where
  "plain_externs P \<longleftrightarrow> (\<forall>n \<in> set P. \<forall>idp. di_extern n = Some idp \<longrightarrow> di_kind idp \<noteq> DT_IDENT_FUNC)"

lemma as_reloc_buf:
  "as_reloc lm nd n labels dip idp st sp al = Inr (st', sp', al') \<Longrightarrow> di_kind idp \<noteq> DT_IDENT_FUNC \<Longrightarrow> p3_buf st' = p3_buf st"
  by (auto simp: as_reloc_def Let_def split: if_splits option.splits sum.splits prod.splits)

lemma as_relocs_buf:
  "as_relocs lm nd n labels P st sp al = Inr (st', sp', al') \<Longrightarrow> plain_externs P \<Longrightarrow> p3_buf st' = p3_buf st"
proof (induction P arbitrary: st sp al)
  case (Cons dip P)
  then have p: "plain_externs P" by (simp add: plain_externs_def)
  show ?case
  proof (cases "ir_counts dip")
    case True
    show ?thesis
    proof (cases "di_extern dip")
      case None
      then show ?thesis using Cons.prems True Cons.IH [OF _ p] by fastforce
    next
      case (Some idp)
      then have k: "di_kind idp \<noteq> DT_IDENT_FUNC" using Cons.prems(2) by (simp add: plain_externs_def)
      obtain st1 sp1 al1 where r: "as_reloc lm nd n labels dip idp (st\<lparr>p3_i := p3_i st + 1\<rparr>) sp al = Inr (st1, sp1, al1)"
        "as_relocs lm nd n labels P st1 sp1 al1 = Inr (st', sp', al')"
        using Cons.prems(1) True Some by (auto split: sum.splits)
      then show ?thesis using as_reloc_buf [OF r(1) k] Cons.IH [OF r(2) p] by simp
    qed
  qed (use Cons p in auto)
qed simp

lemma as_reltabs_buf:
  assumes "as_reltabs env dlp p1 buf sp al = Inr (p3, sp', al')" "plain_externs (dl_list dlp)"
  shows "p3_buf p3 = buf"
  using assms as_relocs_buf [OF _ assms(2)]
  by (auto simp: as_reltabs_def Let_def split: sum.splits if_splits prod.splits)

section \<open>The assembled program simulates the list\<close>

text \<open>
  What the code generator guarantees of its lists: labels are defined once and below the next
  label, branches go to defined labels, the second half of a 64-bit constant follows the
  first; and the list is short enough for 16-bit offsets.
\<close>

definition is_lddw :: "bpf_insn \<Rightarrow> bool" where
  "is_lddw i \<longleftrightarrow> bi_code i = BPF_LD OR BPF_IMM OR BPF_DW"

definition ir_wf :: "irlist \<Rightarrow> bool" where
  "ir_wf dlp \<longleftrightarrow>
     distinct (labels_of (dl_list dlp)) \<and>
     (\<forall>n \<in> set (dl_list dlp). di_label n < dl_label dlp) \<and>
     (\<forall>n \<in> set (dl_list dlp). is_branch (di_instr n) \<longrightarrow>
        br_label (di_instr n) \<noteq> 0 \<and> br_label (di_instr n) \<in> set (map di_label (dl_list dlp))) \<and>
     (\<forall>k < length (dl_list dlp). is_lddw (di_instr (dl_list dlp ! k)) \<longrightarrow>
        k + 1 < length (dl_list dlp) \<and> ir_counts (dl_list dlp ! (k + 1))) \<and>
     length (dl_list dlp) < 2 ^ 15"

lemma exec_off: "is_branch i \<Longrightarrow> exec_insn ext (i\<lparr>bi_off := off\<rparr>) nxt m = exec_insn ext i nxt m"
proof -
  assume b: "is_branch i"
  then have "bi_code i \<noteq> 0x85" by (auto simp: is_branch_def BPF_OP_def)
  with b show ?thesis by (simp add: is_branch_def exec_insn_def Let_def cong: outcome.case_cong option.case_cong)
qed

lemma exec_nxt: "is_lddw i \<longrightarrow> map_option bi_imm nxt = map_option bi_imm nxt' \<Longrightarrow> exec_insn ext i nxt m = exec_insn ext i nxt' m"
  by (cases nxt; cases nxt') (auto simp: exec_insn_def is_lddw_def Let_def)

lemma exec_Taken: "exec_insn ext i nxt m = Taken m' \<Longrightarrow> is_branch i \<or> BPF_IS_NOP i"
proof -
  assume t: "exec_insn ext i nxt m = Taken m'"
  then have c: "BPF_CLASS (bi_code i) = BPF_JMP" "bi_code i \<noteq> BPF_JMP OR BPF_CALL" "bi_code i \<noteq> BPF_JMP OR BPF_EXIT"
    by (auto simp: exec_insn_def Let_def split: if_splits option.splits)
  show ?thesis
  proof (cases "bi_code i = BPF_JMP OR BPF_JA")
    case True
    then show ?thesis by (auto simp: is_branch_def BPF_IS_NOP_def BPF_CLASS_def BPF_OP_def)
  next
    case False
    then have "\<exists>b. bpf_cond (BPF_OP (bi_code i)) (m_regs m (bi_dst i))
        (if BPF_SRC (bi_code i) = BPF_X then m_regs m (bi_src i) else scast (bi_imm i)) = Some b"
      using t c by (auto simp: exec_insn_def Let_def split: if_splits option.splits)
    then have "BPF_OP (bi_code i) \<noteq> BPF_CALL" "BPF_OP (bi_code i) \<noteq> BPF_EXIT"
      by (auto simp: bpf_cond_def)
    then show ?thesis using c(1) by (simp add: is_branch_def)
  qed
qed

lemma exec_Next2: "exec_insn ext i nxt m = Next2 m' \<Longrightarrow> is_lddw i"
  by (auto simp: exec_insn_def is_lddw_def Let_def split: if_splits option.splits)

lemma filter_nth_pos:
  "k < length P \<Longrightarrow> ir_counts (P ! k) \<Longrightarrow> out_pos P k < length (filter ir_counts P) \<and> filter ir_counts P ! out_pos P k = P ! k"
proof -
  assume k: "k < length P" "ir_counts (P ! k)"
  have "filter ir_counts P = filter ir_counts (take k P) @ filter ir_counts (P ! k # drop (Suc k) P)"
    using id_take_nth_drop [OF k(1)] by (metis filter_append)
  then show ?thesis using k by (simp add: out_pos_def nth_append)
qed

lemma out_pos_Suc: "k < length P \<Longrightarrow> out_pos P (Suc k) = out_pos P k + (if ir_counts (P ! k) then 1 else 0)"
  by (simp add: out_pos_def take_Suc_conv_app_nth)

lemma out_pos_le: "out_pos P k \<le> length P"
  by (simp add: out_pos_def) (metis le_trans length_filter_le length_take min.cobounded1)

lemma nop_skip: "BPF_IS_NOP i \<Longrightarrow> exec_insn ext i nxt m = Taken m"
  by (auto simp: BPF_IS_NOP_def exec_insn_def BPF_CLASS_def Let_def)

lemma sint_small:
  fixes t i :: nat
  assumes "t < 2 ^ 15" "i < 2 ^ 15"
  shows "sint (ucast (of_nat t - of_nat i - 1 :: u32) :: u16) = int t - int i - 1"
proof -
  define k where "k = int t - int i - 1"
  have w: "(of_nat t - of_nat i - 1 :: u32) = word_of_int k" by (simp add: k_def)
  have "(ucast (word_of_int k :: u32) :: u16) = word_of_int (take_bit 32 k)"
    by (simp add: unsigned_of_int of_nat_nat)
  also have "\<dots> = word_of_int k"
    by (rule bit_word_eqI) (simp only: bit_word_of_int_iff, simp add: bit_take_bit_iff)
  finally have "sint (ucast (word_of_int k :: u32) :: u16) = sint (word_of_int k :: u16)" by simp
  also have "\<dots> = k" proof -
    have "- (2 ^ 15) \<le> k" "k < 2 ^ 15" using assms by (auto simp: k_def)
    then show ?thesis by (simp add: signed_of_int signed_take_bit_int_eq_self)
  qed
  finally show ?thesis unfolding w k_def .
qed

text \<open>The facts about the output of the first two passes that the simulation needs.\<close>

definition assembled :: "irnode list \<Rightarrow> bpf_insn list \<Rightarrow> bool" where
  "assembled P B \<longleftrightarrow>
     length B = length (filter ir_counts P) \<and>
     (\<forall>k < length P. ir_counts (P ! k) \<longrightarrow>
        (if is_branch (di_instr (P ! k))
         then \<exists>t off. label_pos P (br_label (di_instr (P ! k))) = Some t \<and>
           B ! out_pos P k = (di_instr (P ! k))\<lparr>bi_off := off\<rparr> \<and>
           sint off = int (out_pos P t) - int (out_pos P k) - 1
         else B ! out_pos P k = di_instr (P ! k)))"

lemma dt_as_assembled:
  assumes "dt_as env dlp sp mx al = Inr (dp, rest)" "ir_wf dlp" "plain_externs (dl_list dlp)"
  shows "assembled (dl_list dlp) (dtdo_buf dp)"
proof -
  let ?P = "dl_list dlp"
  obtain p1 buf sp1 al1 p3 sp2 al2 where
    p1: "as_pass1 (as_linkmode env) ?P
      \<lparr>p1_buf = [], p1_labels = replicate (dl_label dlp) 0, p1_brel = 0, p1_krel = 0, p1_urel = 0\<rparr> = Inr p1"
    and p2: "as_pass2 (dl_label dlp) (p1_labels p1) 0 (p1_buf p1) = Inr buf"
    and p3: "as_reltabs env dlp p1 buf sp1 al1 = Inr (p3, sp2, al2)" and b: "dtdo_buf dp = p3_buf p3"
    using assms(1) by (auto simp: dt_as_def split: sum.splits if_splits prod.splits option.splits)
  have wf: "distinct (labels_of ?P)" "\<And>n. n \<in> set ?P \<Longrightarrow> di_label n < dl_label dlp" "length ?P < 2 ^ 15"
    "\<And>n. n \<in> set ?P \<Longrightarrow> is_branch (di_instr n) \<Longrightarrow> br_label (di_instr n) \<noteq> 0 \<and> br_label (di_instr n) \<in> set (map di_label ?P)"
    using assms(2) by (auto simp: ir_wf_def)
  note r1 = as_pass1_result [OF p1 wf(1), simplified]
  note r2 = as_pass2_result [OF p2]
  have B: "dtdo_buf dp = buf" using b as_reltabs_buf [OF p3 assms(3)] by simp
  have len: "length buf = length (filter ir_counts ?P)" using r1 r2 by simp
  have br: "if is_branch (di_instr (?P ! k))
     then \<exists>t off. label_pos ?P (br_label (di_instr (?P ! k))) = Some t \<and>
           buf ! out_pos ?P k = (di_instr (?P ! k))\<lparr>bi_off := off\<rparr> \<and>
           sint off = int (out_pos ?P t) - int (out_pos ?P k) - 1
     else buf ! out_pos ?P k = di_instr (?P ! k)" if k: "k < length ?P" "ir_counts (?P ! k)" for k
  proof -
    let ?i = "di_instr (?P ! k)" and ?j = "out_pos ?P k"
    have j: "?j < length (p1_buf p1)" "p1_buf p1 ! ?j = ?i" using filter_nth_pos [OF k] r1 by auto
    have a: "as_branch (dl_label dlp) (p1_labels p1) ?j ?i = Inr (buf ! ?j)" using r2 j by auto
    show ?thesis
    proof (cases "is_branch ?i")
      case True
      have n: "?P ! k \<in> set ?P" using k by simp
      obtain t where t: "label_pos ?P (br_label ?i) = Some t" using wf(4) [OF n True] label_pos_None by fastforce
      have l: "br_label ?i < dl_label dlp" using wf(2) wf(4) [OF n True] by auto
      have "p1_labels p1 ! br_label ?i = out_pos ?P t" using r1 l t wf(4) [OF n True] by auto
      then have "buf ! ?j = ?i\<lparr>bi_off := ucast (of_nat (out_pos ?P t) - of_nat ?j - 1 :: u32)\<rparr>"
        using a True by (simp add: as_branch_def br_label_def split: if_splits)
      moreover have "out_pos ?P t < 2 ^ 15" "?j < 2 ^ 15" using out_pos_le wf(3) by (meson le_less_trans)+
      ultimately show ?thesis using True t sint_small by auto
    qed (use a in \<open>simp add: as_branch_def\<close>)
  qed
  show ?thesis unfolding assembled_def B using len br by blast
qed

lemma assembled_branch:
  assumes "assembled P B" "k < length P" "ir_counts (P ! k)" "is_branch (di_instr (P ! k))"
  obtains t off where "label_pos P (br_label (di_instr (P ! k))) = Some t" "B ! out_pos P k = (di_instr (P ! k))\<lparr>bi_off := off\<rparr>"
    "sint off = int (out_pos P t) - int (out_pos P k) - 1"
proof -
  from assms(1-3) have "if is_branch (di_instr (P ! k))
         then \<exists>t off. label_pos P (br_label (di_instr (P ! k))) = Some t \<and>
           B ! out_pos P k = (di_instr (P ! k))\<lparr>bi_off := off\<rparr> \<and>
           sint off = int (out_pos P t) - int (out_pos P k) - 1
         else B ! out_pos P k = di_instr (P ! k)" unfolding assembled_def by blast
  with assms(4) that show thesis by auto
qed

lemma assembled_plain:
  assumes "assembled P B" "k < length P" "ir_counts (P ! k)" "\<not> is_branch (di_instr (P ! k))"
  shows "B ! out_pos P k = di_instr (P ! k)"
  using assms unfolding assembled_def by (auto simp: if_bool_eq_conj)

lemma assembled_imm:
  assumes "assembled P B" "k < length P" "ir_counts (P ! k)"
  shows "bi_imm (B ! out_pos P k) = bi_imm (di_instr (P ! k))"
  using assembled_plain [OF assms] by (cases "is_branch (di_instr (P ! k))") (auto elim: assembled_branch [OF assms])

lemma step_simulated:
  assumes as: "assembled P B" and wf: "ir_wf dlp" and P: "P = dl_list dlp"
    and st: "ir_step ext P (At pc m) = Some c"
  shows "asm_steps ext B (At (out_pos P pc) m)
    (case c of At pc' m' \<Rightarrow> At (out_pos P pc') m' | Done m' \<Rightarrow> Done m')"
proof -
  have pc: "pc < length P" using st by (auto simp: nth_instr_def split: if_splits)
  let ?i = "di_instr (P ! pc)"
  show ?thesis
  proof (cases "ir_counts (P ! pc)")
    case False
    then have nop: "BPF_IS_NOP ?i" by (simp add: ir_counts_def)
    then have "c = At (pc + 1) m" using st pc by (simp add: nth_instr_def nop_skip)
    then show ?thesis using out_pos_Suc [OF pc] False by simp
  next
    case True
    let ?j = "out_pos P pc"
    have j: "?j < length B" using filter_nth_pos [OF pc True] as by (simp add: assembled_def)
    have ld: "pc + 1 < length P \<and> ir_counts (P ! (pc + 1))" if "is_lddw ?i"
      using wf pc that unfolding ir_wf_def P by blast
    have nx: "map_option bi_imm (nth_instr P (pc + 1)) = map_option bi_imm (nth_insn B (?j + 1))" if "is_lddw ?i"
    proof -
      have p1: "pc + 1 < length P" "ir_counts (P ! (pc + 1))" using ld [OF that] by auto
      have o: "out_pos P (pc + 1) = ?j + 1" using out_pos_Suc [OF pc] True by simp
      have "?j + 1 < length B" using filter_nth_pos [OF p1] as o by (simp add: assembled_def)
      moreover have "bi_imm (B ! (?j + 1)) = bi_imm (di_instr (P ! (pc + 1)))"
        using assembled_imm [OF as p1] o by simp
      ultimately show ?thesis using p1 by (simp add: nth_instr_def nth_insn_def)
    qed
    have e: "exec_insn ext (B ! ?j) (nth_insn B (?j + 1)) m = exec_insn ext ?i (nth_instr P (pc + 1)) m"
    proof (cases "is_branch ?i")
      case br: True
      obtain off where "B ! ?j = ?i\<lparr>bi_off := off\<rparr>" using assembled_branch [OF as pc True br] by metis
      then show ?thesis using exec_off [OF br] exec_nxt [of ?i] nx by metis
    next
      case False
      then have "B ! ?j = ?i" by (rule assembled_plain [OF as pc True])
      then show ?thesis using exec_nxt [of ?i] nx by metis
    qed
    have o1: "out_pos P (pc + 1) = ?j + 1" using out_pos_Suc [OF pc] True by simp
    have "asm_step ext B (At ?j m) = Some (case c of At pc' m' \<Rightarrow> At (out_pos P pc') m' | Done m' \<Rightarrow> Done m')"
    proof (cases "exec_insn ext ?i (nth_instr P (pc + 1)) m")
      case (Next2 m')
      then have "is_lddw ?i" by (rule exec_Next2)
      then have "out_pos P (pc + 2) = ?j + 2" using ld out_pos_Suc [of "pc + 1" P] o1 by simp
      then show ?thesis using Next2 st pc j e by (auto simp: nth_instr_def nth_insn_def)
    next
      case (Taken m')
      show ?thesis
      proof (cases "BPF_IS_NOP ?i")
        case nop: True
        then have "\<not> is_branch ?i" by (simp add: is_branch_def)
        then have "B ! ?j = ?i" by (rule assembled_plain [OF as pc True])
        then show ?thesis using nop Taken st pc j e o1 by (auto simp: nth_instr_def nth_insn_def BPF_IS_NOP_def nat_add_distrib)
      next
        case nop: False
        then have br: "is_branch ?i" using exec_Taken [OF Taken] by blast
        obtain t off where t: "label_pos P (br_label ?i) = Some t" "B ! ?j = ?i\<lparr>bi_off := off\<rparr>"
          "sint off = int (out_pos P t) - int ?j - 1" by (rule assembled_branch [OF as pc True br])
        then have "nat (int ?j + 1 + sint (bi_off (B ! ?j))) = out_pos P t" by simp
        then show ?thesis using nop Taken st pc j e t by (auto simp: nth_instr_def nth_insn_def)
      qed
    qed (use st pc j e o1 in \<open>auto simp: nth_instr_def nth_insn_def\<close>)
    then show ?thesis by blast
  qed
qed

lemma steps_simulated:
  assumes "assembled (dl_list dlp) B" "ir_wf dlp" "ir_steps ext (dl_list dlp) (At 0 m) c"
  shows "asm_steps ext B (At 0 m) (case c of At pc m' \<Rightarrow> At (out_pos (dl_list dlp) pc) m' | Done m' \<Rightarrow> Done m')"
  using assms(3)
proof (induction rule: rtranclp_induct)
  case (step c c')
  show ?case
  proof (cases c)
    case (At pc m1)
    then show ?thesis using step step_simulated [OF assms(1,2) refl, of ext pc m1 c'] by (auto intro: rtranclp_trans)
  next
    case (Done m1)
    then show ?thesis using step(2) by simp
  qed
qed simp

text \<open>Classification of the instructions the code generator uses.\<close>

named_theorems insn_kinds \<open>classification of BPF instructions\<close>

lemma br_label_off: "0 \<le> l \<Longrightarrow> l < 2 ^ 15 \<Longrightarrow> bi_off i = word_of_int l \<Longrightarrow> br_label i = nat l"
proof -
  assume l: "0 \<le> l" "l < 2 ^ 15" and "bi_off i = word_of_int l"
  then have "scast (bi_off i) = (word_of_int l :: u32)" by (simp add: signed_of_int signed_take_bit_int_eq_self)
  then show ?thesis using l by (simp add: br_label_def unsigned_of_int take_bit_int_eq_self)
qed

lemma br_label_simps [insn_kinds]:
  "l < 2 ^ 15 \<Longrightarrow> br_label (BPF_BRANCH_IMM op r v (int l)) = l"
  "l < 2 ^ 15 \<Longrightarrow> br_label (BPF_BRANCH_REG op r r' (int l)) = l"
  "l < 2 ^ 15 \<Longrightarrow> br_label (BPF_JUMP (int l)) = l"
  using br_label_off [of "int l"] by (simp_all add: BPF_BRANCH_IMM_def BPF_BRANCH_REG_def BPF_JUMP_def)

lemma class_not_jmp: "BPF_CLASS (bi_code i) \<noteq> BPF_JMP \<Longrightarrow> \<not> is_branch i \<and> \<not> BPF_IS_NOP i"
  by (auto simp: is_branch_def BPF_IS_NOP_def BPF_CLASS_def)

lemma lddw_class: "is_lddw i \<Longrightarrow> BPF_CLASS (bi_code i) = BPF_LD"
  by (simp add: is_lddw_def BPF_CLASS_def)

lemma kinds_alu_reg [insn_kinds]:
  "op AND 15 = 0 \<Longrightarrow> \<not> is_branch (BPF_ALU64_REG op d s) \<and> \<not> BPF_IS_NOP (BPF_ALU64_REG op d s) \<and> \<not> is_lddw (BPF_ALU64_REG op d s)"
  using class_not_jmp [of "BPF_ALU64_REG op d s"] lddw_class [of "BPF_ALU64_REG op d s"] by (auto simp: BPF_ALU64_REG_def code_fields)

lemma kinds_alu_imm [insn_kinds]:
  "op AND 15 = 0 \<Longrightarrow> \<not> is_branch (BPF_ALU64_IMM op d v) \<and> \<not> BPF_IS_NOP (BPF_ALU64_IMM op d v) \<and> \<not> is_lddw (BPF_ALU64_IMM op d v)"
  using class_not_jmp [of "BPF_ALU64_IMM op d v"] lddw_class [of "BPF_ALU64_IMM op d v"] by (auto simp: BPF_ALU64_IMM_def code_fields)

lemma kinds_mov [insn_kinds]:
  "\<not> is_branch (BPF_MOV_REG d s)" "\<not> BPF_IS_NOP (BPF_MOV_REG d s)" "\<not> is_lddw (BPF_MOV_REG d s)"
  "\<not> is_branch (BPF_MOV_IMM d v)" "\<not> BPF_IS_NOP (BPF_MOV_IMM d v)" "\<not> is_lddw (BPF_MOV_IMM d v)"
  using kinds_alu_reg [of BPF_MOV d s] kinds_alu_imm [of BPF_MOV d v] by (simp_all add: BPF_MOV_REG_def BPF_MOV_IMM_def)

lemma kinds_neg [insn_kinds]:
  "\<not> is_branch (BPF_NEG_REG d)" "\<not> BPF_IS_NOP (BPF_NEG_REG d)" "\<not> is_lddw (BPF_NEG_REG d)"
  by (simp_all add: BPF_NEG_REG_def is_branch_def BPF_IS_NOP_def is_lddw_def BPF_CLASS_def)

lemma class_mem:
  "BPF_CLASS (bi_code i) \<in> {BPF_LDX, BPF_ST, BPF_STX} \<Longrightarrow> \<not> is_branch i \<and> \<not> BPF_IS_NOP i \<and> \<not> is_lddw i"
  by (auto simp: is_branch_def BPF_IS_NOP_def is_lddw_def BPF_CLASS_def)

lemma kinds_mem [insn_kinds]:
  assumes "sz AND 0xe7 = (0 :: u8)"
  shows "\<not> is_branch (BPF_LOAD sz d s i)" "\<not> BPF_IS_NOP (BPF_LOAD sz d s i)" "\<not> is_lddw (BPF_LOAD sz d s i)"
    "\<not> is_branch (BPF_STORE sz d i s)" "\<not> BPF_IS_NOP (BPF_STORE sz d i s)" "\<not> is_lddw (BPF_STORE sz d i s)"
    "\<not> is_branch (BPF_STORE_IMM sz d i v)" "\<not> BPF_IS_NOP (BPF_STORE_IMM sz d i v)" "\<not> is_lddw (BPF_STORE_IMM sz d i v)"
    "\<not> is_branch (BPF_XADD_REG sz d i s)" "\<not> BPF_IS_NOP (BPF_XADD_REG sz d i s)" "\<not> is_lddw (BPF_XADD_REG sz d i s)"
  using sz_fields [OF assms] class_mem [of "BPF_LOAD sz d s i"] class_mem [of "BPF_STORE sz d i s"]
    class_mem [of "BPF_STORE_IMM sz d i v"] class_mem [of "BPF_XADD_REG sz d i s"]
  by (simp_all add: BPF_LOAD_def BPF_STORE_def BPF_STORE_IMM_def BPF_XADD_REG_def)

lemma kinds_jump [insn_kinds]:
  "\<not> is_branch (BPF_CALL_FUNC v)" "\<not> BPF_IS_NOP (BPF_CALL_FUNC v)" "\<not> is_lddw (BPF_CALL_FUNC v)"
  "\<not> is_branch (BPF_CALL_HELPER v)" "\<not> BPF_IS_NOP (BPF_CALL_HELPER v)" "\<not> is_lddw (BPF_CALL_HELPER v)"
  "\<not> is_branch BPF_RETURN" "\<not> BPF_IS_NOP BPF_RETURN" "\<not> is_lddw BPF_RETURN"
  "\<not> is_branch BPF_NOP" "BPF_IS_NOP BPF_NOP" "\<not> is_lddw BPF_NOP" "\<not> is_lddw (BPF_JUMP v)"
  by (simp_all add: is_branch_def BPF_IS_NOP_def is_lddw_def BPF_CLASS_def BPF_OP_def BPF_CALL_FUNC_def BPF_CALL_HELPER_def
      BPF_RETURN_def BPF_NOP_def BPF_JUMP_def)

lemma kinds_lddw [insn_kinds]:
  "\<not> is_branch (fst (BPF_LDDW d v))" "\<not> BPF_IS_NOP (fst (BPF_LDDW d v))" "is_lddw (fst (BPF_LDDW d v))"
  "\<not> is_branch (snd (BPF_LDDW d v))" "\<not> BPF_IS_NOP (snd (BPF_LDDW d v))" "\<not> is_lddw (snd (BPF_LDDW d v))"
  by (simp_all add: is_branch_def BPF_IS_NOP_def is_lddw_def BPF_CLASS_def BPF_LDDW_def)

lemma kinds_branch [insn_kinds]:
  "is_jop op \<Longrightarrow> is_branch (BPF_BRANCH_IMM op r v l) \<and> \<not> BPF_IS_NOP (BPF_BRANCH_IMM op r v l) \<and> \<not> is_lddw (BPF_BRANCH_IMM op r v l)"
  "is_jop op \<Longrightarrow> is_branch (BPF_BRANCH_REG op r s l) \<and> \<not> BPF_IS_NOP (BPF_BRANCH_REG op r s l) \<and> \<not> is_lddw (BPF_BRANCH_REG op r s l)"
  by (auto simp: is_jop_def is_branch_def BPF_IS_NOP_def is_lddw_def BPF_CLASS_def BPF_OP_def BPF_BRANCH_IMM_def BPF_BRANCH_REG_def)

lemma kinds_ja [insn_kinds]: "0 < l \<Longrightarrow> l < 2 ^ 15 \<Longrightarrow> is_branch (BPF_JUMP (int l)) \<and> \<not> BPF_IS_NOP (BPF_JUMP (int l))"
proof -
  assume l: "0 < l" "l < 2 ^ 15"
  have "bi_off (BPF_JUMP (int l)) \<noteq> 0"
  proof
    assume "bi_off (BPF_JUMP (int l)) = 0"
    then have "br_label (BPF_JUMP (int l)) = 0" by (simp add: br_label_def)
    then show False using l by (simp add: br_label_simps)
  qed
  then show ?thesis by (simp add: is_branch_def BPF_IS_NOP_def BPF_CLASS_def BPF_OP_def BPF_JUMP_def)
qed

section \<open>Tables\<close>

lemma as_string_ok:
  assumes "as_string sp name al = Inr (off, sp', al')" "strtab_inv sp" "0 \<notin> set name"
  shows "strtab_inv sp'" "prefix (blob sp) (blob sp')" "blob_has sp' off name" "off \<le> DIF_STROFF_MAX"
proof -
  obtain al1 where i: "dt_strtab_insert sp (Some name) al = Some (Some off, sp', al1)" and m: "off \<le> DIF_STROFF_MAX"
    using assms(1) by (auto simp: as_string_def split: option.splits prod.splits if_splits)
  note c = insert_correct [OF assms(2,3) i, unfolded inserted_def]
  show "strtab_inv sp'" "prefix (blob sp) (blob sp')" "blob_has sp' off name" "off \<le> DIF_STROFF_MAX" using c m by auto
qed

definition names_ok :: "strtab \<Rightarrow> ident list \<Rightarrow> 't difv list \<Rightarrow> bool" where
  "names_ok sp idps vt \<longleftrightarrow>
     list_all2 (\<lambda>idp dvp. dtdv_id dvp = di_id idp \<and> blob_has sp (unat (dtdv_name dvp)) (di_name idp)) idps vt"

lemma names_ok_mono: "names_ok sp idps vt \<Longrightarrow> prefix (blob sp) (blob sp') \<Longrightarrow> names_ok sp' idps vt"
  unfolding names_ok_def by (erule list_all2_mono) (auto intro: blob_has_mono)

lemma unat_stroff: "off \<le> DIF_STROFF_MAX \<Longrightarrow> unat (of_nat off :: u32) = off"
  by (simp add: DIF_STROFF_MAX_def unsigned_of_nat take_bit_nat_eq_self)

lemma as_copyvars_ok:
  assumes "as_copyvars ty dlp idps vt sp al = Inr (vt', idps', sp', al')" "strtab_inv sp" "\<forall>i \<in> set idps. 0 \<notin> set (di_name i)"
    "names_ok sp done vt"
  shows "strtab_inv sp' \<and> prefix (blob sp) (blob sp') \<and> names_ok sp' (done @ filter var_in_table idps) vt'"
  using assms
proof (induction idps arbitrary: vt sp al "done" idps')
  case (Cons idp idps)
  obtain vt1 idp1 sp1 al1 idps1 where c: "dt_copyvar ty dlp idp vt sp al = Inr (vt1, idp1, sp1, al1)"
    "as_copyvars ty dlp idps vt1 sp1 al1 = Inr (vt', idps1, sp', al')"
    using Cons.prems(1) by (auto split: sum.splits)
  have z: "0 \<notin> set (di_name idp)" "\<forall>i \<in> set idps. 0 \<notin> set (di_name i)" using Cons.prems(3) by auto
  show ?case
  proof (cases "var_in_table idp")
    case False
    then have "vt1 = vt" "sp1 = sp" using c(1) by (auto simp: dt_copyvar_def var_in_table_def)
    then show ?thesis using Cons.IH [OF c(2) _ z(2)] Cons.prems(2,4) False by auto
  next
    case True
    then obtain off al2 where s: "as_string sp (di_name idp) al = Inr (off, sp1, al2)"
      and v: "\<exists>dvp. vt1 = vt @ [dvp] \<and> dtdv_name dvp = of_nat off \<and> dtdv_id dvp = di_id idp"
      using c(1) by (auto simp: dt_copyvar_def var_in_table_def Let_def split: sum.splits if_splits)
    note o = as_string_ok [OF s Cons.prems(2) z(1)]
    have "names_ok sp1 (done @ [idp]) vt1"
      using v o(3) unat_stroff [OF o(4)] names_ok_mono [OF Cons.prems(4) o(2)] by (auto simp: names_ok_def intro!: list_all2_appendI)
    from Cons.IH [OF c(2) o(1) z(2) this] show ?thesis using o(2) True by (auto intro: prefix_order.trans)
  qed
qed auto

lemma dt_countvar_filter: "fold dt_countvar idps n = n + length (filter var_in_table idps)"
  by (induction idps arbitrary: n) (auto simp: dt_countvar_def var_in_table_def)

lemma as_vars_ok:
  assumes "as_vars env dlp sp al = Inr (vt, idps', sp', al')" "strtab_inv sp" "\<forall>i \<in> set (as_idents env). 0 \<notin> set (di_name i)"
  shows "strtab_inv sp' \<and> prefix (blob sp) (blob sp') \<and> names_ok sp' (filter var_in_table (as_idents env)) vt"
proof (cases "fold dt_countvar (as_idents env) 0 = 0")
  case True
  then show ?thesis using assms by (auto simp: as_vars_def Let_def dt_countvar_filter names_ok_def)
next
  case False
  then obtain al1 where "as_copyvars (as_diftype env) dlp (as_idents env) [] sp al1 = Inr (vt, idps', sp', al')"
    using assms(1) by (auto simp: as_vars_def Let_def split: sum.splits)
  from as_copyvars_ok [OF this assms(2,3), of "[]"] show ?thesis by (simp add: names_ok_def)
qed

text \<open>The relocation tables: as many entries as were counted, each for an instruction of the program, with a valid name.\<close>

definition rel_ok :: "strtab \<Rightarrow> irnode list \<Rightarrow> nat \<Rightarrow> relodesc \<Rightarrow> bool" where
  "rel_ok sp P n rp \<longleftrightarrow>
     (\<exists>k < n. dofr_offset rp = of_nat (8 * k)) \<and>
     (\<exists>dip \<in> set P. \<exists>idp. di_extern dip = Some idp \<and> blob_has sp (unat (dofr_name rp)) (di_name idp))"

lemma rel_ok_mono:
  "rel_ok sp P n rp \<Longrightarrow> prefix (blob sp) (blob sp') \<Longrightarrow> n \<le> n' \<Longrightarrow> rel_ok sp' P n' rp"
  unfolding rel_ok_def by (meson blob_has_mono less_le_trans)

definition rels :: "pass3 \<Rightarrow> relodesc set" where
  "rels st = set (p3_b st) \<union> set (p3_k st) \<union> set (p3_u st)"

lemma as_count_counts: "as_count lm instr idp = Inr c \<Longrightarrow> c = rel_class lm idp \<and> \<not> BPF_IS_NOP instr"
  by (auto simp: as_count_def rel_class_def BPF_IS_NOP_def Let_def split: if_splits prod.splits)

lemma as_reloc_ok:
  assumes "as_reloc lm nd n labels dip idp st sp al = Inr (st', sp', al')" "strtab_inv sp" "0 \<notin> set (di_name idp)"
    "di_extern dip = Some idp" "dip \<in> set P" "0 < p3_i st"
    "\<forall>rp \<in> rels st. rel_ok sp P (p3_i st) rp"
  shows "strtab_inv sp' \<and> prefix (blob sp) (blob sp') \<and> p3_i st' = p3_i st \<and>
    length (p3_b st') = length (p3_b st) + (if rel_class lm idp = RelB then 1 else 0) \<and>
    length (p3_k st') = length (p3_k st) + (if rel_class lm idp = RelK then 1 else 0) \<and>
    length (p3_u st') = length (p3_u st) + (if rel_class lm idp = RelU then 1 else 0) \<and>
    (\<forall>rp \<in> rels st'. rel_ok sp' P (p3_i st) rp)"
proof (cases "rel_class lm idp = RelNone")
  case True
  then show ?thesis using assms by (auto simp: as_reloc_def)
next
  case False
  then obtain t off al1 where s: "as_string sp (di_name idp) al = Inr (off, sp', al1)"
    and r: "\<exists>d. let rp = \<lparr>dofr_name = of_nat off, dofr_type = t, dofr_offset = of_nat ((p3_i st - 1) * 8), dofr_data = d\<rparr> in
        p3_b st' = p3_b st @ (if rel_class lm idp = RelB then [rp] else []) \<and>
        p3_k st' = p3_k st @ (if rel_class lm idp = RelK then [rp] else []) \<and>
        p3_u st' = p3_u st @ (if rel_class lm idp = RelU then [rp] else []) \<and> p3_i st' = p3_i st"
    using assms(1) by (cases "rel_class lm idp") (auto simp: as_reloc_def Let_def split: if_splits option.splits sum.splits)
  note o = as_string_ok [OF s assms(2,3)]
  have new: "rel_ok sp' P (p3_i st) rp" if "dofr_name rp = of_nat off" "dofr_offset rp = of_nat ((p3_i st - 1) * 8)" for rp
    using that o(3) unat_stroff [OF o(4)] assms(4,5,6) unfolding rel_ok_def
    by (auto intro!: exI [of _ "p3_i st - 1"] simp: mult.commute)
  have old: "\<forall>rp \<in> rels st. rel_ok sp' P (p3_i st) rp" using assms(7) rel_ok_mono [OF _ o(2)] by blast
  obtain rp where rp: "dofr_name rp = of_nat off" "dofr_offset rp = of_nat ((p3_i st - 1) * 8)"
    "p3_b st' = p3_b st @ (if rel_class lm idp = RelB then [rp] else [])"
    "p3_k st' = p3_k st @ (if rel_class lm idp = RelK then [rp] else [])"
    "p3_u st' = p3_u st @ (if rel_class lm idp = RelU then [rp] else [])" "p3_i st' = p3_i st"
    using r unfolding Let_def by (metis relodesc.select_convs(1,3))
  then have "rels st' \<subseteq> insert rp (rels st)" by (auto simp: rels_def split: if_splits)
  then show ?thesis using rp o(1,2) old new by auto
qed

lemma as_relocs_ok:
  assumes "as_relocs lm nd n labels Q st sp al = Inr (st', sp', al')" "as_pass1 lm Q q = Inr q'" "set Q \<subseteq> set P" "strtab_inv sp"
    "\<forall>dip \<in> set Q. \<forall>idp. di_extern dip = Some idp \<longrightarrow> 0 \<notin> set (di_name idp)" "\<forall>rp \<in> rels st. rel_ok sp P (p3_i st) rp"
  shows "strtab_inv sp' \<and> prefix (blob sp) (blob sp') \<and> p3_i st' = p3_i st + length (filter ir_counts Q) \<and>
    length (p3_b st') + p1_brel q = length (p3_b st) + p1_brel q' \<and>
    length (p3_k st') + p1_krel q = length (p3_k st) + p1_krel q' \<and>
    length (p3_u st') + p1_urel q = length (p3_u st) + p1_urel q' \<and> (\<forall>rp \<in> rels st'. rel_ok sp' P (p3_i st') rp)"
  using assms
proof (induction Q arbitrary: st sp al q)
  case (Cons dip Q)
  obtain q1 where q: "as_pass1_node lm dip q = Inr q1" "as_pass1 lm Q q1 = Inr q'"
    using Cons.prems(2) by (auto split: sum.splits)
  have sub: "set Q \<subseteq> set P" "dip \<in> set P" and z: "\<forall>dip \<in> set Q. \<forall>idp. di_extern dip = Some idp \<longrightarrow> 0 \<notin> set (di_name idp)"
    using Cons.prems(3,5) by auto
  show ?case
  proof (cases "di_extern dip")
    case None
    then have n: "p1_brel q1 = p1_brel q" "p1_krel q1 = p1_krel q" "p1_urel q1 = p1_urel q"
      using q(1) by (auto simp: as_pass1_node_def Let_def)
    show ?thesis
    proof (cases "ir_counts dip")
      case True
      have "rels (st\<lparr>p3_i := p3_i st + 1\<rparr>) = rels st" by (simp add: rels_def)
      then have "\<forall>rp \<in> rels (st\<lparr>p3_i := p3_i st + 1\<rparr>). rel_ok sp P (p3_i (st\<lparr>p3_i := p3_i st + 1\<rparr>)) rp"
        using Cons.prems(6) rel_ok_mono [of sp P "p3_i st" _ sp "p3_i st + 1"] by simp
      then show ?thesis using Cons.IH [OF _ q(2) sub(1) Cons.prems(4) z, of "st\<lparr>p3_i := p3_i st + 1\<rparr>" al] Cons.prems(1) None True n by auto
    next
      case False
      then show ?thesis using Cons.IH [OF _ q(2) sub(1) Cons.prems(4) z Cons.prems(6), of al] Cons.prems(1) None n by auto
    qed
  next
    case (Some idp)
    then obtain c where c: "as_count lm (di_instr dip) idp = Inr c"
      using q(1) by (auto simp: as_pass1_node_def Let_def split: sum.splits)
    note cc = as_count_counts [OF c]
    then have ir: "ir_counts dip" by (simp add: ir_counts_def)
    have n: "p1_brel q1 = p1_brel q + (if rel_class lm idp = RelB then 1 else 0)"
      "p1_krel q1 = p1_krel q + (if rel_class lm idp = RelK then 1 else 0)"
      "p1_urel q1 = p1_urel q + (if rel_class lm idp = RelU then 1 else 0)"
      using q(1) Some c cc by (auto simp: as_pass1_node_def Let_def split: relclass.splits)
    obtain st1 sp1 al1 where r: "as_reloc lm nd n labels dip idp (st\<lparr>p3_i := p3_i st + 1\<rparr>) sp al = Inr (st1, sp1, al1)"
      "as_relocs lm nd n labels Q st1 sp1 al1 = Inr (st', sp', al')"
      using Cons.prems(1) ir Some by (auto split: sum.splits)
    have "rels (st\<lparr>p3_i := p3_i st + 1\<rparr>) = rels st" by (simp add: rels_def)
    then have old: "\<forall>rp \<in> rels (st\<lparr>p3_i := p3_i st + 1\<rparr>). rel_ok sp P (p3_i (st\<lparr>p3_i := p3_i st + 1\<rparr>)) rp"
      using Cons.prems(6) rel_ok_mono [of sp P "p3_i st" _ sp "p3_i st + 1"] by simp
    have "0 \<notin> set (di_name idp)" using Cons.prems(5) Some by simp
    note a = as_reloc_ok [OF r(1) Cons.prems(4) this Some sub(2) _ old, simplified]
    from a Cons.IH [OF r(2) q(2) sub(1) _ z] show ?thesis using ir n by (auto intro: prefix_order.trans)
  qed
qed auto

lemma as_pass1_from: "as_pass1 lm P \<lparr>p1_buf = [], p1_labels = ls, p1_brel = 0, p1_krel = 0, p1_urel = 0\<rparr> = Inr p1 \<Longrightarrow>
  length (p1_buf p1) = length (filter ir_counts P)"
proof -
  have "length (p1_buf st') = length (p1_buf st) + length (filter ir_counts P)" if "as_pass1 lm P st = Inr st'" for st st'
    using that by (induction P arbitrary: st) (auto split: sum.splits dest!: as_pass1_node_buf(1))
  then show "as_pass1 lm P \<lparr>p1_buf = [], p1_labels = ls, p1_brel = 0, p1_krel = 0, p1_urel = 0\<rparr> = Inr p1 \<Longrightarrow>
    length (p1_buf p1) = length (filter ir_counts P)" by fastforce
qed

lemma as_reltabs_ok:
  assumes "as_reltabs env dlp p1 buf sp al = Inr (p3, sp', al')"
    "as_pass1 (as_linkmode env) (dl_list dlp) \<lparr>p1_buf = [], p1_labels = ls, p1_brel = 0, p1_krel = 0, p1_urel = 0\<rparr> = Inr p1"
    "strtab_inv sp" "\<forall>dip \<in> set (dl_list dlp). \<forall>idp. di_extern dip = Some idp \<longrightarrow> 0 \<notin> set (di_name idp)" "length buf = length (p1_buf p1)"
  shows "strtab_inv sp' \<and> prefix (blob sp) (blob sp') \<and> (\<forall>rp \<in> rels p3. rel_ok sp' (dl_list dlp) (length buf) rp)"
proof (cases "p1_brel p1 + p1_krel p1 + p1_urel p1 > 0")
  case True
  then obtain al1 where r: "as_relocs (as_linkmode env) (as_nodefs env) (dl_label dlp) (p1_labels p1) (dl_list dlp)
      \<lparr>p3_i = 0, p3_buf = buf, p3_b = [], p3_k = [], p3_u = []\<rparr> sp al1 = Inr (p3, sp', al')" and i: "p3_i p3 = length buf"
    using assms(1) by (auto simp: as_reltabs_def Let_def split: sum.splits if_splits prod.splits)
  show ?thesis using as_relocs_ok [OF r assms(2) order_refl assms(3,4)] i by (auto simp: rels_def)
next
  case False
  then have "rels p3 = {}" "sp' = sp" using assms(1) by (auto simp: as_reltabs_def Let_def rels_def split: sum.splits)
  then show ?thesis using assms(3) by simp
qed

text \<open>The final assertions on the relocation tables cannot fail: the arrays that were allocated are exactly filled.\<close>

lemma as_reltabs_no_assert:
  assumes "as_pass1 (as_linkmode env) (dl_list dlp) \<lparr>p1_buf = [], p1_labels = ls, p1_brel = 0, p1_krel = 0, p1_urel = 0\<rparr> = Inr p1"
    "strtab_inv sp" "\<forall>dip \<in> set (dl_list dlp). \<forall>idp. di_extern dip = Some idp \<longrightarrow> 0 \<notin> set (di_name idp)" "length buf = length (p1_buf p1)"
    and r: "as_relocs (as_linkmode env) (as_nodefs env) (dl_label dlp) (p1_labels p1) (dl_list dlp)
      \<lparr>p3_i = 0, p3_buf = buf, p3_b = [], p3_k = [], p3_u = []\<rparr> sp al = Inr (p3, sp', al')"
  shows "length (p3_b p3) = p1_brel p1 \<and> length (p3_k p3) = p1_krel p1 \<and> length (p3_u p3) = p1_urel p1 \<and> p3_i p3 = length buf"
  using as_relocs_ok [OF r assms(1) order_refl assms(2,3)] as_pass1_from [OF assms(1)] assms(4) by (simp add: rels_def)

section \<open>Correctness of the assembler\<close>

text \<open>C1: the program that \<open>dt_as\<close> returns does what the instruction list does with its labels: every run of the list
  from its start (branches going to the place of their label, labelled no-operations marking places) is a run of the
  assembled program with its relative offsets, to the corresponding place and with the same registers and
  memory, and it leaves the function when the list does.\<close>

theorem dt_as_correct:
  assumes "dt_as env dlp sp mx al = Inr (dp, idps, sp', mx', al')" "ir_wf dlp" "plain_externs (dl_list dlp)"
    and "ir_steps ext (dl_list dlp) (At 0 m) c"
  shows "asm_steps ext (dtdo_buf dp) (At 0 m)
    (case c of At pc m' \<Rightarrow> At (out_pos (dl_list dlp) pc) m' | Done m' \<Rightarrow> Done m')"
  by (rule steps_simulated [OF dt_as_assembled [OF assms(1-3)] assms(2,4)])

lemma emit_simps [simp]:
  "dl_list (emitle dlp l i x) = dl_list dlp @ [\<lparr>di_label = l, di_instr = i, di_extern = x\<rparr>]" "dl_label (emitle dlp l i x) = dl_label dlp"
  "dl_list (emit dlp i) = dl_list dlp @ [\<lparr>di_label = 0, di_instr = i, di_extern = None\<rparr>]" "dl_label (emit dlp i) = dl_label dlp"
  "dl_list (emitl dlp l i) = dl_list dlp @ [\<lparr>di_label = l, di_instr = i, di_extern = None\<rparr>]" "dl_label (emitl dlp l i) = dl_label dlp"
  "dl_list (emite dlp i idp) = dl_list dlp @ [\<lparr>di_label = 0, di_instr = i, di_extern = Some idp\<rparr>]" "dl_label (emite dlp i idp) = dl_label dlp"
  by (simp_all add: emitle_def emit_def emitl_def emite_def dt_irlist_append_def dt_cg_node_alloc_def)

definition as_demo :: irlist where
  "as_demo =
     (let (l, dlp) = dt_irlist_label dt_irlist_create;
          dlp = emit dlp (BPF_BRANCH_IMM BPF_JEQ BPF_REG_1 0 (int l));
          dlp = emit dlp (BPF_MOV_IMM BPF_REG_1 7);
          dlp = emitl dlp l BPF_NOP;
          dlp = emit dlp (BPF_MOV_REG BPF_REG_0 BPF_REG_1)
      in emit dlp BPF_RETURN)"

definition as_demo_env :: "unit asenv" where
  "as_demo_env = \<lparr>as_linkmode = DT_LINK_KERNEL, as_nodefs = (True, True), as_destruct = False, as_bufoff = 16,
     as_diftype = (\<lambda>_. ()), as_idents = []\<rparr>"

definition as_demo_tab :: strtab where
  "as_demo_tab = \<lparr>str_hash = [[]], str_hashsz = 1, str_bufs = [[0]], str_bufsz = 8, str_nstrs = 1, str_size = 1\<rparr>"

lemma as_demo_nodes: "dl_list as_demo =
   [\<lparr>di_label = 0, di_instr = BPF_BRANCH_IMM BPF_JEQ 1 0 1, di_extern = None\<rparr>,
    \<lparr>di_label = 0, di_instr = BPF_MOV_IMM 1 7, di_extern = None\<rparr>,
    \<lparr>di_label = 1, di_instr = BPF_NOP, di_extern = None\<rparr>,
    \<lparr>di_label = 0, di_instr = BPF_MOV_REG 0 1, di_extern = None\<rparr>,
    \<lparr>di_label = 0, di_instr = BPF_RETURN, di_extern = None\<rparr>]" "dl_label as_demo = 2"
  by (simp_all add: as_demo_def dt_irlist_label_def dt_irlist_create_def)

lemma as_demo_wf: "ir_wf as_demo" "plain_externs (dl_list as_demo)"
proof -
  have b: "is_jop BPF_JEQ" "br_label (BPF_BRANCH_IMM BPF_JEQ 1 0 1) = 1"
    using br_label_simps(1) [of 1] by (simp_all add: is_jop_def)
  show "ir_wf as_demo" unfolding ir_wf_def as_demo_nodes
    using b by (simp add: insn_kinds labels_of_def All_less_Suc2)
qed (simp add: plain_externs_def as_demo_nodes)

lemma as_demo_out: "\<exists>idps sp' mx' al' dp. dt_as as_demo_env as_demo as_demo_tab 0 [] = Inr (dp, idps, sp', mx', al') \<and>
   map bi_off (dtdo_buf dp) = [1, 0, 0, 0]"
proof -
  have "(case dt_as as_demo_env as_demo as_demo_tab 0 [] of Inr (dp, _) \<Rightarrow> map bi_off (dtdo_buf dp) = [1, 0, 0, 0] | _ \<Rightarrow> False)"
    by code_simp
  then show ?thesis by (auto split: sum.splits prod.splits)
qed

lemma as_demo_run: "ir_steps ext (dl_list as_demo) (At 0 \<lparr>m_regs = (\<lambda>_. 0)(1 := 3), m_mem = mm\<rparr>)
   (Done \<lparr>m_regs = (\<lambda>_. 0)(1 := 7, 0 := 7), m_mem = mm\<rparr>)"
proof -
  have i: "imm32 7 = 7" "imm32 0 = 0" by (simp_all add: imm32_small)
  let ?P = "dl_list as_demo" and ?m = "\<lparr>m_regs = (\<lambda>_. 0)(1 := 3), m_mem = mm\<rparr>" and ?m' = "\<lparr>m_regs = (\<lambda>_. 0)(1 := 7), m_mem = mm\<rparr>"
  have "ir_step ext ?P (At 0 ?m) = Some (At 1 ?m)" "ir_step ext ?P (At 1 ?m) = Some (At 2 ?m')"
    "ir_step ext ?P (At 2 ?m') = Some (At 3 ?m')"
    "ir_step ext ?P (At 3 ?m') = Some (At 4 (set_reg 0 7 ?m'))" "ir_step ext ?P (At 4 (set_reg 0 7 ?m')) = Some (Done (set_reg 0 7 ?m'))"
    using i by (simp_all add: as_demo_nodes nth_instr_def insn_simps is_jop_def bpf_cond_def set_reg_def insn_kinds)
  then have "ir_steps ext ?P (At 0 ?m) (Done (set_reg 0 7 ?m'))"
    by (blast intro: converse_rtranclp_into_rtranclp rtranclp.rtrancl_refl)
  then show ?thesis by (simp add: set_reg_def fun_upd_twist)
qed

theorem dt_as_correct_witness:
  "\<exists>B. map bi_off B = [1, 0, 0, 0] \<and> asm_steps (\<lambda>_ _. None) B (At 0 \<lparr>m_regs = (\<lambda>_. 0)(1 := 3), m_mem = (\<lambda>_. 0)\<rparr>)
     (Done \<lparr>m_regs = (\<lambda>_. 0)(1 := 7, 0 := 7), m_mem = (\<lambda>_. 0)\<rparr>)"
proof -
  obtain dp idps sp' mx' al' where a: "dt_as as_demo_env as_demo as_demo_tab 0 [] = Inr (dp, idps, sp', mx', al')"
    "map bi_off (dtdo_buf dp) = [1, 0, 0, 0]" using as_demo_out by auto
  then show ?thesis using dt_as_correct [OF a(1) as_demo_wf as_demo_run, of "\<lambda>_ _. None" "\<lambda>_. 0"]
    by (intro exI [of _ "dtdo_buf dp"]) simp
qed

lemma as_reloc_length:
  "as_reloc lm nd n labels dip idp st sp al = Inr (st', sp', al') \<Longrightarrow> length (p3_buf st') = length (p3_buf st)"
  by (auto simp: as_reloc_def Let_def split: if_splits option.splits sum.splits prod.splits)

lemma as_relocs_length:
  "as_relocs lm nd n labels P st sp al = Inr (st', sp', al') \<Longrightarrow> length (p3_buf st') = length (p3_buf st)"
proof (induction P arbitrary: st sp al)
  case (Cons dip P)
  show ?case
  proof (cases "ir_counts dip \<and> di_extern dip \<noteq> None")
    case True
    then obtain idp st1 sp1 al1 where r: "as_reloc lm nd n labels dip idp (st\<lparr>p3_i := p3_i st + 1\<rparr>) sp al = Inr (st1, sp1, al1)"
      "as_relocs lm nd n labels P st1 sp1 al1 = Inr (st', sp', al')" using Cons.prems by (auto split: sum.splits)
    then show ?thesis using as_reloc_length [OF r(1)] Cons.IH [OF r(2)] by simp
  next
    case False
    then show ?thesis using Cons.prems Cons.IH [of st] Cons.IH [of "st\<lparr>p3_i := p3_i st + 1\<rparr>"] by (auto split: if_splits)
  qed
qed simp

lemma as_reltabs_length:
  "as_reltabs env dlp p1 buf sp al = Inr (p3, sp', al') \<Longrightarrow> length (p3_buf p3) = length buf"
  by (auto simp: as_reltabs_def Let_def split: sum.splits if_splits prod.splits dest!: as_relocs_length)

text \<open>C11: the tables of the object that \<open>dt_as\<close> returns are sound: the variable table has one entry for every variable
  that the code refers to and every aggregation, in order, with the identifier's number; every relocation is for an
  instruction of the program; and all names are offsets of NUL-terminated copies of the identifier's name in the string
  table of the same object.\<close>

theorem dt_as_tables:
  assumes "dt_as env dlp sp mx al = Inr (dp, idps, sp', mx', al')" "strtab_inv sp"
    and "\<forall>idp \<in> set (as_idents env). 0 \<notin> set (di_name idp)"
    and "\<forall>dip \<in> set (dl_list dlp). \<forall>idp. di_extern dip = Some idp \<longrightarrow> 0 \<notin> set (di_name idp)"
  shows "list_all2 (\<lambda>idp dvp. dtdv_id dvp = di_id idp \<and> prefix (di_name idp @ [0]) (drop (unat (dtdv_name dvp)) (dtdo_strtab dp)))
      (filter var_in_table (as_idents env)) (dtdo_vartab dp) \<and>
    (\<forall>rp \<in> set (dtdo_breltab dp) \<union> set (dtdo_kreltab dp) \<union> set (dtdo_ureltab dp).
      (\<exists>k < length (dtdo_buf dp). dofr_offset rp = of_nat (8 * k)) \<and>
      (\<exists>dip \<in> set (dl_list dlp). \<exists>idp. di_extern dip = Some idp \<and>
         prefix (di_name idp @ [0]) (drop (unat (dofr_name rp)) (dtdo_strtab dp))))"
proof -
  obtain p1 buf vt idps1 sp1 al1 al0 p3 sp2 al2 ls n where
    p1: "as_pass1 (as_linkmode env) (dl_list dlp) \<lparr>p1_buf = [], p1_labels = ls, p1_brel = 0, p1_krel = 0, p1_urel = 0\<rparr> = Inr p1"
    and p2: "as_pass2 (dl_label dlp) (p1_labels p1) 0 (p1_buf p1) = Inr buf"
    and v: "as_vars env dlp sp al0 = Inr (vt, idps1, sp1, al1)" and p3: "as_reltabs env dlp p1 buf sp1 al1 = Inr (p3, sp2, al2)"
    and w: "dt_strtab_write sp2 dt_strtab_copystr (replicate (dt_strtab_size sp2) 0) = Some (n, dtdo_strtab dp)"
    and dp: "dtdo_buf dp = p3_buf p3" "dtdo_vartab dp = vt" "dtdo_breltab dp = p3_b p3" "dtdo_kreltab dp = p3_k p3" "dtdo_ureltab dp = p3_u p3"
    using assms(1) by (auto simp: dt_as_def split: sum.splits if_splits prod.splits option.splits)
  note a = as_vars_ok [OF v assms(2,3)]
  have l: "length buf = length (p1_buf p1)" using as_pass2_result [OF p2] by simp
  note b = as_reltabs_ok [OF p3 p1 _ assms(4) l]
  have st: "dtdo_strtab dp = blob sp2" using dt_strtab_write_correct [of sp2 "replicate (dt_strtab_size sp2) 0"] a b w by simp
  have vn: "names_ok sp2 (filter var_in_table (as_idents env)) vt" using a b names_ok_mono by blast
  have lb: "length (p3_buf p3) = length buf" using as_reltabs_length [OF p3] .
  show ?thesis
  proof (intro conjI ballI)
    show "list_all2 (\<lambda>idp dvp. dtdv_id dvp = di_id idp \<and> prefix (di_name idp @ [0]) (drop (unat (dtdv_name dvp)) (dtdo_strtab dp)))
      (filter var_in_table (as_idents env)) (dtdo_vartab dp)"
      using vn unfolding names_ok_def dp(2) st by (rule list_all2_mono) (simp add: blob_has_def)
  next
    fix rp assume "rp \<in> set (dtdo_breltab dp) \<union> set (dtdo_kreltab dp) \<union> set (dtdo_ureltab dp)"
    then have "rel_ok sp2 (dl_list dlp) (length buf) rp" using a b by (simp add: dp rels_def)
    then show "\<exists>k < length (dtdo_buf dp). dofr_offset rp = of_nat (8 * k)"
      "\<exists>dip \<in> set (dl_list dlp). \<exists>idp. di_extern dip = Some idp \<and> prefix (di_name idp @ [0]) (drop (unat (dofr_name rp)) (dtdo_strtab dp))"
      by (auto simp: rel_ok_def blob_has_def st lb dp(1))
  qed
qed

definition as_demo_ident :: "idkind \<Rightarrow> u16 \<Rightarrow> ident" where
  "as_demo_ident k f = \<lparr>di_name = [97, 98, 99], di_kind = k, di_flags = f, di_id = 5, di_offset = 0, di_size = 8, di_symid = None\<rparr>"

definition as_demo2 :: irlist where
  "as_demo2 = emite dt_irlist_create (BPF_MOV_IMM BPF_REG_0 0) (as_demo_ident DT_IDENT_SCALAR DT_IDFLG_BPF)"

lemma as_string_total:
  assumes "strtab_inv sp" "length (str_bufs sp) = 1" "0 \<notin> set name" "2 \<le> length name"
    "str_size sp + length name + 1 \<le> str_bufsz sp" "str_bufsz sp \<le> DIF_STROFF_MAX"
  obtains off sp' where "as_string sp name [] = Inr (off, sp', [])" "strtab_inv sp'" "length (str_bufs sp') = 1"
    "str_bufsz sp' = str_bufsz sp" "str_size sp' \<le> str_size sp + length name + 1"
proof -
  obtain r sp' al' where i: "dt_strtab_insert sp (Some name) [] = Some (r, sp', al')" "length (str_bufs sp') = 1"
    "str_bufsz sp' = str_bufsz sp" "str_size sp' \<le> str_size sp + length name + 1" "r \<noteq> None" "al' = []"
    using insert_total [OF assms(1-5), of "[]"] by metis
  then obtain off where off: "r = Some off" by auto
  have c: "strtab_inv sp'" "blob_has sp' off name" using insert_correct [OF assms(1,3) i(1)] off by (auto simp: inserted_def)
  have "off \<le> length (blob sp')" using c(2) by (cases "off \<le> length (blob sp')") (auto simp: blob_has_def)
  then have "off \<le> DIF_STROFF_MAX" using c(1) i(4) assms(5,6) by (simp add: strtab_inv_def)
  then show thesis using that [of off sp'] i off c(1) by (simp add: as_string_def)
qed

lemma as_demo2_out:
  "\<exists>dp idps sp' mx' al'. dt_as (as_demo_env\<lparr>as_idents := [as_demo_ident DT_IDENT_AGG 0]\<rparr>) as_demo2 (as_demo_tab\<lparr>str_bufsz := 64\<rparr>) 0 [] =
     Inr (dp, idps, sp', mx', al') \<and> length (dtdo_breltab dp) = 1"
proof -
  have i: "strtab_inv (as_demo_tab\<lparr>str_bufsz := 64\<rparr>)" by (simp add: strtab_inv_def as_demo_tab_def chunks_ok_def blob_def)
  obtain o1 sp1 where s1: "as_string (as_demo_tab\<lparr>str_bufsz := 64\<rparr>) [97, 98, 99] [] = Inr (o1, sp1, [])" "strtab_inv sp1"
    "length (str_bufs sp1) = 1" "str_bufsz sp1 = 64" "str_size sp1 \<le> 5"
    by (rule as_string_total [OF i, of "[97, 98, 99]"]) (simp_all add: as_demo_tab_def DIF_STROFF_MAX_def)
  obtain o2 sp2 where s2: "as_string sp1 [97, 98, 99] [] = Inr (o2, sp2, [])" "strtab_inv sp2"
    by (rule as_string_total [OF s1(2,3), of "[97, 98, 99]"]) (use s1(4,5) in \<open>simp_all add: DIF_STROFF_MAX_def\<close>)
  have w: "dt_strtab_write sp2 dt_strtab_copystr (replicate (dt_strtab_size sp2) 0) = Some (int (dt_strtab_size sp2), blob sp2)"
    using dt_strtab_write_correct [OF s2(2)] by simp
  have l: "dl_list as_demo2 = [\<lparr>di_label = 0, di_instr = BPF_MOV_IMM 0 0, di_extern = Some (as_demo_ident DT_IDENT_SCALAR DT_IDFLG_BPF)\<rparr>]"
    "dl_len as_demo2 = 1"
    by (simp_all add: as_demo2_def dt_irlist_create_def emite_def emitle_def dt_irlist_append_def dt_cg_node_alloc_def ir_counts_def)
  have c: "ir_counts \<lparr>di_label = 0, di_instr = BPF_MOV_IMM 0 0, di_extern = Some (as_demo_ident DT_IDENT_SCALAR DT_IDFLG_BPF)\<rparr>"
    "bi_code (BPF_MOV_IMM 0 0) = 0xb7" by (simp_all add: ir_counts_def BPF_MOV_IMM_def BPF_ALU64_IMM_def)
  have b: "\<not> is_branch (BPF_MOV_IMM 0 0)" by (simp add: insn_kinds)
  obtain vt idps where v: "as_vars (as_demo_env\<lparr>as_idents := [as_demo_ident DT_IDENT_AGG 0]\<rparr>) as_demo2 (as_demo_tab\<lparr>str_bufsz := 64\<rparr>) [] =
      Inr (vt, idps, sp1, [])"
    using s1(1) by (simp add: as_vars_def as_alloc_def dt_countvar_def as_demo_ident_def dt_copyvar_def Let_def)
  let ?env = "as_demo_env\<lparr>as_idents := [as_demo_ident DT_IDENT_AGG 0]\<rparr>"
  let ?p1 = "\<lparr>p1_buf = [BPF_MOV_IMM 0 0], p1_labels = replicate (dl_label as_demo2) 0, p1_brel = 1, p1_krel = 0, p1_urel = 0\<rparr>"
  have p1: "as_pass1 (as_linkmode ?env) (dl_list as_demo2)
     \<lparr>p1_buf = [], p1_labels = replicate (dl_label as_demo2) 0, p1_brel = 0, p1_krel = 0, p1_urel = 0\<rparr> = Inr ?p1"
    using c by (simp add: l as_pass1_node_def as_count_def as_demo_ident_def Let_def)
  obtain p3 where p3: "as_reltabs ?env as_demo2 ?p1 [BPF_MOV_IMM 0 0] sp1 [] = Inr (p3, sp2, [])" "length (p3_b p3) = 1"
    using s2(1) c by (simp add: as_reltabs_def as_alloc_def l as_reloc_def rel_class_def link_masks_def rel_type_def Let_def
      as_demo_ident_def as_demo_env_def)
  have "0 < dt_strtab_size sp2" using s2(2) by (auto simp: strtab_inv_def dt_strtab_size_def prefix_def)
  then show ?thesis using v w p1 p3 b by (simp add: dt_as_def as_alloc_def l as_branch_def)
qed

theorem dt_as_tables_witness:
  "\<exists>dp :: unit difo. length (dtdo_breltab dp) = 1 \<and>
     list_all2 (\<lambda>idp dvp. dtdv_id dvp = di_id idp \<and> prefix (di_name idp @ [0]) (drop (unat (dtdv_name dvp)) (dtdo_strtab dp)))
      [as_demo_ident DT_IDENT_AGG 0] (dtdo_vartab dp)"
proof -
  obtain dp idps sp' mx' al' where a: "dt_as (as_demo_env\<lparr>as_idents := [as_demo_ident DT_IDENT_AGG 0]\<rparr>) as_demo2 (as_demo_tab\<lparr>str_bufsz := 64\<rparr>) 0 [] =
    Inr (dp, idps, sp', mx', al')" "length (dtdo_breltab dp) = 1" using as_demo2_out by auto
  have "strtab_inv (as_demo_tab\<lparr>str_bufsz := 64\<rparr>)" by (simp add: strtab_inv_def as_demo_tab_def chunks_ok_def blob_def)
  then show ?thesis using dt_as_tables [OF a(1)] a
    by (intro exI [of _ dp]) (simp add: as_demo_ident_def as_demo2_def dt_irlist_create_def var_in_table_def)
qed

end
