(* ===== verification/DTNode.thy ===== *)
theory DTNode
  imports DTAs
begin

unbundle bit_operations_syntax

text \<open>
  Parse-tree nodes and the questions the compiler asks about their types:
  \<open>libdtrace/dt_parser.h\<close> and the node predicates of \<open>libdtrace/dt_parser.c\<close>.

  Type information comes from libctf, which is a library: the record \<open>ctfenv\<close> has the functions of
  libctf that the compiler calls, on type handles \<open>'ty\<close> that stand for a pair of a CTF container
  and a type identifier.  Nodes are trees; a field that the code generator writes into a node (its
  register, its temporary string) is a result of the generator instead.
\<close>

section \<open>Types\<close>

datatype ctfkind = CTF_K_UNKNOWN | CTF_K_INTEGER | CTF_K_FLOAT | CTF_K_POINTER | CTF_K_ARRAY | CTF_K_FUNCTION
  | CTF_K_STRUCT | CTF_K_UNION | CTF_K_ENUM | CTF_K_FORWARD | CTF_K_TYPEDEF | CTF_K_VOLATILE | CTF_K_CONST
  | CTF_K_RESTRICT

record ctfenc =
  cte_format :: u32
  cte_offset :: nat
  cte_bits :: nat

abbreviation (input) CTF_INT_SIGNED :: u32 where "CTF_INT_SIGNED \<equiv> 0x01"
abbreviation (input) CTF_FP_SINGLE :: u32 where "CTF_FP_SINGLE \<equiv> 1"
abbreviation (input) CTF_FP_DOUBLE :: u32 where "CTF_FP_DOUBLE \<equiv> 2"
abbreviation (input) CTF_FP_LDOUBLE :: u32 where "CTF_FP_LDOUBLE \<equiv> 6"

abbreviation (input) NBBY :: nat where "NBBY \<equiv> 8"

definition IS_VOID :: "ctfenc \<Rightarrow> bool" where
  "IS_VOID e \<longleftrightarrow> cte_offset e = 0 \<and> cte_bits e = 0"

text \<open>
  \<open>ctf_lookup_forward\<close> is what a search of the whole type space finds for the name of a forward
  declaration; \<open>ctf_any\<close> recognises the formal parameter type \<open>@\<close> (no container, no type).
\<close>

record 'ty ctfenv =
  ctf_type_resolve :: "'ty \<Rightarrow> 'ty"
  ctf_type_kind :: "'ty \<Rightarrow> ctfkind"
  ctf_type_encoding :: "'ty \<Rightarrow> ctfenc option"
  ctf_type_size :: "'ty \<Rightarrow> int"
  ctf_type_reference :: "'ty \<Rightarrow> 'ty"
  ctf_array_info :: "'ty \<Rightarrow> 'ty option"
  ctf_member_info :: "'ty \<Rightarrow> cstr \<Rightarrow> (nat \<times> 'ty) option"
  ctf_lookup_forward :: "'ty \<Rightarrow> 'ty option"
  ctf_id :: "'ty \<Rightarrow> int"
  ctf_any :: "'ty \<Rightarrow> bool"
  dt_int_type :: 'ty
  dt_str_type :: 'ty
  dt_dyn_type :: 'ty
  dt_ident_size :: "nat \<Rightarrow> int"

section \<open>Nodes\<close>

abbreviation (input) DT_NF_SIGNED :: u8 where "DT_NF_SIGNED \<equiv> 0x01"
abbreviation (input) DT_NF_COOKED :: u8 where "DT_NF_COOKED \<equiv> 0x02"
abbreviation (input) DT_NF_REF :: u8 where "DT_NF_REF \<equiv> 0x04"
abbreviation (input) DT_NF_LVALUE :: u8 where "DT_NF_LVALUE \<equiv> 0x08"
abbreviation (input) DT_NF_WRITABLE :: u8 where "DT_NF_WRITABLE \<equiv> 0x10"
abbreviation (input) DT_NF_BITFIELD :: u8 where "DT_NF_BITFIELD \<equiv> 0x20"
abbreviation (input) DT_NF_USERLAND :: u8 where "DT_NF_USERLAND \<equiv> 0x40"

record 'ty nattr =
  dn_flags :: u8
  dn_type :: 'ty

definition nf :: "'ty nattr \<Rightarrow> u8 \<Rightarrow> bool" where
  "nf a f \<longleftrightarrow> dn_flags a AND f \<noteq> 0"

datatype tok = DT_TOK_COMMA | DT_TOK_ASGN | DT_TOK_ADD_EQ | DT_TOK_SUB_EQ | DT_TOK_MUL_EQ | DT_TOK_DIV_EQ
  | DT_TOK_MOD_EQ | DT_TOK_AND_EQ | DT_TOK_XOR_EQ | DT_TOK_OR_EQ | DT_TOK_LSH_EQ | DT_TOK_RSH_EQ
  | DT_TOK_LOR | DT_TOK_LXOR | DT_TOK_LAND | DT_TOK_BOR | DT_TOK_XOR | DT_TOK_BAND | DT_TOK_EQU | DT_TOK_NEQ
  | DT_TOK_LT | DT_TOK_LE | DT_TOK_GT | DT_TOK_GE | DT_TOK_LSH | DT_TOK_RSH | DT_TOK_ADD | DT_TOK_SUB
  | DT_TOK_MUL | DT_TOK_DIV | DT_TOK_MOD | DT_TOK_LNEG | DT_TOK_BNEG | DT_TOK_PREINC | DT_TOK_POSTINC
  | DT_TOK_PREDEC | DT_TOK_POSTDEC | DT_TOK_IPOS | DT_TOK_INEG | DT_TOK_DEREF | DT_TOK_ADDROF | DT_TOK_SIZEOF
  | DT_TOK_STRINGOF | DT_TOK_XLATE | DT_TOK_LPAR | DT_TOK_PTR | DT_TOK_DOT

text \<open>
  The kinds of nodes that expressions are made of.  A variable has the address of its identifier and
  the indices of an array; a variable of the kind \<open>inline\<close> has the tree it stands for, with the
  arguments in the place of the parameters; a symbol has its address and size when the lookup of
  its name succeeds.
\<close>

datatype 'ty node =
  NInt "'ty nattr" u64
| NString "'ty nattr" cstr
| NVar "'ty nattr" nat "'ty node list"
| NInline "'ty nattr" nat "'ty node"
| NSym "'ty nattr" ident "(u64 \<times> int) option"
| NFunc "'ty nattr" nat "'ty node list"
| NOp1 "'ty nattr" tok "'ty node"
| NOp2 "'ty nattr" tok "'ty node" "'ty node"
| NOp3 "'ty nattr" "'ty node" "'ty node" "'ty node"
| NMember "'ty nattr" tok "'ty node" cstr

fun dn_attrs :: "'ty node \<Rightarrow> 'ty nattr" where
  "dn_attrs (NInt a v) = a"
| "dn_attrs (NString a str) = a"
| "dn_attrs (NVar a i args) = a"
| "dn_attrs (NInline a i root) = a"
| "dn_attrs (NSym a i v) = a"
| "dn_attrs (NFunc a i args) = a"
| "dn_attrs (NOp1 a t c) = a"
| "dn_attrs (NOp2 a t l r) = a"
| "dn_attrs (NOp3 a c l r) = a"
| "dn_attrs (NMember a t l m) = a"

fun dn_ident :: "'ty node \<Rightarrow> nat option" where
  "dn_ident (NVar a i args) = Some i"
| "dn_ident (NInline a i root) = Some i"
| "dn_ident (NFunc a i args) = Some i"
| "dn_ident _ = None"

section \<open>Questions about the type of a node\<close>

definition dt_node_diftype_size :: "('ty, 'z) ctfenv_scheme \<Rightarrow> 'ty node \<Rightarrow> int" where
  "dt_node_diftype_size e n = ctf_type_size e (dn_type (dn_attrs n))"

fun dt_node_is_dynamic :: "('ty, 'z) ctfenv_scheme \<Rightarrow> 'ty node \<Rightarrow> bool" where
  "dt_node_is_dynamic e (NInline a i root) = dt_node_is_dynamic e root"
| "dt_node_is_dynamic e n = (dn_type (dn_attrs n) = dt_dyn_type e)"

fun dt_node_type_size :: "('ty, 'z) ctfenv_scheme \<Rightarrow> 'ty node \<Rightarrow> int" where
  "dt_node_type_size e (NString a str) = int (length str) + 1"
| "dt_node_type_size e n =
     (if dt_node_is_dynamic e n \<and> dn_ident n \<noteq> None then dt_ident_size e (the (dn_ident n))
      else ctf_type_size e (dn_type (dn_attrs n)))"

fun dt_node_sizeof :: "('ty, 'z) ctfenv_scheme \<Rightarrow> 'ty node \<Rightarrow> int" where
  "dt_node_sizeof e (NSym a i v) = (case v of None \<Rightarrow> 0 | Some (st_value, st_size) \<Rightarrow> st_size)"
| "dt_node_sizeof e n = dt_node_type_size e n"

definition dt_node_kind :: "('ty, 'z) ctfenv_scheme \<Rightarrow> 'ty nattr \<Rightarrow> ctfkind" where
  "dt_node_kind e a = ctf_type_kind e (ctf_type_resolve e (dn_type a))"

definition dt_node_void :: "('ty, 'z) ctfenv_scheme \<Rightarrow> 'ty nattr \<Rightarrow> bool" where
  "dt_node_void e a =
     (case ctf_type_encoding e (ctf_type_resolve e (dn_type a)) of Some enc \<Rightarrow> IS_VOID enc | None \<Rightarrow> False)"

definition dt_node_is_integer :: "('ty, 'z) ctfenv_scheme \<Rightarrow> 'ty nattr \<Rightarrow> bool" where
  "dt_node_is_integer e a =
     (if dt_node_kind e a = CTF_K_INTEGER \<and> dt_node_void e a then False
      else dt_node_kind e a \<in> {CTF_K_INTEGER, CTF_K_ENUM})"

definition dt_node_is_float :: "('ty, 'z) ctfenv_scheme \<Rightarrow> 'ty nattr \<Rightarrow> bool" where
  "dt_node_is_float e a =
     (dt_node_kind e a = CTF_K_FLOAT \<and>
      (case ctf_type_encoding e (ctf_type_resolve e (dn_type a)) of
         None \<Rightarrow> False
       | Some enc \<Rightarrow> cte_format enc \<in> {CTF_FP_SINGLE, CTF_FP_DOUBLE, CTF_FP_LDOUBLE}))"

definition dt_node_is_scalar :: "('ty, 'z) ctfenv_scheme \<Rightarrow> 'ty nattr \<Rightarrow> bool" where
  "dt_node_is_scalar e a =
     (if dt_node_kind e a = CTF_K_INTEGER \<and> dt_node_void e a then False
      else dt_node_kind e a \<in> {CTF_K_INTEGER, CTF_K_ENUM, CTF_K_POINTER})"

definition dt_node_is_arith :: "('ty, 'z) ctfenv_scheme \<Rightarrow> 'ty nattr \<Rightarrow> bool" where
  "dt_node_is_arith e a =
     (if dt_node_kind e a = CTF_K_INTEGER
      then ctf_type_encoding e (ctf_type_resolve e (dn_type a)) \<noteq> None \<and> \<not> dt_node_void e a
      else dt_node_kind e a = CTF_K_ENUM)"

definition dt_node_is_string :: "('ty, 'z) ctfenv_scheme \<Rightarrow> 'ty nattr \<Rightarrow> bool" where
  "dt_node_is_string e a \<longleftrightarrow> dn_type a = dt_str_type e"

definition dt_node_is_pointer :: "('ty, 'z) ctfenv_scheme \<Rightarrow> 'ty nattr \<Rightarrow> bool" where
  "dt_node_is_pointer e a =
     (if dt_node_is_string e a then False else dt_node_kind e a \<in> {CTF_K_POINTER, CTF_K_ARRAY})"

fun dt_node_is_posconst :: "'ty node \<Rightarrow> bool" where
  "dt_node_is_posconst (NInt a v) = (v \<noteq> 0 \<and> (\<not> nf a DT_NF_SIGNED \<or> 0 < sint v))"
| "dt_node_is_posconst _ = False"

section \<open>Assigning and promoting types\<close>

definition dt_node_type_assign :: "('ty, 'z) ctfenv_scheme \<Rightarrow> 'ty nattr \<Rightarrow> 'ty \<Rightarrow> 'ty nattr" where
  "dt_node_type_assign e a type =
     (let base = ctf_type_resolve e type;
          kind = ctf_type_kind e base;
          enc = ctf_type_encoding e base;
          f = dn_flags a AND NOT (DT_NF_SIGNED OR DT_NF_REF OR DT_NF_BITFIELD OR DT_NF_USERLAND);
          f = (case enc of
                 Some en \<Rightarrow>
                   if kind = CTF_K_INTEGER then
                     (let size = cte_bits en div NBBY;
                          f = (if size > 8 \<or> cte_bits en mod NBBY \<noteq> 0 \<or> (size \<noteq> 0 \<and> and size (size - 1) \<noteq> 0)
                               then f OR DT_NF_BITFIELD else f)
                      in if cte_format en AND CTF_INT_SIGNED \<noteq> 0 then f OR DT_NF_SIGNED else f)
                   else f
               | None \<Rightarrow> f);
          f = (case enc of
                 Some en \<Rightarrow> if kind = CTF_K_FLOAT \<and> cte_bits en div NBBY > 8 then f OR DT_NF_REF else f
               | None \<Rightarrow> f);
          f = (if kind \<in> {CTF_K_STRUCT, CTF_K_UNION, CTF_K_FORWARD, CTF_K_ARRAY, CTF_K_FUNCTION} then f OR DT_NF_REF
               else if type = dt_dyn_type e then f OR DT_NF_REF else f)
      in \<lparr>dn_flags = f OR DT_NF_COOKED, dn_type = type\<rparr>)"

definition dt_node_type_propagate :: "'ty nattr \<Rightarrow> 'ty nattr" where
  "dt_node_type_propagate src = \<lparr>dn_flags = dn_flags src AND NOT DT_NF_LVALUE, dn_type = dn_type src\<rparr>"

text \<open>An enumeration is promoted as \<open>int\<close>; \<open>None\<close> is a failed assertion or \<open>longjmp\<close> with \<open>EDT_CTF\<close>.\<close>

definition promote_base :: "('ty, 'z) ctfenv_scheme \<Rightarrow> 'ty nattr \<Rightarrow> ('ty \<times> 'ty \<times> ctfenc) option" where
  "promote_base e a =
     (let base = ctf_type_resolve e (dn_type a);
          kind = ctf_type_kind e base;
          (type, base) = (if kind = CTF_K_ENUM then (dt_int_type e, dt_int_type e) else (dn_type a, base))
      in if kind \<noteq> CTF_K_INTEGER \<and> kind \<noteq> CTF_K_ENUM then None
         else map_option (\<lambda>enc. (type, base, enc)) (ctf_type_encoding e base))"

definition rank :: "ctfenc \<Rightarrow> nat" where
  "rank enc = cte_bits enc + (if cte_format enc AND CTF_INT_SIGNED = 0 then 1 else 0)"

definition dt_type_promote :: "('ty, 'z) ctfenv_scheme \<Rightarrow> 'ty nattr \<Rightarrow> 'ty nattr \<Rightarrow> 'ty option" where
  "dt_type_promote e lp rp = do {
     (ltype, lbase, le) \<leftarrow> promote_base e lp;
     (rtype, rbase, re) \<leftarrow> promote_base e rp;
     let lrank = rank le;
     let rrank = rank re;
     Some (if lrank = rrank then (if ctf_id e lbase - ctf_id e rbase < 0 then rtype else ltype)
           else if lrank > rrank then ltype else rtype) }"

text \<open>The attributes of the result; its stability attributes play no part in code generation.\<close>

definition dt_node_promote :: "('ty, 'z) ctfenv_scheme \<Rightarrow> 'ty nattr \<Rightarrow> 'ty nattr \<Rightarrow> 'ty nattr \<Rightarrow> 'ty nattr option" where
  "dt_node_promote e lp rp a = map_option (dt_node_type_assign e a) (dt_type_promote e lp rp)"

definition dt_cg_compare_signed :: "('ty, 'z) ctfenv_scheme \<Rightarrow> 'ty nattr \<Rightarrow> 'ty nattr \<Rightarrow> bool option" where
  "dt_cg_compare_signed e lp rp =
     (if dt_node_is_string e lp \<or> dt_node_is_string e rp then Some False
      else if \<not> dt_node_is_arith e lp \<or> \<not> dt_node_is_arith e rp then Some False
      else map_option (\<lambda>a. nf a DT_NF_SIGNED) (dt_node_promote e lp rp \<lparr>dn_flags = 0, dn_type = dn_type lp\<rparr>))"

section \<open>The usual arithmetic conversions\<close>

text \<open>
  The rule of the C standard for two integer types given by width and signedness: types narrower than
  \<open>int\<close> become \<open>int\<close>; then the wider type wins, and of two types of one width the unsigned one.
\<close>

definition c_promote :: "nat \<times> bool \<Rightarrow> nat \<times> bool" where
  "c_promote t = (if fst t < 32 then (32, True) else t)"

definition c_common :: "nat \<times> bool \<Rightarrow> nat \<times> bool \<Rightarrow> nat \<times> bool" where
  "c_common t u =
     (let (w, sg) = c_promote t; (w', sg') = c_promote u
      in if w = w' then (w, sg \<and> sg') else if w > w' then (w, sg) else (w', sg'))"

definition int_type :: "ctfenc \<Rightarrow> nat \<times> bool" where
  "int_type enc = (cte_bits enc, cte_format enc AND CTF_INT_SIGNED \<noteq> 0)"

text \<open>What the compiler relies on in libctf: resolved types stay resolved, and \<open>int\<close> is an integer type.\<close>

definition ctf_int_ok :: "('ty, 'z) ctfenv_scheme \<Rightarrow> bool" where
  "ctf_int_ok e \<longleftrightarrow>
     ctf_type_resolve e (dt_int_type e) = dt_int_type e \<and> ctf_type_kind e (dt_int_type e) = CTF_K_INTEGER"

definition enc_of :: "('ty, 'z) ctfenv_scheme \<Rightarrow> 'ty nattr \<Rightarrow> ctfenc option" where
  "enc_of e a = map_option (\<lambda>(type, base, enc). enc) (promote_base e a)"

lemma promote_base_enc:
  assumes "promote_base e a = Some (type, base, enc)" "ctf_int_ok e"
  shows "ctf_type_encoding e (ctf_type_resolve e type) = Some enc \<and> ctf_type_kind e (ctf_type_resolve e type) = CTF_K_INTEGER"
  using assms by (auto simp: promote_base_def Let_def ctf_int_ok_def split: if_splits)

lemma assign_signed:
  assumes "ctf_type_encoding e (ctf_type_resolve e t) = Some enc" "ctf_type_kind e (ctf_type_resolve e t) = CTF_K_INTEGER"
  shows "nf (dt_node_type_assign e a t) DT_NF_SIGNED \<longleftrightarrow> snd (int_type enc)"
proof -
  have b0: "x AND 1 = 0 \<longleftrightarrow> \<not> bit x 0" for x :: u8 by (simp add: bit_0 and_one_eq even_iff_mod_2_eq_zero)
  have "\<not> bit (- 102 :: u8) 0" "bit (1 :: u8) 0" "\<not> bit (2 :: u8) 0" "\<not> bit (4 :: u8) 0" "\<not> bit (32 :: u8) 0"
    by (simp_all add: bit_0)
  then show ?thesis unfolding nf_def b0 using assms
    by (cases "t = dt_dyn_type e") (simp_all add: dt_node_type_assign_def Let_def int_type_def bit_or_iff bit_and_iff)
qed

text \<open>
  C16: Whether a comparison of two arithmetic operands is signed is decided by the usual
  arithmetic conversions of C, for operands at least as wide as \<open>int\<close> whose widths are whole bytes.
  The hypothesis on the widths is needed: the code has no integer promotion (see below).
\<close>

theorem dt_cg_compare_signed_iso:
  assumes "ctf_int_ok e" "dt_node_is_arith e lp" "dt_node_is_arith e rp"
    "\<not> dt_node_is_string e lp" "\<not> dt_node_is_string e rp"
    "enc_of e lp = Some le" "enc_of e rp = Some re"
    "32 \<le> cte_bits le" "32 \<le> cte_bits re" "8 dvd cte_bits le" "8 dvd cte_bits re"
  shows "dt_cg_compare_signed e lp rp = Some (snd (c_common (int_type le) (int_type re)))"
proof -
  obtain lt lb rt rb where l: "promote_base e lp = Some (lt, lb, le)" and r: "promote_base e rp = Some (rt, rb, re)"
    using assms(6,7) by (auto simp: enc_of_def)
  note s = assign_signed [of e lt le] assign_signed [of e rt re]
  have rank: "rank enc = fst (int_type enc) + (if snd (int_type enc) then 0 else 1)" for enc
    by (simp add: rank_def int_type_def)
  have "fst (int_type le) \<noteq> Suc (fst (int_type re))" "fst (int_type re) \<noteq> Suc (fst (int_type le))"
    using assms(10,11) by (auto simp: int_type_def elim!: dvdE) presburger+
  then show ?thesis
    using assms(1-5,8,9) l r s promote_base_enc [OF l assms(1)] promote_base_enc [OF r assms(1)]
    by (auto simp: dt_cg_compare_signed_def dt_node_promote_def dt_type_promote_def rank c_common_def c_promote_def
        Let_def int_type_def split: prod.splits if_splits)
qed

text \<open>
  A small set of types: 0 is \<open>int\<close>, 1 \<open>unsigned long\<close>, 2 \<open>signed char\<close>, 3 \<open>unsigned char\<close>, 4 the string
  type, 5 the dynamic type, 6 \<open>unsigned long *\<close>.
\<close>

definition demo_ctf :: "nat ctfenv" where
  "demo_ctf =
     \<lparr>ctf_type_resolve = (\<lambda>t. t),
      ctf_type_kind = (\<lambda>t. if t < 4 then CTF_K_INTEGER else if t = 6 then CTF_K_POINTER else CTF_K_ARRAY),
      ctf_type_encoding = (\<lambda>t. if t < 4 then Some \<lparr>cte_format = [1, 0, 1, 0] ! t, cte_offset = 0, cte_bits = [32, 64, 8, 8] ! t\<rparr> else None),
      ctf_type_size = (\<lambda>t. if t < 4 then [4, 8, 1, 1] ! t else if t = 6 then 8 else 256),
      ctf_type_reference = (\<lambda>t. 1),
      ctf_array_info = (\<lambda>t. Some 2),
      ctf_member_info = (\<lambda>t m. None),
      ctf_lookup_forward = (\<lambda>t. None),
      ctf_id = int,
      ctf_any = (\<lambda>t. False),
      dt_int_type = 0, dt_str_type = 4, dt_dyn_type = 5,
      dt_ident_size = (\<lambda>i. 0)\<rparr>"

definition demo_attr :: "nat \<Rightarrow> nat nattr" where
  "demo_attr t = dt_node_type_assign demo_ctf \<lparr>dn_flags = 0, dn_type = t\<rparr> t"

lemmas demo_defs = demo_ctf_def demo_attr_def dt_node_type_assign_def dt_node_is_arith_def dt_node_void_def dt_node_kind_def
  dt_node_is_string_def enc_of_def promote_base_def IS_VOID_def

theorem dt_cg_compare_signed_iso_witness:
  "dt_cg_compare_signed demo_ctf (demo_attr 0) (demo_attr 1) = Some False \<and>
   dt_cg_compare_signed demo_ctf (demo_attr 0) (demo_attr 0) = Some True"
proof -
  let ?int = "\<lparr>cte_format = 1, cte_offset = 0, cte_bits = 32\<rparr> :: ctfenc"
  let ?ulong = "\<lparr>cte_format = 0, cte_offset = 0, cte_bits = 64\<rparr> :: ctfenc"
  have "ctf_int_ok demo_ctf" by (simp add: ctf_int_ok_def demo_ctf_def)
  moreover have "dt_node_is_arith demo_ctf (demo_attr 0)" "dt_node_is_arith demo_ctf (demo_attr 1)"
    "\<not> dt_node_is_string demo_ctf (demo_attr 0)" "\<not> dt_node_is_string demo_ctf (demo_attr 1)"
    "enc_of demo_ctf (demo_attr 0) = Some ?int" "enc_of demo_ctf (demo_attr 1) = Some ?ulong"
    by (simp_all add: demo_defs Let_def)
  ultimately show ?thesis
    using dt_cg_compare_signed_iso [of demo_ctf "demo_attr 0" "demo_attr 1" ?int ?ulong]
      dt_cg_compare_signed_iso [of demo_ctf "demo_attr 0" "demo_attr 0" ?int ?int]
    by (simp add: c_common_def c_promote_def int_type_def)
qed

text \<open>
  Types narrower than \<open>int\<close> are not promoted first: \<open>signed char\<close> and \<open>unsigned char\<close> are compared as
  unsigned, where the C rule compares two values of type \<open>int\<close>.
\<close>

lemma dt_cg_compare_signed_narrow:
  "dt_cg_compare_signed demo_ctf (demo_attr 2) (demo_attr 3) = Some False"
  "snd (c_common (8, True) (8, False))"
  by (code_simp, simp add: c_common_def c_promote_def)

end
