(* ===== verification/DTCg.thy ===== *)
theory DTCg
  imports DTNode DTRegset
begin

unbundle bit_operations_syntax

text \<open>
  The code generator, \<open>libdtrace/dt_cg.c\<close>: its state and the pieces of code that the generation of
  expressions, actions and aggregations is made of.

  The generator works on the parser control block; what it changes there is the record \<open>cg\<close>: the
  instruction list, the register set (whose spill functions append to that list), the temporary
  strings, the string table, the identifiers (by address, since several nodes share one) and the
  offset in the output buffer.  A generating function takes the state and returns the new one.
  \<open>None\<close> is a compilation that was abandoned: a \<open>longjmp\<close> to the compiler's handler (no register left, a type
  that cannot be loaded, ...) or a failed assertion.
\<close>

section \<open>Context and stack layout\<close>

abbreviation (input) DCTX_CTX :: int where "DCTX_CTX \<equiv> 0"
abbreviation (input) DCTX_ACT :: int where "DCTX_ACT \<equiv> 8"
abbreviation (input) DCTX_MST :: int where "DCTX_MST \<equiv> 16"
abbreviation (input) DCTX_BUF :: int where "DCTX_BUF \<equiv> 24"
abbreviation (input) DCTX_MEM :: int where "DCTX_MEM \<equiv> 32"
abbreviation (input) DCTX_STRTAB :: int where "DCTX_STRTAB \<equiv> 40"
abbreviation (input) DCTX_AGG :: int where "DCTX_AGG \<equiv> 48"
abbreviation (input) DCTX_GVARS :: int where "DCTX_GVARS \<equiv> 56"
abbreviation (input) DCTX_LVARS :: int where "DCTX_LVARS \<equiv> 64"
abbreviation (input) DCTX_SIZE :: int where "DCTX_SIZE \<equiv> 72"

abbreviation (input) DMST_EPID :: int where "DMST_EPID \<equiv> 0"
abbreviation (input) DMST_PRID :: int where "DMST_PRID \<equiv> 4"
abbreviation (input) DMST_CLID :: int where "DMST_CLID \<equiv> 8"
abbreviation (input) DMST_TAG :: int where "DMST_TAG \<equiv> 12"
abbreviation (input) DMST_ERRNO :: int where "DMST_ERRNO \<equiv> 16"
abbreviation (input) DMST_FAULT :: int where "DMST_FAULT \<equiv> 24"
abbreviation (input) DMST_TSTAMP :: int where "DMST_TSTAMP \<equiv> 32"
abbreviation (input) DMST_REGS :: int where "DMST_REGS \<equiv> 40"

definition DT_STK_DCTX :: int where "DT_STK_DCTX = 0 - DCTX_SIZE"

definition DT_STK_SPILL :: "nat \<Rightarrow> int" where "DT_STK_SPILL n = (DT_STK_DCTX - 8) - int n * 8"

abbreviation (input) BPF_FUNC_map_lookup_elem :: int where "BPF_FUNC_map_lookup_elem \<equiv> 1"
abbreviation (input) BPF_FUNC_map_update_elem :: int where "BPF_FUNC_map_update_elem \<equiv> 2"
abbreviation (input) BPF_FUNC_probe_read :: int where "BPF_FUNC_probe_read \<equiv> 4"
abbreviation (input) BPF_FUNC_get_prandom_u32 :: int where "BPF_FUNC_get_prandom_u32 \<equiv> 7"
abbreviation (input) BPF_FUNC_get_current_pid_tgid :: int where "BPF_FUNC_get_current_pid_tgid \<equiv> 14"
abbreviation (input) BPF_FUNC_perf_event_output :: int where "BPF_FUNC_perf_event_output \<equiv> 25"
abbreviation (input) BPF_FUNC_probe_read_str :: int where "BPF_FUNC_probe_read_str \<equiv> 45"

abbreviation (input) DTRACEFLT_BADADDR :: int where "DTRACEFLT_BADADDR \<equiv> 1"
abbreviation (input) DTRACEFLT_DIVZERO :: int where "DTRACEFLT_DIVZERO \<equiv> 4"

section \<open>The state of the generator\<close>

record tstring =
  ts_offset :: u64
  ts_in_use :: bool

record cg =
  pcb_ir :: irlist
  pcb_regs :: "irlist regset"
  pcb_bufoff :: nat
  pcb_exitlbl :: nat
  cg_idents :: "nat \<Rightarrow> ident"
  dt_tstrings :: "tstring list"
  dt_ccstab :: strtab
  cg_allocs :: alloc
  dtsd_clauseflags :: u32

text \<open>
  What the generator finds in the handle besides the types: the functions, maps and variables of the
  precompiled BPF library, options, the argument mapping of the probe, and the signatures of array
  identifiers (the formal parameters and the number of the first variable one).
\<close>

record 'ty cgenv = "'ty ctfenv" +
  dt_dlib_get_func :: "string \<Rightarrow> ident"
  dt_dlib_get_map :: "string \<Rightarrow> ident"
  dt_dlib_get_var :: "string \<Rightarrow> ident"
  opt_strsize :: nat
  opt_maxframes :: nat
  probe_mapping :: "u64 \<Rightarrow> u64"
  dtc_diftupregs :: nat
  ident_sig :: "nat \<Rightarrow> 'ty node list \<times> int"

text \<open>Instructions with no label, with a label, and with an external reference, as the \<open>emit\<close> macros make them.\<close>

definition I :: "bpf_insn \<Rightarrow> irnode" where
  "I i = dt_cg_node_alloc DT_LBL_NONE i"

definition L :: "nat \<Rightarrow> bpf_insn \<Rightarrow> irnode" where
  "L l i = dt_cg_node_alloc l i"

definition X :: "bpf_insn \<Rightarrow> ident \<Rightarrow> irnode" where
  "X i idp = (dt_cg_node_alloc DT_LBL_NONE i)\<lparr>di_extern := Some idp\<rparr>"

definition code :: "cg \<Rightarrow> irnode list \<Rightarrow> cg" where
  "code s ns = s\<lparr>pcb_ir := foldl dt_irlist_append (pcb_ir s) ns\<rparr>"

lemma code_emit:
  "code s [I i] = s\<lparr>pcb_ir := emit (pcb_ir s) i\<rparr>" "code s [L l i] = s\<lparr>pcb_ir := emitl (pcb_ir s) l i\<rparr>"
  "code s [X i idp] = s\<lparr>pcb_ir := emite (pcb_ir s) i idp\<rparr>" "code (code s ns) ms = code s (ns @ ms)"
  by (simp_all add: code_def I_def L_def X_def emit_def emitl_def emite_def emitle_def dt_cg_node_alloc_def)

definition cg_label :: "cg \<Rightarrow> nat \<times> cg" where
  "cg_label s = (let (l, dlp) = dt_irlist_label (pcb_ir s) in (l, s\<lparr>pcb_ir := dlp\<rparr>))"

text \<open>\<open>dt_regset_alloc\<close> with the \<open>longjmp\<close> on \<open>-1\<close> that follows every call of it, and the other register operations.\<close>

definition cg_alloc :: "cg \<Rightarrow> (nat \<times> cg) option" where
  "cg_alloc s =
     (case dt_regset_alloc (pcb_regs s) (pcb_ir s) of
        (None, drp, dlp) \<Rightarrow> None
      | (Some reg, drp, dlp) \<Rightarrow> Some (reg, s\<lparr>pcb_regs := drp, pcb_ir := dlp\<rparr>))"

definition cg_free :: "nat \<Rightarrow> cg \<Rightarrow> cg option" where
  "cg_free reg s = do {
     (drp, dlp) \<leftarrow> dt_regset_free (pcb_regs s) reg (pcb_ir s);
     Some (s\<lparr>pcb_regs := drp, pcb_ir := dlp\<rparr>) }"

text \<open>The result of \<open>dt_regset_xalloc\<close> is ignored wherever the generator reserves \<open>%r0\<close>.\<close>

definition cg_xalloc :: "nat \<Rightarrow> cg \<Rightarrow> cg option" where
  "cg_xalloc reg s = do {
     (ok, drp, dlp) \<leftarrow> dt_regset_xalloc (pcb_regs s) reg (pcb_ir s);
     Some (s\<lparr>pcb_regs := drp, pcb_ir := dlp\<rparr>) }"

definition cg_xalloc_args :: "cg \<Rightarrow> cg option" where
  "cg_xalloc_args s = do {
     (ok, drp, dlp) \<leftarrow> dt_regset_xalloc_args (pcb_regs s) (pcb_ir s);
     if \<not> ok then None else Some (s\<lparr>pcb_regs := drp, pcb_ir := dlp\<rparr>) }"

definition cg_free_args :: "cg \<Rightarrow> cg option" where
  "cg_free_args s = do {
     (drp, dlp) \<leftarrow> dt_regset_free_args (pcb_regs s) (pcb_ir s);
     Some (s\<lparr>pcb_regs := drp, pcb_ir := dlp\<rparr>) }"

definition dt_cg_spill_store :: "nat \<Rightarrow> irlist \<Rightarrow> irlist" where
  "dt_cg_spill_store reg dlp = emit dlp (BPF_STORE BPF_DW BPF_REG_FP (DT_STK_SPILL reg) reg)"

definition dt_cg_spill_load :: "nat \<Rightarrow> irlist \<Rightarrow> irlist" where
  "dt_cg_spill_load reg dlp = emit dlp (BPF_LOAD BPF_DW reg BPF_REG_FP (DT_STK_SPILL reg))"

definition cg_mark :: "nat \<Rightarrow> u16 \<Rightarrow> cg \<Rightarrow> cg" where
  "cg_mark i f s = s\<lparr>cg_idents := (cg_idents s)(i := (cg_idents s i)\<lparr>di_flags := di_flags (cg_idents s i) OR f\<rparr>)\<rparr>"

section \<open>Temporary strings\<close>

abbreviation (input) DT_TSTRING_SLOTS :: nat where "DT_TSTRING_SLOTS \<equiv> 4"

definition roundup8 :: "nat \<Rightarrow> nat" where "roundup8 n = (n + 7) div 8 * 8"

text \<open>The empty list is a table that was not allocated yet.\<close>

definition dt_cg_tstring_reset :: "'ty cgenv \<Rightarrow> cg \<Rightarrow> cg option" where
  "dt_cg_tstring_reset e s =
     (let size = roundup8 (opt_strsize e + 1) in
      if dt_tstrings s = [] then
        (let (ok, al) = alloc_ok (cg_allocs s) in
         if \<not> ok then None
         else Some (s\<lparr>dt_tstrings := map (\<lambda>i. \<lparr>ts_offset = of_nat (i * size), ts_in_use = False\<rparr>) [0..<DT_TSTRING_SLOTS],
                      cg_allocs := al\<rparr>))
      else Some (s\<lparr>dt_tstrings := map (\<lambda>ts. ts\<lparr>ts_in_use := False\<rparr>) (dt_tstrings s)\<rparr>))"

fun tstring_take :: "tstring list \<Rightarrow> (u64 \<times> tstring list) option" where
  "tstring_take [] = None"
| "tstring_take (ts # tss) =
     (if \<not> ts_in_use ts then Some (ts_offset ts, ts\<lparr>ts_in_use := True\<rparr> # tss)
      else map_option (\<lambda>(off, tss). (off, ts # tss)) (tstring_take tss))"

definition dt_cg_tstring_xalloc :: "cg \<Rightarrow> (u64 \<times> cg) option" where
  "dt_cg_tstring_xalloc s = do {
     (off, tss) \<leftarrow> tstring_take (dt_tstrings s);
     Some (off, s\<lparr>dt_tstrings := tss\<rparr>) }"

fun tstring_give :: "u64 \<Rightarrow> tstring list \<Rightarrow> tstring list option" where
  "tstring_give off [] = None"
| "tstring_give off (ts # tss) =
     (if ts_offset ts = off then if ts_in_use ts then Some (ts\<lparr>ts_in_use := False\<rparr> # tss) else None
      else map_option (\<lambda>tss. ts # tss) (tstring_give off tss))"

definition dt_cg_tstring_xfree :: "u64 \<Rightarrow> cg \<Rightarrow> cg option" where
  "dt_cg_tstring_xfree off s = do {
     tss \<leftarrow> tstring_give off (dt_tstrings s);
     Some (s\<lparr>dt_tstrings := tss\<rparr>) }"

text \<open>The temporary string that the generator associated with a node, if it did.\<close>

definition dt_cg_tstring_free :: "u64 option \<Rightarrow> cg \<Rightarrow> cg option" where
  "dt_cg_tstring_free ts s = (case ts of None \<Rightarrow> Some s | Some off \<Rightarrow> dt_cg_tstring_xfree off s)"

section \<open>Sizes of loads and stores\<close>

definition ldstw :: "u8 list" where
  "ldstw = [0, BPF_B, BPF_H, 0, BPF_W, 0, 0, 0, BPF_DW]"

definition clp2 :: "u64 \<Rightarrow> u64" where
  "clp2 x =
     (let x = x - 1;
          x = x OR drop_bit 1 x;
          x = x OR drop_bit 2 x;
          x = x OR drop_bit 4 x;
          x = x OR drop_bit 8 x;
          x = x OR drop_bit 16 x
      in x + 1)"

definition P2ROUNDUP8 :: "nat \<Rightarrow> nat" where "P2ROUNDUP8 n = (n + 7) div 8 * 8"

definition field_bytes :: "nat \<Rightarrow> int" where
  "field_bytes bits = int (unat (clp2 (of_nat (P2ROUNDUP8 bits div NBBY))))"

definition size_ok :: "int \<Rightarrow> bool" where
  "size_ok n \<longleftrightarrow> n \<in> {1, 2, 4, 8}"

section \<open>Faults\<close>

definition dt_cg_probe_error :: "'ty cgenv \<Rightarrow> int \<Rightarrow> int \<Rightarrow> int \<Rightarrow> cg \<Rightarrow> cg option" where
  "dt_cg_probe_error e off fault illval s = do {
     let idp = dt_dlib_get_func e ''dt_probe_error'';
     s \<leftarrow> cg_xalloc_args s;
     let s = code s
       [I (BPF_LOAD BPF_DW BPF_REG_1 BPF_REG_FP DT_STK_DCTX),
        I (BPF_MOV_IMM BPF_REG_2 off),
        I (BPF_MOV_IMM BPF_REG_3 fault),
        I (BPF_MOV_IMM BPF_REG_4 illval)];
     s \<leftarrow> cg_xalloc BPF_REG_0 s;
     let s = code s [X (BPF_CALL_FUNC (uint (di_id idp))) idp];
     s \<leftarrow> cg_free_args s;
     s \<leftarrow> cg_free BPF_REG_0 s;
     Some (code s [I BPF_RETURN]) }"

definition dt_cg_check_notnull :: "'ty cgenv \<Rightarrow> nat \<Rightarrow> cg \<Rightarrow> cg option" where
  "dt_cg_check_notnull e reg s = do {
     let (lbl_notnull, s) = cg_label s;
     let s = code s [I (BPF_BRANCH_IMM BPF_JNE reg 0 (int lbl_notnull))];
     s \<leftarrow> dt_cg_probe_error e (- 1) DTRACEFLT_BADADDR 0 s;
     Some (code s [L lbl_notnull BPF_NOP]) }"

definition dt_cg_check_fault :: "cg \<Rightarrow> cg option" where
  "dt_cg_check_fault s = do {
     (reg, s) \<leftarrow> cg_alloc s;
     let (lbl_ok, s) = cg_label s;
     let s = code s
       [I (BPF_LOAD BPF_DW reg BPF_REG_FP DT_STK_DCTX),
        I (BPF_LOAD BPF_DW reg reg DCTX_MST),
        I (BPF_LOAD BPF_DW reg reg DMST_FAULT),
        I (BPF_BRANCH_IMM BPF_JEQ reg 0 (int lbl_ok)),
        I (BPF_MOV_IMM BPF_REG_0 0),
        I BPF_RETURN,
        L lbl_ok BPF_NOP];
     cg_free reg s }"

definition dt_cg_fill_gap :: "nat \<Rightarrow> cg \<Rightarrow> cg" where
  "dt_cg_fill_gap gap s =
     (let off = int (pcb_bufoff s);
          (s, off) = (if odd gap then (code s [I (BPF_STORE_IMM BPF_B BPF_REG_9 off 0)], off + 1) else (s, off));
          (s, off) = (if odd (gap div 2) then (code s [I (BPF_STORE_IMM BPF_H BPF_REG_9 off 0)], off + 2) else (s, off))
      in if odd (gap div 4) then code s [I (BPF_STORE_IMM BPF_W BPF_REG_9 off 0)] else s)"

definition dt_cg_memcpy :: "nat \<Rightarrow> nat \<Rightarrow> int \<Rightarrow> cg \<Rightarrow> cg option" where
  "dt_cg_memcpy dst src n s = do {
     s \<leftarrow> cg_xalloc_args s;
     let s = code s
       [I (BPF_MOV_REG BPF_REG_1 dst),
        I (BPF_MOV_IMM BPF_REG_2 n),
        I (BPF_MOV_REG BPF_REG_3 src)];
     s \<leftarrow> cg_xalloc BPF_REG_0 s;
     let s = code s [I (BPF_CALL_HELPER BPF_FUNC_probe_read)];
     s \<leftarrow> cg_free_args s;
     cg_free BPF_REG_0 s }"

section \<open>Constants, loads and stores\<close>

definition dt_cg_xsetx :: "ident option \<Rightarrow> nat \<Rightarrow> nat \<Rightarrow> u64 \<Rightarrow> cg \<Rightarrow> cg" where
  "dt_cg_xsetx idp lbl reg x s =
     code s [(dt_cg_node_alloc lbl (fst (BPF_LDDW reg x)))\<lparr>di_extern := idp\<rparr>, I (snd (BPF_LDDW reg x))]"

definition dt_cg_setx :: "nat \<Rightarrow> u64 \<Rightarrow> cg \<Rightarrow> cg" where
  "dt_cg_setx reg x s = dt_cg_xsetx None DT_LBL_NONE reg x s"

partial_function (option) dt_cg_membinfo :: "'ty cgenv \<Rightarrow> 'ty \<Rightarrow> cstr \<Rightarrow> (nat \<times> 'ty) option" where
  "dt_cg_membinfo e type m =
     (if ctf_type_kind e type = CTF_K_FORWARD \<and> ctf_lookup_forward e type \<noteq> None
        \<and> ctf_lookup_forward e type \<noteq> Some type
      then dt_cg_membinfo e (ctf_type_resolve e (the (ctf_lookup_forward e type))) m
      else ctf_member_info e type m)"

definition dt_cg_load :: "'ty cgenv \<Rightarrow> 'ty nattr \<Rightarrow> 'ty \<Rightarrow> u8 option" where
  "dt_cg_load e a type =
     (let size = (case ctf_type_encoding e type of
                    Some enc \<Rightarrow> if nf a DT_NF_BITFIELD then field_bytes (cte_bits enc) else ctf_type_size e type
                  | None \<Rightarrow> ctf_type_size e type)
      in if size < 1 \<or> size > 8 \<or> and size (size - 1) \<noteq> 0 then None else Some (ldstw ! nat size))"

definition dt_cg_ptrsize :: "'ty cgenv \<Rightarrow> 'ty nattr \<Rightarrow> u8 \<Rightarrow> nat \<Rightarrow> cg \<Rightarrow> cg option" where
  "dt_cg_ptrsize e a op dreg s = do {
     let type = ctf_type_resolve e (dn_type a);
     let kind = ctf_type_kind e type;
     type \<leftarrow> (if kind = CTF_K_ARRAY then ctf_array_info e type
              else if kind = CTF_K_POINTER then Some (ctf_type_reference e type) else None);
     let size = ctf_type_size e type;
     Some (if size = 1 then s else code s [I (BPF_ALU64_IMM op dreg size)]) }"

text \<open>The offset is in bits.  The shift counts and the mask are immediates of 32 bits.\<close>

definition dt_cg_field_get :: "'ty cgenv \<Rightarrow> 'ty nattr \<Rightarrow> nat \<Rightarrow> nat \<Rightarrow> 'ty \<Rightarrow> cg \<Rightarrow> cg option" where
  "dt_cg_field_get e a r1 ctm_offset ctm_type s = do {
     enc \<leftarrow> ctf_type_encoding e ctm_type;
     let bits = cte_bits enc;
     if bits > 64 then None
     else if nf a DT_NF_SIGNED then
       (let shift = ctm_offset mod NBBY + bits
        in Some (code s
             [I (BPF_ALU64_IMM BPF_LSH r1 (64 - int shift)),
              I (BPF_ALU64_IMM BPF_ARSH r1 (64 - int bits))]))
     else
       (let shift = ctm_offset mod NBBY
        in Some (code s
             [I (BPF_ALU64_IMM BPF_RSH r1 (int shift)),
              I (BPF_ALU64_IMM BPF_AND r1 (2 ^ bits - 1))])) }"

text \<open>
  The destination is a member of a structure: \<open>a\<close> are the attributes of the access, \<open>left\<close> those of the
  structure, \<open>op\<close> the operator, \<open>dreg\<close> the register with the address.
\<close>

definition dt_cg_field_set ::
  "'ty cgenv \<Rightarrow> nat \<Rightarrow> 'ty nattr \<Rightarrow> 'ty nattr \<Rightarrow> tok \<Rightarrow> cstr \<Rightarrow> nat \<Rightarrow> cg \<Rightarrow> (nat \<times> cg) option" where
  "dt_cg_field_set e sreg a left op m dreg s = do {
     let type = ctf_type_resolve e (dn_type left);
     let type = (if op = DT_TOK_PTR then ctf_type_resolve e (ctf_type_reference e type) else type);
     (ctm_offset, ctm_type) \<leftarrow> dt_cg_membinfo e type m;
     enc \<leftarrow> ctf_type_encoding e ctm_type;
     let bits = cte_bits enc;
     if bits > 64 then None
     else do {
       (r1, s) \<leftarrow> cg_alloc s;
       (r2, s) \<leftarrow> cg_alloc s;
       let shift = ctm_offset mod NBBY;
       let fmask = (push_bit bits 1 - 1 :: u64);
       let cmask = NOT (push_bit shift fmask);
       sz \<leftarrow> dt_cg_load e a ctm_type;
       let s = code s [I (BPF_LOAD sz r1 dreg 0)];
       let s = dt_cg_setx r2 cmask s;
       let s = code s [I (BPF_ALU64_REG BPF_AND r1 r2)];
       let s = dt_cg_setx r2 fmask s;
       let s = code s
         [I (BPF_ALU64_REG BPF_AND r2 sreg),
          I (BPF_ALU64_IMM BPF_LSH r2 (int shift)),
          I (BPF_ALU64_REG BPF_OR r1 r2)];
       s \<leftarrow> cg_free r2 s;
       Some (r1, s) } }"

text \<open>A bit-field is a member access; \<open>fld\<close> has what \<open>dt_cg_field_set\<close> reads of the destination node then.\<close>

definition dt_cg_store ::
  "'ty cgenv \<Rightarrow> bool \<Rightarrow> nat \<Rightarrow> 'ty node \<Rightarrow> nat \<Rightarrow> cg \<Rightarrow> cg option" where
  "dt_cg_store e sref sreg dst dreg s = do {
     let a = dn_attrs dst;
     let size = (case ctf_type_encoding e (dn_type a) of
                   Some enc \<Rightarrow> if nf a DT_NF_BITFIELD then field_bytes (cte_bits enc) else dt_node_type_size e dst
                 | None \<Rightarrow> dt_node_type_size e dst);
     if sref then dt_cg_memcpy dreg sreg size s
     else if nf a DT_NF_BITFIELD then
       (case dst of
          NMember _ op l m \<Rightarrow> do {
            (reg, s) \<leftarrow> dt_cg_field_set e sreg a (dn_attrs l) op m dreg s;
            if \<not> size_ok size then None
            else cg_free reg (code s [I (BPF_STORE (ldstw ! nat size) dreg 0 reg)]) }
        | _ \<Rightarrow> None)
     else if \<not> size_ok size then None
     else Some (code s [I (BPF_STORE (ldstw ! nat size) dreg 0 sreg)]) }"

end
