(* ===== verification/DTCgSubr.thy ===== *)
theory DTCgSubr
  imports DTCg
begin

unbundle bit_operations_syntax

text \<open>
  Code for the D subroutines (\<open>dt_cg_subr_*\<close> of \<open>libdtrace/dt_cg.c\<close>).  The generators of the
  arguments are parameters: \<open>cgf\<close> is what generating code for a node does to the state, with the
  register and the temporary string that the generator stores in the node as results; its boolean
  asks for the address of the node instead of its value (the flag \<open>DT_NF_REF\<close>, set for one visit).
\<close>

type_synonym cgf = "bool \<Rightarrow> cg \<Rightarrow> (nat \<times> u64 option \<times> cg) option"

definition DMEM_STRTOK :: "'ty cgenv \<Rightarrow> int" where
  "DMEM_STRTOK e = int (max (8 * opt_maxframes e) (DT_TSTRING_SLOTS * roundup8 (opt_strsize e + 1)))"

definition call_func :: "ident \<Rightarrow> irnode" where
  "call_func idp = X (BPF_CALL_FUNC (uint (di_id idp))) idp"

text \<open>The address of a temporary string: \<open>dctx->mem\<close> plus the offset.\<close>

definition tstring_addr :: "nat \<Rightarrow> u64 \<Rightarrow> irnode list" where
  "tstring_addr reg off =
     [I (BPF_LOAD BPF_DW reg BPF_REG_FP DT_STK_DCTX),
      I (BPF_LOAD BPF_DW reg reg DCTX_MEM),
      I (BPF_ALU64_IMM BPF_ADD reg (uint off))]"

text \<open>Two scratch strings in \<open>%r4\<close> and \<open>%r5\<close> for \<open>dt_index\<close> and \<open>dt_rindex\<close>.\<close>

definition scratch_addrs :: "nat \<Rightarrow> nat \<Rightarrow> u64 \<Rightarrow> u64 \<Rightarrow> irnode list" where
  "scratch_addrs ra rb off1 off2 =
     [I (BPF_LOAD BPF_DW ra BPF_REG_FP DT_STK_DCTX),
      I (BPF_LOAD BPF_DW ra ra DCTX_MEM),
      I (BPF_MOV_REG rb ra),
      I (BPF_ALU64_IMM BPF_ADD ra (uint off1)),
      I (BPF_ALU64_IMM BPF_ADD rb (uint off2))]"

fun dt_cg_subr_path_helper :: "'ty cgenv \<Rightarrow> string \<Rightarrow> cgf list \<Rightarrow> cg \<Rightarrow> (nat \<times> u64 option \<times> cg) option" where
  "dt_cg_subr_path_helper e fname (str # _) s = do {
     (sreg, sts, s) \<leftarrow> str False s;
     s \<leftarrow> dt_cg_check_notnull e sreg s;
     (reg, s) \<leftarrow> cg_alloc s;
     (ts, s) \<leftarrow> dt_cg_tstring_xalloc s;
     let s = code s (tstring_addr reg ts);
     s \<leftarrow> cg_xalloc_args s;
     let s = code s [I (BPF_MOV_REG BPF_REG_1 sreg)];
     s \<leftarrow> cg_free sreg s;
     s \<leftarrow> dt_cg_tstring_free sts s;
     let s = code s [I (BPF_MOV_REG BPF_REG_2 reg)];
     s \<leftarrow> cg_xalloc BPF_REG_0 s;
     let s = code s [call_func (dt_dlib_get_func e fname)];
     s \<leftarrow> cg_free_args s;
     s \<leftarrow> cg_free BPF_REG_0 s;
     Some (reg, Some ts, s) }"
| "dt_cg_subr_path_helper e fname [] s = None"

definition dt_cg_subr_basename :: "'ty cgenv \<Rightarrow> cgf list \<Rightarrow> cg \<Rightarrow> (nat \<times> u64 option \<times> cg) option" where
  "dt_cg_subr_basename e args s = dt_cg_subr_path_helper e ''dt_basename'' args s"

definition dt_cg_subr_dirname :: "'ty cgenv \<Rightarrow> cgf list \<Rightarrow> cg \<Rightarrow> (nat \<times> u64 option \<times> cg) option" where
  "dt_cg_subr_dirname e args s = dt_cg_subr_path_helper e ''dt_dirname'' args s"

text \<open>An optional third argument; the register is given back where the code frees it.\<close>

definition opt_node :: "cgf list \<Rightarrow> cg \<Rightarrow> (nat option \<times> cg) option" where
  "opt_node rest s =
     (case rest of
        [] \<Rightarrow> Some (None, s)
      | n # _ \<Rightarrow> do { (reg, ts, s) \<leftarrow> n False s; Some (Some reg, s) })"

fun dt_cg_subr_index :: "'ty cgenv \<Rightarrow> cgf list \<Rightarrow> cg \<Rightarrow> (nat \<times> u64 option \<times> cg) option" where
  "dt_cg_subr_index e (str # sub # rest) s = do {
     (sreg, sts, s) \<leftarrow> str False s;
     s \<leftarrow> dt_cg_check_notnull e sreg s;
     (treg, tts, s) \<leftarrow> sub False s;
     s \<leftarrow> dt_cg_check_notnull e treg s;
     (start, s) \<leftarrow> opt_node rest s;
     s \<leftarrow> cg_xalloc_args s;
     let s = code s [I (BPF_MOV_REG BPF_REG_1 sreg)];
     s \<leftarrow> cg_free sreg s;
     s \<leftarrow> dt_cg_tstring_free sts s;
     let s = code s [I (BPF_MOV_REG BPF_REG_2 treg)];
     s \<leftarrow> cg_free treg s;
     s \<leftarrow> dt_cg_tstring_free tts s;
     s \<leftarrow> (case start of
            Some r \<Rightarrow> cg_free r (code s [I (BPF_MOV_REG BPF_REG_3 r)])
          | None \<Rightarrow> Some (code s [I (BPF_MOV_IMM BPF_REG_3 0)]));
     (off1, s) \<leftarrow> dt_cg_tstring_xalloc s;
     (off2, s) \<leftarrow> dt_cg_tstring_xalloc s;
     let s = code s (scratch_addrs BPF_REG_4 BPF_REG_5 off1 off2);
     s \<leftarrow> cg_xalloc BPF_REG_0 s;
     let s = code s [call_func (dt_dlib_get_func e ''dt_index'')];
     s \<leftarrow> cg_free_args s;
     s \<leftarrow> dt_cg_tstring_xfree off1 s;
     s \<leftarrow> dt_cg_tstring_xfree off2 s;
     (reg, s) \<leftarrow> cg_alloc s;
     let s = code s [I (BPF_MOV_REG reg BPF_REG_0)];
     s \<leftarrow> cg_free BPF_REG_0 s;
     Some (reg, None, s) }"
| "dt_cg_subr_index e _ s = None"

fun dt_cg_subr_lltostr :: "'ty cgenv \<Rightarrow> cgf list \<Rightarrow> cg \<Rightarrow> (nat \<times> u64 option \<times> cg) option" where
  "dt_cg_subr_lltostr e (val # _) s = do {
     (vreg, vts, s) \<leftarrow> val False s;
     s \<leftarrow> cg_xalloc_args s;
     (reg, s) \<leftarrow> cg_alloc s;
     (ts, s) \<leftarrow> dt_cg_tstring_xalloc s;
     let s = code s (tstring_addr reg ts);
     let s = code s [I (BPF_MOV_REG BPF_REG_1 reg), I (BPF_MOV_REG BPF_REG_2 vreg)];
     s \<leftarrow> cg_free vreg s;
     s \<leftarrow> cg_xalloc BPF_REG_0 s;
     let s = code s [call_func (dt_dlib_get_func e ''dt_lltostr'')];
     s \<leftarrow> cg_free_args s;
     s \<leftarrow> cg_free BPF_REG_0 s;
     Some (reg, Some ts, s) }"
| "dt_cg_subr_lltostr e [] s = None"

definition dt_cg_subr_rand :: "cg \<Rightarrow> (nat \<times> u64 option \<times> cg) option" where
  "dt_cg_subr_rand s = do {
     (reg, s) \<leftarrow> cg_alloc s;
     s \<leftarrow> cg_xalloc_args s;
     s \<leftarrow> cg_xalloc BPF_REG_0 s;
     let s = code s [I (BPF_CALL_HELPER BPF_FUNC_get_prandom_u32)];
     s \<leftarrow> cg_free_args s;
     let s = code s [I (BPF_MOV_REG reg BPF_REG_0)];
     s \<leftarrow> cg_free BPF_REG_0 s;
     Some (reg, None, code s [I (BPF_ALU64_IMM BPF_AND reg 0xffffffff)]) }"

fun dt_cg_subr_rindex :: "'ty cgenv \<Rightarrow> cgf list \<Rightarrow> cg \<Rightarrow> (nat \<times> u64 option \<times> cg) option" where
  "dt_cg_subr_rindex e (str # sub # rest) s = do {
     let (Lneg_start, s) = cg_label s;
     (sreg, sts, s) \<leftarrow> str False s;
     s \<leftarrow> dt_cg_check_notnull e sreg s;
     (treg, tts, s) \<leftarrow> sub False s;
     s \<leftarrow> dt_cg_check_notnull e treg s;
     (start, s) \<leftarrow> opt_node rest s;
     s \<leftarrow> cg_xalloc_args s;
     let s = code s [I (BPF_MOV_REG BPF_REG_1 sreg)];
     s \<leftarrow> cg_free sreg s;
     s \<leftarrow> dt_cg_tstring_free sts s;
     let s = code s [I (BPF_MOV_REG BPF_REG_2 treg)];
     s \<leftarrow> cg_free treg s;
     s \<leftarrow> dt_cg_tstring_free tts s;
     (off1, s) \<leftarrow> dt_cg_tstring_xalloc s;
     (off2, s) \<leftarrow> dt_cg_tstring_xalloc s;
     let s = code s (scratch_addrs BPF_REG_4 BPF_REG_5 off1 off2);
     s \<leftarrow> cg_xalloc BPF_REG_0 s;
     s \<leftarrow> (case start of
            Some r \<Rightarrow> cg_free r (code s
              [I (BPF_MOV_IMM BPF_REG_0 (- 1)),
               I (BPF_BRANCH_IMM BPF_JSLT r 0 (int Lneg_start)),
               I (BPF_MOV_REG BPF_REG_3 r)])
          | None \<Rightarrow> Some (code s [I (BPF_MOV_IMM BPF_REG_3 (- 1))]));
     let s = code s [call_func (dt_dlib_get_func e ''dt_rindex''), L Lneg_start BPF_NOP];
     s \<leftarrow> cg_free_args s;
     s \<leftarrow> dt_cg_tstring_xfree off1 s;
     s \<leftarrow> dt_cg_tstring_xfree off2 s;
     (reg, s) \<leftarrow> cg_alloc s;
     let s = code s [I (BPF_MOV_REG reg BPF_REG_0)];
     s \<leftarrow> cg_free BPF_REG_0 s;
     Some (reg, None, s) }"
| "dt_cg_subr_rindex e _ s = None"

definition dt_cg_subr_speculation :: "'ty cgenv \<Rightarrow> cg \<Rightarrow> (nat \<times> u64 option \<times> cg) option" where
  "dt_cg_subr_speculation e s = do {
     (reg, s) \<leftarrow> cg_alloc s;
     s \<leftarrow> cg_xalloc_args s;
     s \<leftarrow> cg_xalloc BPF_REG_0 s;
     let s = code s
       [call_func (dt_dlib_get_func e ''dt_speculation''),
        I (BPF_MOV_REG reg BPF_REG_0)];
     s \<leftarrow> cg_free BPF_REG_0 s;
     s \<leftarrow> cg_free_args s;
     Some (reg, None, s) }"

fun dt_cg_subr_strchr :: "'ty cgenv \<Rightarrow> cgf list \<Rightarrow> cg \<Rightarrow> (nat \<times> u64 option \<times> cg) option" where
  "dt_cg_subr_strchr e (str # chr # _) s = do {
     let (Lfound, s) = cg_label s;
     (sreg, sts, s) \<leftarrow> str False s;
     s \<leftarrow> dt_cg_check_notnull e sreg s;
     (creg, cts, s) \<leftarrow> chr False s;
     s \<leftarrow> cg_xalloc_args s;
     let s = code s [I (BPF_MOV_REG BPF_REG_1 sreg)];
     s \<leftarrow> cg_free sreg s;
     s \<leftarrow> dt_cg_tstring_free sts s;
     let s = code s [I (BPF_MOV_REG BPF_REG_2 creg)];
     s \<leftarrow> cg_free creg s;
     (reg, s) \<leftarrow> cg_alloc s;
     (ts, s) \<leftarrow> dt_cg_tstring_xalloc s;
     let s = code s (tstring_addr reg ts);
     let s = code s [I (BPF_MOV_REG BPF_REG_3 reg)];
     (off, s) \<leftarrow> dt_cg_tstring_xalloc s;
     let s = code s (tstring_addr BPF_REG_4 off);
     s \<leftarrow> cg_xalloc BPF_REG_0 s;
     let s = code s [call_func (dt_dlib_get_func e ''dt_strchr'')];
     s \<leftarrow> cg_free_args s;
     s \<leftarrow> dt_cg_tstring_xfree off s;
     let s = code s
       [I (BPF_BRANCH_IMM BPF_JEQ BPF_REG_0 0 (int Lfound)),
        I (BPF_MOV_IMM reg 0),
        L Lfound BPF_NOP];
     s \<leftarrow> cg_free BPF_REG_0 s;
     Some (reg, Some ts, s) }"
| "dt_cg_subr_strchr e _ s = None"

fun dt_cg_subr_strrchr :: "'ty cgenv \<Rightarrow> cgf list \<Rightarrow> cg \<Rightarrow> (nat \<times> u64 option \<times> cg) option" where
  "dt_cg_subr_strrchr e (str # chr # _) s = do {
     let (Lfound, s) = cg_label s;
     (sreg, sts, s) \<leftarrow> str False s;
     s \<leftarrow> dt_cg_check_notnull e sreg s;
     (creg, cts, s) \<leftarrow> chr False s;
     s \<leftarrow> cg_xalloc_args s;
     let s = code s [I (BPF_MOV_REG BPF_REG_1 sreg)];
     s \<leftarrow> cg_free sreg s;
     s \<leftarrow> dt_cg_tstring_free sts s;
     let s = code s [I (BPF_MOV_REG BPF_REG_2 creg)];
     s \<leftarrow> cg_free creg s;
     (reg, s) \<leftarrow> cg_alloc s;
     (ts, s) \<leftarrow> dt_cg_tstring_xalloc s;
     let s = code s (tstring_addr reg ts);
     let s = code s [I (BPF_MOV_REG BPF_REG_3 reg)];
     s \<leftarrow> cg_xalloc BPF_REG_0 s;
     let s = code s [call_func (dt_dlib_get_func e ''dt_strrchr'')];
     s \<leftarrow> cg_free_args s;
     let s = code s
       [I (BPF_BRANCH_IMM BPF_JEQ BPF_REG_0 0 (int Lfound)),
        I (BPF_MOV_IMM reg 0),
        L Lfound BPF_NOP];
     s \<leftarrow> cg_free BPF_REG_0 s;
     Some (reg, Some ts, s) }"
| "dt_cg_subr_strrchr e _ s = None"

fun dt_cg_subr_strlen :: "'ty cgenv \<Rightarrow> cgf list \<Rightarrow> cg \<Rightarrow> (nat \<times> u64 option \<times> cg) option" where
  "dt_cg_subr_strlen e (str # _) s = do {
     (sreg, sts, s) \<leftarrow> str False s;
     s \<leftarrow> dt_cg_check_notnull e sreg s;
     s \<leftarrow> cg_xalloc_args s;
     let s = code s
       [I (BPF_LOAD BPF_DW BPF_REG_1 BPF_REG_FP DT_STK_DCTX),
        I (BPF_MOV_REG BPF_REG_2 sreg)];
     s \<leftarrow> cg_free sreg s;
     s \<leftarrow> dt_cg_tstring_free sts s;
     s \<leftarrow> cg_xalloc BPF_REG_0 s;
     let s = code s [call_func (dt_dlib_get_func e ''dt_strlen'')];
     s \<leftarrow> cg_free_args s;
     (reg, s) \<leftarrow> cg_alloc s;
     let s = code s [I (BPF_MOV_REG reg BPF_REG_0)];
     s \<leftarrow> cg_free BPF_REG_0 s;
     Some (reg, None, s) }"
| "dt_cg_subr_strlen e [] s = None"

fun dt_cg_subr_strjoin :: "'ty cgenv \<Rightarrow> cgf list \<Rightarrow> cg \<Rightarrow> (nat \<times> u64 option \<times> cg) option" where
  "dt_cg_subr_strjoin e (s1 # s2 # _) s = do {
     (r1, ts1, s) \<leftarrow> s1 False s;
     s \<leftarrow> dt_cg_check_notnull e r1 s;
     (r2, ts2, s) \<leftarrow> s2 False s;
     s \<leftarrow> dt_cg_check_notnull e r2 s;
     (reg, s) \<leftarrow> cg_alloc s;
     (ts, s) \<leftarrow> dt_cg_tstring_xalloc s;
     let s = code s (tstring_addr reg ts);
     s \<leftarrow> cg_xalloc_args s;
     let s = code s
       [I (BPF_MOV_REG BPF_REG_1 reg),
        I (BPF_MOV_REG BPF_REG_2 r1)];
     s \<leftarrow> cg_free r1 s;
     s \<leftarrow> dt_cg_tstring_free ts1 s;
     let s = code s [I (BPF_MOV_REG BPF_REG_3 r2)];
     s \<leftarrow> cg_free r2 s;
     s \<leftarrow> dt_cg_tstring_free ts2 s;
     s \<leftarrow> cg_xalloc BPF_REG_0 s;
     let s = code s [call_func (dt_dlib_get_func e ''dt_strjoin'')];
     s \<leftarrow> cg_free_args s;
     s \<leftarrow> cg_free BPF_REG_0 s;
     Some (reg, Some ts, s) }"
| "dt_cg_subr_strjoin e _ s = None"

fun dt_cg_subr_strstr :: "'ty cgenv \<Rightarrow> cgf list \<Rightarrow> cg \<Rightarrow> (nat \<times> u64 option \<times> cg) option" where
  "dt_cg_subr_strstr e (str # sub # _) s = do {
     let (Ldone, s) = cg_label s;
     (sreg, sts, s) \<leftarrow> str False s;
     s \<leftarrow> dt_cg_check_notnull e sreg s;
     (treg, tts, s) \<leftarrow> sub False s;
     s \<leftarrow> dt_cg_check_notnull e treg s;
     s \<leftarrow> cg_xalloc_args s;
     let s = code s
       [I (BPF_MOV_REG BPF_REG_1 sreg),
        I (BPF_MOV_REG BPF_REG_2 treg)];
     s \<leftarrow> cg_free treg s;
     s \<leftarrow> dt_cg_tstring_free tts s;
     let s = code s [I (BPF_MOV_IMM BPF_REG_3 0)];
     (off1, s) \<leftarrow> dt_cg_tstring_xalloc s;
     (off2, s) \<leftarrow> dt_cg_tstring_xalloc s;
     let s = code s (scratch_addrs BPF_REG_4 BPF_REG_5 off1 off2);
     s \<leftarrow> cg_xalloc BPF_REG_0 s;
     let s = code s [call_func (dt_dlib_get_func e ''dt_index'')];
     s \<leftarrow> cg_free_args s;
     s \<leftarrow> dt_cg_tstring_xfree off1 s;
     s \<leftarrow> dt_cg_tstring_xfree off2 s;
     (reg, s) \<leftarrow> cg_alloc s;
     (ts, s) \<leftarrow> dt_cg_tstring_xalloc s;
     let s = code s
       [I (BPF_MOV_IMM reg 0),
        I (BPF_BRANCH_IMM BPF_JSLT BPF_REG_0 0 (int Ldone))];
     let s = code s (tstring_addr reg ts);
     s \<leftarrow> cg_xalloc_args s;
     let s = code s
       [I (BPF_MOV_REG BPF_REG_1 reg),
        I (BPF_MOV_REG BPF_REG_2 sreg)];
     s \<leftarrow> cg_free sreg s;
     s \<leftarrow> dt_cg_tstring_free sts s;
     let s = code s
       [I (BPF_MOV_REG BPF_REG_3 BPF_REG_0),
        I (BPF_MOV_IMM BPF_REG_5 2),
        call_func (dt_dlib_get_func e ''dt_substr'')];
     s \<leftarrow> cg_free_args s;
     let s = code s [L Ldone BPF_NOP];
     s \<leftarrow> cg_free BPF_REG_0 s;
     Some (reg, Some ts, s) }"
| "dt_cg_subr_strstr e _ s = None"

text \<open>\<open>isnull\<close>: the first argument is the integer constant 0.\<close>

fun dt_cg_subr_strtok :: "'ty cgenv \<Rightarrow> bool \<Rightarrow> cgf list \<Rightarrow> cg \<Rightarrow> (nat \<times> u64 option \<times> cg) option" where
  "dt_cg_subr_strtok e isnull (str # del # _) s = do {
     (mreg, s) \<leftarrow> cg_alloc s;
     let s = code s
       [I (BPF_LOAD BPF_DW mreg BPF_REG_FP DT_STK_DCTX),
        I (BPF_LOAD BPF_DW mreg mreg DCTX_MEM)];
     s \<leftarrow> (if \<not> isnull then do {
            (sreg, sts, s) \<leftarrow> str False s;
            s \<leftarrow> dt_cg_check_notnull e sreg s;
            s \<leftarrow> cg_xalloc_args s;
            let s = code s
              [I (BPF_MOV_REG BPF_REG_1 mreg),
               I (BPF_ALU64_IMM BPF_ADD BPF_REG_1 (DMEM_STRTOK e)),
               I (BPF_STORE_IMM BPF_DW BPF_REG_1 0 0),
               I (BPF_ALU64_IMM BPF_ADD BPF_REG_1 8),
               I (BPF_MOV_IMM BPF_REG_2 (int (opt_strsize e) + 1)),
               I (BPF_MOV_REG BPF_REG_3 sreg)];
            s \<leftarrow> cg_free sreg s;
            s \<leftarrow> dt_cg_tstring_free sts s;
            s \<leftarrow> cg_xalloc BPF_REG_0 s;
            let s = code s [I (BPF_CALL_HELPER BPF_FUNC_probe_read_str)];
            s \<leftarrow> cg_free BPF_REG_0 s;
            cg_free_args s }
          else
            dt_cg_check_notnull e BPF_REG_0 (code s
              [I (BPF_MOV_REG BPF_REG_0 mreg),
               I (BPF_LOAD BPF_DW BPF_REG_0 BPF_REG_0 (DMEM_STRTOK e)),
               I (BPF_ALU64_IMM BPF_ADD BPF_REG_0 1)]));
     (dreg, dts, s) \<leftarrow> del False s;
     s \<leftarrow> dt_cg_check_notnull e dreg s;
     (reg, s) \<leftarrow> cg_alloc s;
     (ts, s) \<leftarrow> dt_cg_tstring_xalloc s;
     let s = code s
       [I (BPF_MOV_REG reg mreg),
        I (BPF_ALU64_IMM BPF_ADD reg (uint ts))];
     (off, s) \<leftarrow> dt_cg_tstring_xalloc s;
     s \<leftarrow> cg_xalloc_args s;
     let s = code s
       [I (BPF_MOV_REG BPF_REG_1 reg),
        I (BPF_MOV_REG BPF_REG_2 mreg),
        I (BPF_ALU64_IMM BPF_ADD BPF_REG_2 (DMEM_STRTOK e)),
        I (BPF_MOV_REG BPF_REG_3 dreg)];
     s \<leftarrow> cg_free dreg s;
     s \<leftarrow> dt_cg_tstring_free dts s;
     let s = code s
       [I (BPF_MOV_REG BPF_REG_4 mreg),
        I (BPF_ALU64_IMM BPF_ADD BPF_REG_4 (uint off))];
     s \<leftarrow> cg_xalloc BPF_REG_0 s;
     let s = code s [call_func (dt_dlib_get_func e ''dt_strtok'')];
     s \<leftarrow> cg_free_args s;
     s \<leftarrow> dt_cg_tstring_xfree off s;
     let s = code s [I (BPF_MOV_REG reg BPF_REG_0)];
     s \<leftarrow> cg_free BPF_REG_0 s;
     s \<leftarrow> cg_free mreg s;
     Some (reg, Some ts, s) }"
| "dt_cg_subr_strtok e isnull _ s = None"

fun dt_cg_subr_substr :: "'ty cgenv \<Rightarrow> cgf list \<Rightarrow> cg \<Rightarrow> (nat \<times> u64 option \<times> cg) option" where
  "dt_cg_subr_substr e (str # idx # rest) s = do {
     (sreg, sts, s) \<leftarrow> str False s;
     s \<leftarrow> dt_cg_check_notnull e sreg s;
     (ireg, its, s) \<leftarrow> idx False s;
     (cnt, s) \<leftarrow> opt_node rest s;
     (reg, s) \<leftarrow> cg_alloc s;
     (ts, s) \<leftarrow> dt_cg_tstring_xalloc s;
     let s = code s (tstring_addr reg ts);
     s \<leftarrow> cg_xalloc_args s;
     let s = code s
       [I (BPF_MOV_REG BPF_REG_1 reg),
        I (BPF_MOV_REG BPF_REG_2 sreg)];
     s \<leftarrow> cg_free sreg s;
     s \<leftarrow> dt_cg_tstring_free sts s;
     let s = code s [I (BPF_MOV_REG BPF_REG_3 ireg)];
     s \<leftarrow> cg_free ireg s;
     s \<leftarrow> (case cnt of
            Some r \<Rightarrow> do {
              s \<leftarrow> cg_free r (code s [I (BPF_MOV_REG BPF_REG_4 r)]);
              Some (code s [I (BPF_MOV_IMM BPF_REG_5 3)]) }
          | None \<Rightarrow> Some (code s [I (BPF_MOV_IMM BPF_REG_4 0), I (BPF_MOV_IMM BPF_REG_5 2)]));
     s \<leftarrow> cg_xalloc BPF_REG_0 s;
     let s = code s [call_func (dt_dlib_get_func e ''dt_substr'')];
     s \<leftarrow> cg_free_args s;
     s \<leftarrow> cg_free BPF_REG_0 s;
     Some (reg, Some ts, s) }"
| "dt_cg_subr_substr e _ s = None"

fun dt_cg_subr_swap :: "u8 \<Rightarrow> cgf list \<Rightarrow> cg \<Rightarrow> (nat \<times> u64 option \<times> cg) option" where
  "dt_cg_subr_swap sz (n # _) s = do {
     (reg, ts, s) \<leftarrow> n False s;
     Some (reg, None, code s [I (BPF_END_REG sz reg BPF_TO_BE)]) }"
| "dt_cg_subr_swap sz [] s = None"

definition dt_cg_subr_htons :: "cgf list \<Rightarrow> cg \<Rightarrow> (nat \<times> u64 option \<times> cg) option" where
  "dt_cg_subr_htons args s = dt_cg_subr_swap BPF_H args s"

definition dt_cg_subr_htonl :: "cgf list \<Rightarrow> cg \<Rightarrow> (nat \<times> u64 option \<times> cg) option" where
  "dt_cg_subr_htonl args s = dt_cg_subr_swap BPF_W args s"

definition dt_cg_subr_htonll :: "cgf list \<Rightarrow> cg \<Rightarrow> (nat \<times> u64 option \<times> cg) option" where
  "dt_cg_subr_htonll args s = dt_cg_subr_swap BPF_DW args s"

section \<open>The table of subroutines\<close>

definition dt_cg_subr :: "'ty cgenv \<Rightarrow> u32 \<Rightarrow> bool \<Rightarrow> cgf list \<Rightarrow> (cg \<Rightarrow> (nat \<times> u64 option \<times> cg) option) option" where
  "dt_cg_subr e subr isnull args =
     (if subr = 0 then Some dt_cg_subr_rand
      else if subr = 10 then Some (dt_cg_subr_speculation e)
      else if subr = 12 then Some (dt_cg_subr_strlen e args)
      else if subr = 23 then Some (dt_cg_subr_strjoin e args)
      else if subr = 24 then Some (dt_cg_subr_lltostr e args)
      else if subr = 25 then Some (dt_cg_subr_basename e args)
      else if subr = 26 then Some (dt_cg_subr_dirname e args)
      else if subr = 28 then Some (dt_cg_subr_strchr e args)
      else if subr = 29 then Some (dt_cg_subr_strrchr e args)
      else if subr = 30 then Some (dt_cg_subr_strstr e args)
      else if subr = 31 then Some (dt_cg_subr_strtok e isnull args)
      else if subr = 32 then Some (dt_cg_subr_substr e args)
      else if subr = 33 then Some (dt_cg_subr_index e args)
      else if subr = 34 then Some (dt_cg_subr_rindex e args)
      else if subr = 35 \<or> subr = 38 then Some (dt_cg_subr_htons args)
      else if subr = 36 \<or> subr = 39 then Some (dt_cg_subr_htonl args)
      else if subr = 37 \<or> subr = 40 then Some (dt_cg_subr_htonll args)
      else None)"

definition dt_cg_call_subr :: "'ty cgenv \<Rightarrow> nat \<Rightarrow> bool \<Rightarrow> cgf list \<Rightarrow> cg \<Rightarrow> (nat \<times> u64 option \<times> cg) option" where
  "dt_cg_call_subr e i isnull args s =
     (let idp = cg_idents s i in
      if di_kind idp \<noteq> DT_IDENT_FUNC then None
      else case dt_cg_subr e (di_id idp) isnull args of None \<Rightarrow> None | Some fun \<Rightarrow> fun s)"

end
