(* ===== verification/DTCgExpr.thy ===== *)
theory DTCgExpr
  imports DTCgSubr
begin

unbundle bit_operations_syntax

text \<open>
  Code for expressions: variables, casts, operators and \<open>dt_cg_node\<close>, in \<open>libdtrace/dt_cg.c\<close>.
  Each operator takes the generators of its operands; \<open>dt_cg_node\<close> puts them together by recursion on
  the tree.  Not here: translated types, whose nodes the tree has no constructor for.
\<close>

section \<open>Variables\<close>

abbreviation (input) DIF_VAR_OTHER_UBASE :: u32 where "DIF_VAR_OTHER_UBASE \<equiv> 0x0500"
abbreviation (input) DIF_VAR_ARRAY_MAX :: u32 where "DIF_VAR_ARRAY_MAX \<equiv> 0x00ff"
abbreviation (input) DIF_VAR_ARGS :: u32 where "DIF_VAR_ARGS \<equiv> 0x0000"

definition var_base :: "nat \<Rightarrow> bool \<Rightarrow> irnode list" where
  "var_base reg local =
     [I (BPF_LOAD BPF_DW reg BPF_REG_FP DT_STK_DCTX),
      I (BPF_LOAD BPF_DW reg reg (if local then DCTX_LVARS else DCTX_GVARS))]"

definition dt_cg_load_var :: "'ty cgenv \<Rightarrow> 'ty node \<Rightarrow> nat \<Rightarrow> cgf" where
  "dt_cg_load_var e dst i fref s = do {
     let s = cg_mark i DT_IDFLG_DIFR s;
     let idp = cg_idents s i;
     let islocal = (di_flags idp AND DT_IDFLG_LOCAL \<noteq> 0);
     let tls = (di_flags idp AND DT_IDFLG_TLS \<noteq> 0);
     let byref = (fref \<or> nf (dn_attrs dst) DT_NF_REF);
     let size = dt_node_type_size e dst;
     if islocal \<or> (\<not> tls \<and> di_id idp \<ge> DIF_VAR_OTHER_UBASE) then do {
       (reg, s) \<leftarrow> cg_alloc s;
       let s = code s (var_base reg islocal);
       if byref then Some (reg, None, code s [I (BPF_ALU64_IMM BPF_ADD reg (di_offset idp))])
       else if \<not> size_ok size then None
       else Some (reg, None, code s [I (BPF_LOAD (ldstw ! nat size) reg reg (di_offset idp))]) }
     else if tls then do {
       let varid = uint (di_id idp - DIF_VAR_OTHER_UBASE);
       (reg, s) \<leftarrow> cg_alloc s;
       s \<leftarrow> cg_xalloc_args s;
       let s = code s
         [I (BPF_MOV_IMM BPF_REG_1 varid),
          I (BPF_MOV_IMM BPF_REG_2 0),
          I (BPF_MOV_IMM BPF_REG_3 0)];
       s \<leftarrow> cg_xalloc BPF_REG_0 s;
       let s = code s [call_func (dt_dlib_get_func e ''dt_get_tvar'')];
       s \<leftarrow> cg_free_args s;
       if byref then do {
         s \<leftarrow> cg_free BPF_REG_0 (code s [I (BPF_MOV_REG reg BPF_REG_0)]);
         Some (reg, None, s) }
       else do {
         let (lbl_notnull, s) = cg_label s;
         let (lbl_done, s) = cg_label s;
         if \<not> size_ok size then None
         else do {
           let s = code s
             [I (BPF_BRANCH_IMM BPF_JNE BPF_REG_0 0 (int lbl_notnull)),
              I (BPF_MOV_IMM reg 0),
              I (BPF_JUMP (int lbl_done)),
              L lbl_notnull (BPF_LOAD (ldstw ! nat size) reg BPF_REG_0 0)];
           s \<leftarrow> cg_free BPF_REG_0 s;
           Some (reg, None, code s [L lbl_done BPF_NOP]) } } }
     else do {
       s \<leftarrow> cg_xalloc_args s;
       let s = code s
         [I (BPF_LOAD BPF_DW BPF_REG_1 BPF_REG_FP DT_STK_DCTX),
          I (BPF_MOV_IMM BPF_REG_2 (uint (di_id idp)))];
       s \<leftarrow> cg_xalloc BPF_REG_0 s;
       let s = code s [call_func (dt_dlib_get_func e ''dt_get_bvar'')];
       s \<leftarrow> cg_free_args s;
       s \<leftarrow> dt_cg_check_fault s;
       (reg, s) \<leftarrow> cg_alloc s;
       s \<leftarrow> cg_free BPF_REG_0 (code s [I (BPF_MOV_REG reg BPF_REG_0)]);
       Some (reg, None, s) } }"

text \<open>
  \<open>byref\<close> is the flag \<open>DT_NF_REF\<close> of the node that assigns, \<open>reg\<close> its register, \<open>srcsz\<close> the size of its right
  operand.  The increment and decrement operators have no right operand.
\<close>

definition dt_cg_store_var :: "'ty cgenv \<Rightarrow> bool \<Rightarrow> nat \<Rightarrow> int option \<Rightarrow> nat \<Rightarrow> cg \<Rightarrow> cg option" where
  "dt_cg_store_var e byref vreg srcsz i s = do {
     let s = cg_mark i DT_IDFLG_DIFW s;
     let idp = cg_idents s i;
     if di_flags idp AND DT_IDFLG_TLS = 0 then do {
       (reg, s) \<leftarrow> cg_alloc s;
       let s = code s (var_base reg (di_flags idp AND DT_IDFLG_LOCAL \<noteq> 0));
       s \<leftarrow> (if byref then do {
              let s = code s [I (BPF_ALU64_IMM BPF_ADD reg (di_offset idp))];
              srcsz \<leftarrow> srcsz;
              dt_cg_memcpy reg vreg (min srcsz (di_size idp)) s }
            else if \<not> size_ok (di_size idp) then None
            else Some (code s [I (BPF_STORE (ldstw ! nat (di_size idp)) reg (di_offset idp) vreg)]));
       cg_free reg s }
     else do {
       let varid = uint (di_id idp - DIF_VAR_OTHER_UBASE);
       s \<leftarrow> cg_xalloc_args s;
       let s = code s
         [I (BPF_MOV_IMM BPF_REG_1 varid),
          I (BPF_MOV_IMM BPF_REG_2 1),
          I (BPF_MOV_REG BPF_REG_3 vreg)];
       s \<leftarrow> cg_xalloc BPF_REG_0 s;
       let s = code s [call_func (dt_dlib_get_func e ''dt_get_tvar'')];
       s \<leftarrow> cg_free_args s;
       let (lbl_done, s) = cg_label s;
       let s = code s [I (BPF_BRANCH_IMM BPF_JEQ vreg 0 (int lbl_done))];
       (reg, s) \<leftarrow> cg_alloc s;
       s \<leftarrow> cg_free BPF_REG_0 (code s [I (BPF_MOV_REG reg BPF_REG_0)]);
       s \<leftarrow> dt_cg_check_notnull e reg s;
       s \<leftarrow> (if byref then do { srcsz \<leftarrow> srcsz; dt_cg_memcpy reg vreg (min srcsz (di_size idp)) s }
            else if \<not> size_ok (di_size idp) then None
            else Some (code s [I (BPF_STORE (ldstw ! nat (di_size idp)) reg 0 vreg)]));
       s \<leftarrow> cg_free reg s;
       Some (code s [L lbl_done BPF_NOP]) } }"

section \<open>Casts and argument lists\<close>

definition dt_cg_typecast :: "'ty cgenv \<Rightarrow> 'ty node \<Rightarrow> 'ty node \<Rightarrow> nat \<Rightarrow> cg \<Rightarrow> cg" where
  "dt_cg_typecast e src dst reg s =
     (let srcsize = dt_node_type_size e src;
          dstsize = dt_node_type_size e dst;
          n = (if dstsize < srcsize then 64 - dstsize * 8 else 64 - srcsize * 8);
          ssigned = nf (dn_attrs src) DT_NF_SIGNED;
          dsigned = nf (dn_attrs dst) DT_NF_SIGNED
      in if ctf_any e (dn_type (dn_attrs dst)) then s
         else if dt_node_is_scalar e (dn_attrs dst) \<and> n \<noteq> 0 \<and> (dstsize < srcsize \<or> ssigned \<noteq> dsigned)
         then code s
           [I (BPF_MOV_REG reg reg),
            I (BPF_ALU64_IMM BPF_LSH reg n),
            I (BPF_ALU64_IMM (if dsigned then BPF_ARSH else BPF_RSH) reg n)]
         else s)"

abbreviation (input) DIF_OP_PUSHTR :: int where "DIF_OP_PUSHTR \<equiv> 48"
abbreviation (input) DIF_OP_PUSHTV :: int where "DIF_OP_PUSHTV \<equiv> 49"

fun arglist_regs :: "cgf list \<Rightarrow> cg \<Rightarrow> (nat list \<times> cg) option" where
  "arglist_regs [] s = Some ([], s)"
| "arglist_regs (n # ns) s = do {
     (reg, ts, s) \<leftarrow> n False s;
     (regs, s) \<leftarrow> arglist_regs ns s;
     Some (reg # regs, s) }"

text \<open>\<open>formals\<close> are \<open>dis_args\<close>; the last one serves all arguments from \<open>varargs\<close> on (\<open>dis_varargs\<close>).\<close>

fun arglist_push :: "'ty cgenv \<Rightarrow> 'ty node list \<Rightarrow> int \<Rightarrow> nat \<Rightarrow> ('ty node \<times> nat) list \<Rightarrow> cg \<Rightarrow> (nat \<times> cg) option" where
  "arglist_push e formals varargs i [] s = Some (i, s)"
| "arglist_push e formals varargs i ((dnp, dreg) # rest) s = do {
     let s = dt_cg_typecast e dnp (formals ! i) dreg s;
     let op = (if nf (dn_attrs dnp) DT_NF_REF then DIF_OP_PUSHTR else DIF_OP_PUSHTV);
     let size = dt_node_diftype_size e dnp;
     (sreg, s) \<leftarrow> (if size \<noteq> 0 then do { (reg, s) \<leftarrow> cg_alloc s; Some (reg, dt_cg_setx reg (word_of_int size) s) }
                  else Some (BPF_REG_0, s));
     let s = code s [I (BPF_CALL_FUNC op)];
     s \<leftarrow> cg_free dreg s;
     s \<leftarrow> (if sreg \<noteq> BPF_REG_0 then cg_free sreg s else Some s);
     arglist_push e formals varargs (if int i < varargs then i + 1 else i) rest s }"

definition dt_cg_arglist :: "'ty cgenv \<Rightarrow> 'ty node list \<Rightarrow> int \<Rightarrow> 'ty node list \<Rightarrow> cgf list \<Rightarrow> cg \<Rightarrow> cg option" where
  "dt_cg_arglist e formals varargs args fs s = do {
     (regs, s) \<leftarrow> arglist_regs fs s;
     (i, s) \<leftarrow> arglist_push e formals varargs 0 (zip args regs) s;
     if i > dtc_diftupregs e then None else Some s }"

section \<open>Operators\<close>

text \<open>The instructions for a signed division: \<open>BPF_DIV\<close> and \<open>BPF_MOD\<close> are unsigned.\<close>

definition signed_div :: "u8 \<Rightarrow> nat \<Rightarrow> nat \<Rightarrow> nat \<Rightarrow> nat \<Rightarrow> nat \<Rightarrow> nat \<Rightarrow> nat \<Rightarrow> irnode list" where
  "signed_div op rl rr L1 L2 L3 L4 L5 =
     [I (BPF_BRANCH_IMM BPF_JSLT rl 0 (int L3)),
      I (BPF_BRANCH_IMM BPF_JSLT rr 0 (int L1)),
      I (BPF_JUMP (int L4)),
      L L1 (BPF_NEG_REG rr),
      L L2 (BPF_ALU64_REG op rl rr),
      I (BPF_NEG_REG rl),
      I (BPF_JUMP (int L5)),
      L L3 (BPF_NEG_REG rl),
      I (BPF_BRANCH_IMM BPF_JSGE rr 0 (int L2)),
      I (BPF_NEG_REG rr),
      L L4 (BPF_ALU64_REG op rl rr),
      L L5 BPF_NOP]"

definition cg_signed_div :: "'ty cgenv \<Rightarrow> u8 \<Rightarrow> nat \<Rightarrow> nat \<Rightarrow> cg \<Rightarrow> cg option" where
  "cg_signed_div e op rl rr s = do {
     let (L1, s) = cg_label s;
     let (L2, s) = cg_label s;
     let (L3, s) = cg_label s;
     let (L4, s) = cg_label s;
     let (L5, s) = cg_label s;
     let (lbl_valid, s) = cg_label s;
     let s = code s [I (BPF_BRANCH_IMM BPF_JNE rr 0 (int lbl_valid))];
     s \<leftarrow> dt_cg_probe_error e (- 1) DTRACEFLT_DIVZERO 0 s;
     let s = code s [L lbl_valid BPF_NOP];
     Some (code s (signed_div op rl rr L1 L2 L3 L4 L5)) }"

definition dt_cg_arithmetic_op ::
  "'ty cgenv \<Rightarrow> 'ty nattr \<Rightarrow> tok \<Rightarrow> 'ty node \<Rightarrow> 'ty node \<Rightarrow> u8 \<Rightarrow> cgf \<Rightarrow> cgf \<Rightarrow> cg \<Rightarrow> (nat \<times> u64 option \<times> cg) option" where
  "dt_cg_arithmetic_op e a dn_op l r op fl fr s = do {
     let is_ptr_op = (dn_op \<in> {DT_TOK_ADD, DT_TOK_SUB, DT_TOK_ADD_EQ, DT_TOK_SUB_EQ});
     let lp_is_ptr = dt_node_is_pointer e (dn_attrs l);
     let rp_is_ptr = dt_node_is_pointer e (dn_attrs r);
     if lp_is_ptr \<and> rp_is_ptr \<and> dn_op \<noteq> DT_TOK_SUB then None
     else do {
       let is_ptr_op = (is_ptr_op \<and> \<not> (lp_is_ptr \<and> rp_is_ptr));
       (rl, lts, s) \<leftarrow> fl False s;
       s \<leftarrow> (if is_ptr_op \<and> rp_is_ptr then dt_cg_ptrsize e a BPF_MUL rl s else Some s);
       (rr, rts, s) \<leftarrow> fr False s;
       s \<leftarrow> (if is_ptr_op \<and> lp_is_ptr then dt_cg_ptrsize e a BPF_MUL rr s else Some s);
       s \<leftarrow> (if (op = BPF_MOD \<or> op = BPF_DIV) \<and> nf a DT_NF_SIGNED then cg_signed_div e op rl rr s
            else Some (code s [I (BPF_ALU64_REG op rl rr)]));
       s \<leftarrow> cg_free rr s;
       s \<leftarrow> (if lp_is_ptr \<and> rp_is_ptr then dt_cg_ptrsize e (dn_attrs r) BPF_DIV rl s else Some s);
       Some (rl, None, s) } }"

definition incr_size :: "'ty cgenv \<Rightarrow> 'ty nattr \<Rightarrow> int option" where
  "incr_size e a =
     (if dt_node_is_pointer e a then
        (let type = ctf_type_resolve e (dn_type a) in
         if ctf_type_kind e type \<noteq> CTF_K_POINTER then None else Some (ctf_type_size e (ctf_type_reference e type)))
      else Some 1)"

text \<open>
  The store behind an increment: to a variable, or through the address that the operand, visited once
  more, leaves in a register.
\<close>

definition incr_store :: "'ty cgenv \<Rightarrow> 'ty nattr \<Rightarrow> 'ty node \<Rightarrow> cgf \<Rightarrow> nat \<Rightarrow> cg \<Rightarrow> cg option" where
  "incr_store e a c fc vreg s =
     (case c of
        NVar _ i args \<Rightarrow> dt_cg_store_var e (nf a DT_NF_REF) vreg None i s
      | _ \<Rightarrow>
          if \<not> nf (dn_attrs c) DT_NF_WRITABLE \<or> \<not> nf (dn_attrs c) DT_NF_LVALUE then None
          else do {
            (dreg, dts, s) \<leftarrow> fc True s;
            s \<leftarrow> dt_cg_store e (nf a DT_NF_REF) vreg c dreg s;
            cg_free dreg s })"

definition dt_cg_prearith_op :: "'ty cgenv \<Rightarrow> 'ty nattr \<Rightarrow> 'ty node \<Rightarrow> u8 \<Rightarrow> cgf \<Rightarrow> cg \<Rightarrow> (nat \<times> u64 option \<times> cg) option" where
  "dt_cg_prearith_op e a c op fc s = do {
     size \<leftarrow> incr_size e a;
     (reg, ts, s) \<leftarrow> fc False s;
     let s = code s [I (BPF_ALU64_IMM op reg size)];
     s \<leftarrow> incr_store e a c fc reg s;
     Some (reg, None, s) }"

definition dt_cg_postarith_op :: "'ty cgenv \<Rightarrow> 'ty nattr \<Rightarrow> 'ty node \<Rightarrow> u8 \<Rightarrow> cgf \<Rightarrow> cg \<Rightarrow> (nat \<times> u64 option \<times> cg) option" where
  "dt_cg_postarith_op e a c op fc s = do {
     size \<leftarrow> incr_size e a;
     (oreg, ts, s) \<leftarrow> fc False s;
     (nreg, s) \<leftarrow> cg_alloc s;
     let s = code s
       [I (BPF_MOV_REG nreg oreg),
        I (BPF_ALU64_IMM op nreg size)];
     s \<leftarrow> incr_store e a c fc nreg s;
     s \<leftarrow> cg_free nreg s;
     Some (oreg, None, s) }"

text \<open>Comparison of two strings: the operands become the result of \<open>dt_strcmp\<close> plus one, and 1.\<close>

definition compare_strings :: "'ty cgenv \<Rightarrow> nat \<Rightarrow> u64 option \<Rightarrow> nat \<Rightarrow> u64 option \<Rightarrow> cg \<Rightarrow> cg option" where
  "compare_strings e rl lts rr rts s = do {
     let (Lcomp, s) = cg_label s;
     let s = code s
       [I (BPF_BRANCH_IMM BPF_JEQ rl 0 (int Lcomp)),
        I (BPF_BRANCH_IMM BPF_JEQ rr 0 (int Lcomp))];
     (off1, s) \<leftarrow> dt_cg_tstring_xalloc s;
     (off2, s) \<leftarrow> dt_cg_tstring_xalloc s;
     s \<leftarrow> cg_xalloc_args s;
     let s = code s
       ([I (BPF_MOV_REG BPF_REG_1 rl),
         I (BPF_MOV_REG BPF_REG_2 rr)] @ scratch_addrs BPF_REG_3 BPF_REG_4 off1 off2);
     s \<leftarrow> cg_xalloc BPF_REG_0 s;
     let s = code s [call_func (dt_dlib_get_func e ''dt_strcmp'')];
     s \<leftarrow> cg_free_args s;
     let s = code s
       [I (BPF_ALU64_IMM BPF_ADD BPF_REG_0 1),
        I (BPF_MOV_REG rl BPF_REG_0)];
     s \<leftarrow> cg_free BPF_REG_0 s;
     let s = code s [I (BPF_MOV_IMM rr 1)];
     s \<leftarrow> dt_cg_tstring_xfree off1 s;
     s \<leftarrow> dt_cg_tstring_xfree off2 s;
     s \<leftarrow> dt_cg_tstring_free lts s;
     s \<leftarrow> dt_cg_tstring_free rts s;
     Some (code s [L Lcomp BPF_NOP]) }"

definition dt_cg_compare_op ::
  "'ty cgenv \<Rightarrow> 'ty node \<Rightarrow> 'ty node \<Rightarrow> u8 \<Rightarrow> cgf \<Rightarrow> cgf \<Rightarrow> cg \<Rightarrow> (nat \<times> u64 option \<times> cg) option" where
  "dt_cg_compare_op e l r op fl fr s = do {
     let (lbl_true, s) = cg_label s;
     let (lbl_post, s) = cg_label s;
     (rl, lts, s) \<leftarrow> fl False s;
     (rr, rts, s) \<leftarrow> fr False s;
     s \<leftarrow> (if dt_node_is_string e (dn_attrs l) \<or> dt_node_is_string e (dn_attrs r)
          then compare_strings e rl lts rr rts s else Some s);
     let s = code s [I (BPF_BRANCH_REG op rl rr (int lbl_true))];
     s \<leftarrow> cg_free rr s;
     Some (rl, None, code s
       [I (BPF_MOV_IMM rl 0),
        I (BPF_JUMP (int lbl_post)),
        L lbl_true (BPF_MOV_IMM rl 1),
        L lbl_post BPF_NOP]) }"

text \<open>Reaching back into the list: the instruction of one node is replaced.\<close>

definition patch :: "nat \<Rightarrow> bpf_insn \<Rightarrow> cg \<Rightarrow> cg" where
  "patch k i s =
     (let dlp = pcb_ir s; ns = dl_list dlp
      in s\<lparr>pcb_ir := dlp\<lparr>dl_list := ns[k := (ns ! k)\<lparr>di_instr := i\<rparr>]\<rparr>\<rparr>)"

definition dt_cg_ternary_op :: "'ty cgenv \<Rightarrow> 'ty nattr \<Rightarrow> cgf \<Rightarrow> cgf \<Rightarrow> cgf \<Rightarrow> cg \<Rightarrow> (nat \<times> u64 option \<times> cg) option" where
  "dt_cg_ternary_op e a fe fl fr s = do {
     let (lbl_false, s) = cg_label s;
     let (lbl_post, s) = cg_label s;
     (re, ets, s) \<leftarrow> fe False s;
     let s = code s [I (BPF_BRANCH_IMM BPF_JEQ re 0 (int lbl_false))];
     s \<leftarrow> cg_free re s;
     (rl, lts, s) \<leftarrow> fl False s;
     let dip = length (dl_list (pcb_ir s));
     let s = code s [I (BPF_MOV_IMM rl 0)];
     s \<leftarrow> cg_free rl s;
     let s = code s
       [I (BPF_JUMP (int lbl_post)),
        L lbl_false BPF_NOP];
     (reg, rts, s) \<leftarrow> fr False s;
     let s = patch dip (BPF_MOV_REG reg rl) s;
     let s = code s [L lbl_post BPF_NOP];
     if dt_node_is_string e a then do {
       let s = code s [I (BPF_MOV_REG BPF_REG_0 reg)];
       (ts, s) \<leftarrow> dt_cg_tstring_xalloc s;
       let s = code s (tstring_addr reg ts);
       s \<leftarrow> dt_cg_memcpy reg BPF_REG_0 (int (opt_strsize e)) s;
       s \<leftarrow> dt_cg_tstring_free lts s;
       s \<leftarrow> dt_cg_tstring_free rts s;
       Some (reg, Some ts, s) }
     else Some (reg, None, s) }"

definition dt_cg_logical_and :: "cgf \<Rightarrow> cgf \<Rightarrow> cg \<Rightarrow> (nat \<times> u64 option \<times> cg) option" where
  "dt_cg_logical_and fl fr s = do {
     let (lbl_false, s) = cg_label s;
     let (lbl_post, s) = cg_label s;
     (rl, lts, s) \<leftarrow> fl False s;
     let s = code s [I (BPF_BRANCH_IMM BPF_JEQ rl 0 (int lbl_false))];
     s \<leftarrow> cg_free rl s;
     (reg, rts, s) \<leftarrow> fr False s;
     let s = code s [I (BPF_BRANCH_IMM BPF_JEQ reg 0 (int lbl_false))];
     let s = dt_cg_setx reg 1 s;
     Some (reg, None, code s
       [I (BPF_JUMP (int lbl_post)),
        L lbl_false (BPF_MOV_IMM reg 0),
        L lbl_post BPF_NOP]) }"

definition dt_cg_logical_xor :: "cgf \<Rightarrow> cgf \<Rightarrow> cg \<Rightarrow> (nat \<times> u64 option \<times> cg) option" where
  "dt_cg_logical_xor fl fr s = do {
     let (lbl_next, s) = cg_label s;
     let (lbl_tail, s) = cg_label s;
     (rl, lts, s) \<leftarrow> fl False s;
     let s = code s [I (BPF_BRANCH_IMM BPF_JEQ rl 0 (int lbl_next))];
     let s = dt_cg_setx rl 1 s;
     let s = code s [L lbl_next BPF_NOP];
     (rr, rts, s) \<leftarrow> fr False s;
     let s = code s [I (BPF_BRANCH_IMM BPF_JEQ rr 0 (int lbl_tail))];
     let s = dt_cg_setx rr 1 s;
     let s = code s [L lbl_tail (BPF_ALU64_REG BPF_XOR rl rr)];
     s \<leftarrow> cg_free rr s;
     Some (rl, None, s) }"

definition dt_cg_logical_or :: "cgf \<Rightarrow> cgf \<Rightarrow> cg \<Rightarrow> (nat \<times> u64 option \<times> cg) option" where
  "dt_cg_logical_or fl fr s = do {
     let (lbl_true, s) = cg_label s;
     let (lbl_false, s) = cg_label s;
     let (lbl_post, s) = cg_label s;
     (rl, lts, s) \<leftarrow> fl False s;
     let s = code s [I (BPF_BRANCH_IMM BPF_JNE rl 0 (int lbl_true))];
     s \<leftarrow> cg_free rl s;
     (reg, rts, s) \<leftarrow> fr False s;
     Some (reg, None, code s
       [I (BPF_BRANCH_IMM BPF_JEQ reg 0 (int lbl_false)),
        L lbl_true (BPF_MOV_IMM reg 1),
        I (BPF_JUMP (int lbl_post)),
        L lbl_false (BPF_MOV_IMM reg 0),
        L lbl_post BPF_NOP]) }"

definition dt_cg_logical_neg :: "cgf \<Rightarrow> cg \<Rightarrow> (nat \<times> u64 option \<times> cg) option" where
  "dt_cg_logical_neg fc s = do {
     let (lbl_zero, s) = cg_label s;
     let (lbl_post, s) = cg_label s;
     (reg, ts, s) \<leftarrow> fc False s;
     Some (reg, None, code s
       [I (BPF_BRANCH_IMM BPF_JEQ reg 0 (int lbl_zero)),
        I (BPF_MOV_IMM reg 0),
        I (BPF_JUMP (int lbl_post)),
        L lbl_zero (BPF_MOV_IMM reg 1),
        L lbl_post BPF_NOP]) }"

text \<open>Whether the identifier that a node refers to, through any inlines, is of a given kind.\<close>

fun dt_node_resolve :: "(nat \<Rightarrow> ident) \<Rightarrow> idkind \<Rightarrow> 'ty node \<Rightarrow> bool" where
  "dt_node_resolve ids k (NVar a i args) = (di_kind (ids i) = k)"
| "dt_node_resolve ids k (NFunc a i args) = (di_kind (ids i) = k)"
| "dt_node_resolve ids k (NSym a idp v) = (di_kind idp = k)"
| "dt_node_resolve ids k (NInline a i root) =
     (case root of
        NVar _ _ _ \<Rightarrow> dt_node_resolve ids k root
      | NFunc _ _ _ \<Rightarrow> dt_node_resolve ids k root
      | NSym _ _ _ \<Rightarrow> dt_node_resolve ids k root
      | NInline _ _ _ \<Rightarrow> dt_node_resolve ids k root
      | _ \<Rightarrow> di_kind (ids i) = k)"
| "dt_node_resolve ids k _ = False"

text \<open>
  \<open>reg\<close> and \<open>ts\<close> are the register of the assignment and the temporary string of its right operand.
  Assigning a translated structure is an error.
\<close>

definition dt_cg_asgn_op ::
  "'ty cgenv \<Rightarrow> 'ty nattr \<Rightarrow> 'ty node \<Rightarrow> 'ty node \<Rightarrow> cgf \<Rightarrow> cgf list \<Rightarrow> nat \<Rightarrow> u64 option \<Rightarrow> cg \<Rightarrow>
     (u64 option \<times> cg) option" where
  "dt_cg_asgn_op e a l r fl largs reg ts s =
     (if dt_node_resolve (cg_idents s) DT_IDENT_XLSOU r then None
      else case l of
        NVar _ i args \<Rightarrow> do {
          s \<leftarrow> (if di_kind (cg_idents s i) = DT_IDENT_ARRAY
               then dt_cg_arglist e (fst (ident_sig e i)) (snd (ident_sig e i)) args largs s else Some s);
          s \<leftarrow> dt_cg_store_var e (nf a DT_NF_REF) reg (Some (dt_node_type_size e r)) i s;
          Some (ts, s) }
      | _ \<Rightarrow>
          if \<not> nf (dn_attrs l) DT_NF_WRITABLE \<or> \<not> nf (dn_attrs l) DT_NF_LVALUE then None
          else do {
            (dreg, dts, s) \<leftarrow> fl True s;
            s \<leftarrow> dt_cg_store e (nf a DT_NF_REF) reg l dreg s;
            s \<leftarrow> cg_free dreg s;
            Some (None, s) })"

section \<open>Constants\<close>

definition dt_cg_int :: "u64 \<Rightarrow> cg \<Rightarrow> (nat \<times> u64 option \<times> cg) option" where
  "dt_cg_int v s = do {
     (reg, s) \<leftarrow> cg_alloc s;
     Some (reg, None, if v > 0x7fffffff then dt_cg_setx reg v s else code s [I (BPF_MOV_IMM reg (uint v))]) }"

definition dt_cg_string :: "cstr \<Rightarrow> cg \<Rightarrow> (nat \<times> u64 option \<times> cg) option" where
  "dt_cg_string str s = do {
     (reg, s) \<leftarrow> cg_alloc s;
     (case dt_strtab_insert (dt_ccstab s) (Some str) (cg_allocs s) of
        None \<Rightarrow> None
      | Some (None, sp, al) \<Rightarrow> None
      | Some (Some stroff, sp, al) \<Rightarrow>
          if stroff > DIF_STROFF_MAX then None
          else Some (reg, None, code (s\<lparr>dt_ccstab := sp, cg_allocs := al\<rparr>)
            [I (BPF_LOAD BPF_DW reg BPF_REG_FP DT_STK_DCTX),
             I (BPF_LOAD BPF_DW reg reg DCTX_STRTAB),
             I (BPF_ALU64_IMM BPF_ADD reg (int stroff))])) }"

section \<open>Arrays\<close>

definition dt_cg_assoc_op ::
  "'ty cgenv \<Rightarrow> 'ty nattr \<Rightarrow> nat \<Rightarrow> 'ty node list \<Rightarrow> cgf list \<Rightarrow> cgf" where
  "dt_cg_assoc_op e a i args fs fref s =
     (let idp = cg_idents s i in
      if di_flags idp AND DT_IDFLG_LOCAL \<noteq> 0 \<or> args = [] then None
      else do {
        s \<leftarrow> dt_cg_arglist e (fst (ident_sig e i)) (snd (ident_sig e i)) args fs s;
        (reg, s) \<leftarrow> cg_alloc s;
        let base = (if di_flags idp AND DT_IDFLG_TLS \<noteq> 0 then 0x2000 else 0x3000);
        let s = cg_mark i DT_IDFLG_DIFR s;
        let s = code s [I (BPF_LOAD BPF_DW reg BPF_REG_FP (base + uint (di_id idp)))];
        if fref \<or> nf a DT_NF_REF then None else Some (reg, None, s) })"

text \<open>
  The index is an integer constant; the index of \<open>args[]\<close> goes through the argument mapping of the
  probe.  The last instruction names register \<open>n\<close>, in a field of four bits, where it shifts by \<open>n\<close>.
\<close>

definition dt_cg_array_op :: "'ty cgenv \<Rightarrow> 'ty node \<Rightarrow> nat \<Rightarrow> 'ty node list \<Rightarrow> cg \<Rightarrow> (nat \<times> u64 option \<times> cg) option" where
  "dt_cg_array_op e dnp i args s =
     (let idp = cg_idents s i; a = dn_attrs dnp in
      case args of
        [NInt ia v] \<Rightarrow>
          if di_flags idp AND DT_IDFLG_LOCAL \<noteq> 0 then None
          else do {
            (reg, ts, s) \<leftarrow> dt_cg_int (if di_id idp = DIF_VAR_ARGS then probe_mapping e v else v) s;
            let base = (if di_flags idp AND DT_IDFLG_TLS \<noteq> 0 then 0x2000 else 0x3000);
            let s = cg_mark i DT_IDFLG_DIFR s;
            let s = code s [I (BPF_LOAD BPF_DW reg BPF_REG_FP (base + uint (di_id idp)))];
            let size = dt_node_type_size e dnp;
            if di_id idp \<noteq> DIF_VAR_ARGS \<or> \<not> dt_node_is_scalar e a then Some (reg, None, s)
            else if size = 8 then Some (reg, None, s)
            else if \<not> size < 8 then None
            else
              (let n = 64 - size * 8
               in Some (reg, None, code s
                    [I (BPF_ALU64_IMM BPF_LSH reg n),
                     I (BPF_ALU64_REG (if nf a DT_NF_SIGNED then BPF_ARSH else BPF_RSH) reg (nat n mod 16))])) }
      | _ \<Rightarrow> None)"

section \<open>Nodes\<close>

abbreviation (input) DT_IDFLG_CGREG :: u16 where "DT_IDFLG_CGREG \<equiv> 0x0100"

definition forced :: "bool \<Rightarrow> 'ty nattr \<Rightarrow> 'ty nattr" where
  "forced fref a = (if fref then a\<lparr>dn_flags := dn_flags a OR DT_NF_REF\<rparr> else a)"

text \<open>A variable reference: the input of a translator, an array element, or a variable.\<close>

definition dt_cg_var :: "'ty cgenv \<Rightarrow> 'ty nattr \<Rightarrow> nat \<Rightarrow> 'ty node list \<Rightarrow> cgf list \<Rightarrow> cgf" where
  "dt_cg_var e a i args fs fref s =
     (let idp = cg_idents s i in
      if di_flags idp AND DT_IDFLG_CGREG \<noteq> 0 then do {
        (reg, s) \<leftarrow> cg_alloc s;
        Some (reg, None, code s [I (BPF_MOV_REG reg (unat (di_id idp)))]) }
      else if di_kind idp = DT_IDENT_XLSOU \<or> di_kind idp = DT_IDENT_XLPTR then
        if di_id idp \<noteq> DIF_VAR_ARGS then None else dt_cg_array_op e (NVar (forced fref a) i args) i args s
      else if di_kind idp = DT_IDENT_ARRAY then
        if di_id idp > DIF_VAR_ARRAY_MAX then dt_cg_assoc_op e (forced fref a) i args fs fref s
        else dt_cg_array_op e (NVar (forced fref a) i args) i args s
      else dt_cg_load_var e (NVar (forced fref a) i args) i fref s)"

definition dt_cg_sym :: "'ty cgenv \<Rightarrow> 'ty nattr \<Rightarrow> ident \<Rightarrow> (u64 \<times> int) option \<Rightarrow> cgf" where
  "dt_cg_sym e a idp symv fref s = do {
     (st_value, st_size) \<leftarrow> symv;
     (reg, s) \<leftarrow> cg_alloc s;
     let s = dt_cg_xsetx (Some idp) DT_LBL_NONE reg st_value s;
     if nf (forced fref a) DT_NF_REF then Some (reg, None, s)
     else do {
       sz \<leftarrow> dt_cg_load e a (dn_type a);
       Some (reg, None, code s [I (BPF_LOAD sz reg reg 0)]) } }"

definition dt_cg_inline :: "'ty cgenv \<Rightarrow> 'ty node \<Rightarrow> 'ty node \<Rightarrow> cgf \<Rightarrow> cg \<Rightarrow> (nat \<times> u64 option \<times> cg) option" where
  "dt_cg_inline e dnp root froot s = do {
     (reg, ts, s) \<leftarrow> froot False s;
     Some (reg, None, dt_cg_typecast e root dnp reg s) }"

definition dt_cg_deref :: "'ty cgenv \<Rightarrow> 'ty nattr \<Rightarrow> cgf \<Rightarrow> cg \<Rightarrow> (nat \<times> u64 option \<times> cg) option" where
  "dt_cg_deref e a fc s = do {
     (reg, ts, s) \<leftarrow> fc False s;
     if nf a DT_NF_REF then Some (reg, None, s)
     else do {
       s \<leftarrow> dt_cg_check_notnull e reg s;
       sz \<leftarrow> dt_cg_load e a (dn_type a);
       Some (reg, None, code s [I (BPF_LOAD sz reg reg 0)]) } }"

text \<open>The operators \<open>->\<close> and \<open>.\<close> on a structure that is no translator output.\<close>

definition dt_cg_member :: "'ty cgenv \<Rightarrow> 'ty nattr \<Rightarrow> tok \<Rightarrow> 'ty nattr \<Rightarrow> cstr \<Rightarrow> cgf \<Rightarrow> cg \<Rightarrow> (nat \<times> u64 option \<times> cg) option" where
  "dt_cg_member e a op left m fl s = do {
     (reg, ts, s) \<leftarrow> fl False s;
     s \<leftarrow> dt_cg_check_notnull e reg s;
     let type = ctf_type_resolve e (dn_type left);
     let type = (if op = DT_TOK_PTR then ctf_type_resolve e (ctf_type_reference e type) else type);
     (ctm_offset, ctm_type) \<leftarrow> dt_cg_membinfo e type m;
     let s = (if ctm_offset \<noteq> 0 then code s [I (BPF_ALU64_IMM BPF_ADD reg (int (ctm_offset div NBBY)))] else s);
     if nf a DT_NF_REF then Some (reg, None, s)
     else do {
       sz \<leftarrow> dt_cg_load e a ctm_type;
       let s = code s [I (BPF_LOAD sz reg reg 0)];
       s \<leftarrow> (if nf a DT_NF_BITFIELD then dt_cg_field_get e a reg ctm_offset ctm_type s else Some s);
       Some (reg, None, s) } }"

fun dt_cg_op1 :: "'ty cgenv \<Rightarrow> 'ty nattr \<Rightarrow> tok \<Rightarrow> 'ty node \<Rightarrow> cgf \<Rightarrow> cg \<Rightarrow> (nat \<times> u64 option \<times> cg) option" where
  "dt_cg_op1 e a DT_TOK_LNEG c fc s = dt_cg_logical_neg fc s"
| "dt_cg_op1 e a DT_TOK_BNEG c fc s = do {
     (reg, ts, s) \<leftarrow> fc False s;
     Some (reg, None, code s [I (BPF_ALU64_IMM BPF_XOR reg (- 1))]) }"
| "dt_cg_op1 e a DT_TOK_PREINC c fc s = dt_cg_prearith_op e a c BPF_ADD fc s"
| "dt_cg_op1 e a DT_TOK_POSTINC c fc s = dt_cg_postarith_op e a c BPF_ADD fc s"
| "dt_cg_op1 e a DT_TOK_PREDEC c fc s = dt_cg_prearith_op e a c BPF_SUB fc s"
| "dt_cg_op1 e a DT_TOK_POSTDEC c fc s = dt_cg_postarith_op e a c BPF_SUB fc s"
| "dt_cg_op1 e a DT_TOK_IPOS c fc s = do { (reg, ts, s) \<leftarrow> fc False s; Some (reg, None, s) }"
| "dt_cg_op1 e a DT_TOK_INEG c fc s = do {
     (reg, ts, s) \<leftarrow> fc False s;
     Some (reg, None, code s [I (BPF_NEG_REG reg)]) }"
| "dt_cg_op1 e a DT_TOK_DEREF c fc s = dt_cg_deref e a fc s"
| "dt_cg_op1 e a DT_TOK_ADDROF c fc s = do { (reg, ts, s) \<leftarrow> fc True s; Some (reg, None, s) }"
| "dt_cg_op1 e a DT_TOK_SIZEOF c fc s =
     (let size = dt_node_sizeof e c in do {
        (reg, s) \<leftarrow> cg_alloc s;
        if size = 0 then None else Some (reg, None, dt_cg_setx reg (word_of_int size) s) })"
| "dt_cg_op1 e a DT_TOK_STRINGOF c fc s = do { (reg, ts, s) \<leftarrow> fc False s; Some (reg, None, s) }"
| "dt_cg_op1 e a _ c fc s = None"

text \<open>The instruction of an arithmetic operator, of the operator behind an assignment, and of a comparison.\<close>

fun arith_insn :: "bool \<Rightarrow> tok \<Rightarrow> u8 option" where
  "arith_insn sg DT_TOK_BOR = Some BPF_OR"
| "arith_insn sg DT_TOK_XOR = Some BPF_XOR"
| "arith_insn sg DT_TOK_BAND = Some BPF_AND"
| "arith_insn sg DT_TOK_LSH = Some BPF_LSH"
| "arith_insn sg DT_TOK_RSH = Some (if sg then BPF_ARSH else BPF_RSH)"
| "arith_insn sg DT_TOK_ADD = Some BPF_ADD"
| "arith_insn sg DT_TOK_SUB = Some BPF_SUB"
| "arith_insn sg DT_TOK_MUL = Some BPF_MUL"
| "arith_insn sg DT_TOK_DIV = Some BPF_DIV"
| "arith_insn sg DT_TOK_MOD = Some BPF_MOD"
| "arith_insn sg _ = None"

fun asgn_insn :: "bool \<Rightarrow> tok \<Rightarrow> u8 option" where
  "asgn_insn sg DT_TOK_ADD_EQ = Some BPF_ADD"
| "asgn_insn sg DT_TOK_SUB_EQ = Some BPF_SUB"
| "asgn_insn sg DT_TOK_MUL_EQ = Some BPF_MUL"
| "asgn_insn sg DT_TOK_DIV_EQ = Some BPF_DIV"
| "asgn_insn sg DT_TOK_MOD_EQ = Some BPF_MOD"
| "asgn_insn sg DT_TOK_AND_EQ = Some BPF_AND"
| "asgn_insn sg DT_TOK_XOR_EQ = Some BPF_XOR"
| "asgn_insn sg DT_TOK_OR_EQ = Some BPF_OR"
| "asgn_insn sg DT_TOK_LSH_EQ = Some BPF_LSH"
| "asgn_insn sg DT_TOK_RSH_EQ = Some (if sg then BPF_ARSH else BPF_RSH)"
| "asgn_insn sg _ = None"

fun compare_insn :: "bool \<Rightarrow> tok \<Rightarrow> u8 option" where
  "compare_insn sg DT_TOK_EQU = Some BPF_JEQ"
| "compare_insn sg DT_TOK_NEQ = Some BPF_JNE"
| "compare_insn sg DT_TOK_LT = Some (if sg then BPF_JSLT else BPF_JLT)"
| "compare_insn sg DT_TOK_LE = Some (if sg then BPF_JSLE else BPF_JLE)"
| "compare_insn sg DT_TOK_GT = Some (if sg then BPF_JSGT else BPF_JGT)"
| "compare_insn sg DT_TOK_GE = Some (if sg then BPF_JSGE else BPF_JGE)"
| "compare_insn sg _ = None"

definition dt_cg_op2 ::
  "'ty cgenv \<Rightarrow> 'ty nattr \<Rightarrow> tok \<Rightarrow> 'ty node \<Rightarrow> 'ty node \<Rightarrow> cgf \<Rightarrow> cgf \<Rightarrow> cgf list \<Rightarrow> cg \<Rightarrow> (nat \<times> u64 option \<times> cg) option" where
  "dt_cg_op2 e a op l r fl fr largs s =
     (let sg = nf a DT_NF_SIGNED in
      if op = DT_TOK_COMMA then do {
        (rl, lts, s) \<leftarrow> fl False s;
        s \<leftarrow> cg_free rl s;
        (reg, ts, s) \<leftarrow> fr False s;
        Some (reg, None, s) }
      else if op = DT_TOK_ASGN then do {
        (reg, ts, s) \<leftarrow> fr False s;
        (ts, s) \<leftarrow> dt_cg_asgn_op e a l r fl largs reg ts s;
        Some (reg, ts, s) }
      else if op = DT_TOK_LOR then dt_cg_logical_or fl fr s
      else if op = DT_TOK_LXOR then dt_cg_logical_xor fl fr s
      else if op = DT_TOK_LAND then dt_cg_logical_and fl fr s
      else if op = DT_TOK_XLATE then do { (reg, ts, s) \<leftarrow> fr False s; Some (reg, None, s) }
      else if op = DT_TOK_LPAR then do {
        (reg, ts, s) \<leftarrow> fr False s;
        Some (reg, None, dt_cg_typecast e r (NOp2 a op l r) reg s) }
      else if asgn_insn sg op \<noteq> None then do {
        (reg, ts, s) \<leftarrow> dt_cg_arithmetic_op e a op l r (the (asgn_insn sg op)) fl fr s;
        (ts, s) \<leftarrow> dt_cg_asgn_op e a l r fl largs reg ts s;
        Some (reg, ts, s) }
      else if arith_insn sg op \<noteq> None then dt_cg_arithmetic_op e a op l r (the (arith_insn sg op)) fl fr s
      else if op = DT_TOK_EQU \<or> op = DT_TOK_NEQ then dt_cg_compare_op e l r (the (compare_insn False op)) fl fr s
      else if compare_insn False op \<noteq> None then do {
        csg \<leftarrow> dt_cg_compare_signed e (dn_attrs l) (dn_attrs r);
        dt_cg_compare_op e l r (the (compare_insn csg op)) fl fr s }
      else None)"

fun is_null :: "'ty node list \<Rightarrow> bool" where
  "is_null (NInt a v # _) = (v = 0)"
| "is_null _ = False"

lemma size_arg [termination_simp]: "x \<in> set xs \<Longrightarrow> size x < Suc (Suc (size_list size xs + k))"
  by (induction xs) auto

function dt_cg_node :: "'ty cgenv \<Rightarrow> 'ty node \<Rightarrow> cgf" where
  "dt_cg_node e (NInt a v) = (\<lambda>fref s. dt_cg_int v s)"
| "dt_cg_node e (NString a str) = (\<lambda>fref s. dt_cg_string str s)"
| "dt_cg_node e (NVar a i args) = dt_cg_var e a i args (map (dt_cg_node e) args)"
| "dt_cg_node e (NInline a i root) = (\<lambda>fref s. dt_cg_inline e (NInline (forced fref a) i root) root (dt_cg_node e root) s)"
| "dt_cg_node e (NSym a idp symv) = dt_cg_sym e a idp symv"
| "dt_cg_node e (NFunc a i args) = (\<lambda>fref s. dt_cg_call_subr e i (is_null args) (map (dt_cg_node e) args) s)"
| "dt_cg_node e (NOp1 a op c) = (\<lambda>fref s. dt_cg_op1 e (forced fref a) op c (dt_cg_node e c) s)"
| "dt_cg_node e (NOp2 a op l r) =
     (\<lambda>fref s. dt_cg_op2 e (forced fref a) op l r (dt_cg_node e l) (dt_cg_node e r)
        (case l of NVar _ _ args \<Rightarrow> map (dt_cg_node e) args | _ \<Rightarrow> []) s)"
| "dt_cg_node e (NOp3 a c l r) =
     (\<lambda>fref s. dt_cg_ternary_op e (forced fref a) (dt_cg_node e c) (dt_cg_node e l) (dt_cg_node e r) s)"
| "dt_cg_node e (NMember a op l m) = (\<lambda>fref s. dt_cg_member e (forced fref a) op (dn_attrs l) m (dt_cg_node e l) s)"
  by pat_completeness auto

termination
  by (relation "measure (\<lambda>(e, n). size n)") (auto simp: less_Suc_eq_le size_list_estimation' trans_le_add1 trans_le_add2 less_imp_le split: node.splits)

end
