(* ===== verification/DTMap.thy ===== *)
theory DTMap
  imports DTPrelude "HOL-Library.Monad_Syntax"
begin

unbundle bit_operations_syntax

text \<open>
  The descriptions of recorded data, \<open>dt_map.c\<close>: the records of a clause and their places in the output
  buffer (\<open>dt_rec_add\<close>), the reference counts of descriptions, the table of enabled probe identifiers and
  the table of aggregations.  \<open>None\<close> as the result of an operation on the handle is an access the code may
  not make or a failed assertion.
\<close>

section \<open>Data\<close>

text \<open>A format descriptor is represented by the string it was made from.\<close>

record recdesc =
  dtrd_action :: u16
  dtrd_size :: u32
  dtrd_offset :: u32
  dtrd_alignment :: u16
  dtrd_format :: "u8 list option"
  dtrd_arg :: u64

definition rec0 :: recdesc where
  "rec0 = \<lparr>dtrd_action = 0, dtrd_size = 0, dtrd_offset = 0, dtrd_alignment = 0, dtrd_format = None, dtrd_arg = 0\<rparr>"

text \<open>\<open>dtdd_recs\<close> is the array that is allocated, of which \<open>dtdd_nrecs\<close> elements are in use; \<open>None\<close> is NULL.\<close>

record datadesc =
  dtdd_uarg :: u64
  dtdd_nrecs :: nat
  dtdd_recs :: "recdesc list option"
  dtdd_refcnt :: int

record aggdesc =
  dtagd_name :: "u8 list"
  dtagd_varid :: u32
  dtagd_id :: u32
  dtagd_sig :: u64
  dtagd_size :: nat
  dtagd_nrecs :: nat
  dtagd_recs :: "recdesc list"

datatype maperr = MAP_NOMEM | MAP_ASSERT | MAP_BOUNDS

section \<open>Records of a clause\<close>

text \<open>The part of the compiler control block that describes the output of a clause.\<close>

record pcbrecs =
  pr_ddesc :: datadesc
  pr_maxrecs :: nat
  pr_bufoff :: u32

definition rec_grow :: "pcbrecs \<Rightarrow> alloc \<Rightarrow> maperr + pcbrecs \<times> alloc" where
  "rec_grow p al =
     (let ddp = pr_ddesc p; cnt = dtdd_nrecs ddp + 1; mx = pr_maxrecs p in
      if cnt \<ge> mx then
        (let nmax = (if mx \<noteq> 0 then 2 * mx else cnt); (ok, al) = alloc_ok al in
         if \<not> ok then Inl MAP_NOMEM
         else
           (let nrecs = (case dtdd_recs ddp of None \<Rightarrow> replicate nmax rec0 | Some rs \<Rightarrow> take mx rs @ replicate (nmax - mx) rec0)
            in Inr (p\<lparr>pr_ddesc := ddp\<lparr>dtdd_recs := Some nrecs\<rparr>, pr_maxrecs := nmax\<rparr>, al)))
      else Inr (p, al))"

definition align_up :: "u32 \<Rightarrow> u16 \<Rightarrow> u32" where
  "align_up off alignment = (off + (ucast alignment - 1)) AND NOT (ucast alignment - 1)"

definition dt_rec_add ::
  "(u32 \<Rightarrow> u32 \<Rightarrow> 's \<Rightarrow> 's) \<Rightarrow> u16 \<Rightarrow> u32 \<Rightarrow> u16 \<Rightarrow> u8 list option \<Rightarrow> u64 \<Rightarrow> pcbrecs \<Rightarrow> 's \<Rightarrow> alloc \<Rightarrow>
     maperr + u32 \<times> pcbrecs \<times> 's \<times> alloc" where
  "dt_rec_add gapf kind sz alignment pfp arg p s al =
     (if \<not> (alignment > 0 \<and> alignment \<le> 8 \<and> alignment AND (alignment - 1) = 0) then Inl MAP_ASSERT
      else
        (case rec_grow p al of
           Inl e \<Rightarrow> Inl e
         | Inr (p, al) \<Rightarrow>
             (let ddp = pr_ddesc p; n = dtdd_nrecs ddp; off = align_up (pr_bufoff p) alignment in
              case dtdd_recs ddp of
                None \<Rightarrow> Inl MAP_BOUNDS
              | Some rs \<Rightarrow>
                  if \<not> n < length rs then Inl MAP_BOUNDS
                  else
                    (let rec = \<lparr>dtrd_action = kind, dtrd_size = sz, dtrd_offset = off, dtrd_alignment = alignment,
                                dtrd_format = pfp, dtrd_arg = arg\<rparr>;
                         ddp = ddp\<lparr>dtdd_recs := Some (rs[n := rec]), dtdd_nrecs := n + 1\<rparr>;
                         gap = off - pr_bufoff p;
                         s = (if gap > 0 then gapf (pr_bufoff p) gap s else s)
                     in Inr (off, p\<lparr>pr_ddesc := ddp, pr_bufoff := off + sz\<rparr>, s, al)))))"

text \<open>
  The invariant of the description of a clause: the array has the recorded size and room for the records,
  and every record lies in the output buffer behind the one before it, aligned, with a gap of less than
  its alignment.
\<close>

definition recs_of :: "datadesc \<Rightarrow> recdesc list" where
  "recs_of ddp = (case dtdd_recs ddp of None \<Rightarrow> [] | Some rs \<Rightarrow> take (dtdd_nrecs ddp) rs)"

fun layout :: "nat \<Rightarrow> recdesc list \<Rightarrow> nat option" where
  "layout start [] = Some start"
| "layout start (r # rs) =
     (if start \<le> unat (dtrd_offset r) \<and> unat (dtrd_offset r) < start + unat (dtrd_alignment r) \<and>
         unat (dtrd_offset r) mod unat (dtrd_alignment r) = 0
      then layout (unat (dtrd_offset r) + unat (dtrd_size r)) rs else None)"

definition recs_inv :: "nat \<Rightarrow> pcbrecs \<Rightarrow> bool" where
  "recs_inv start p \<longleftrightarrow>
     (case dtdd_recs (pr_ddesc p) of
        None \<Rightarrow> pr_maxrecs p = 0 \<and> dtdd_nrecs (pr_ddesc p) = 0
      | Some rs \<Rightarrow> length rs = pr_maxrecs p \<and> dtdd_nrecs (pr_ddesc p) \<le> pr_maxrecs p) \<and>
     layout start (recs_of (pr_ddesc p)) = Some (unat (pr_bufoff p))"

lemma layout_snoc:
  "layout start rs = Some n \<Longrightarrow> layout start (rs @ [r]) = layout n [r]"
  by (induction start rs rule: layout.induct) (auto split: if_splits)

lemma alignments:
  fixes a :: u16
  assumes "a > 0" "a \<le> 8" "a AND (a - 1) = 0"
  shows "a \<in> {1, 2, 4, 8}"
proof -
  have "unat a \<in> {1..8}" using assms(1,2) by (auto simp: word_less_nat_alt word_le_nat_alt)
  then have "unat a = 1 \<or> unat a = 2 \<or> unat a = 3 \<or> unat a = 4 \<or> unat a = 5 \<or> unat a = 6 \<or> unat a = 7 \<or> unat a = 8" by auto
  moreover have "a = of_nat (unat a)" by simp
  ultimately have "a \<in> {1, 2, 3, 4, 5, 6, 7, 8}" by (elim disjE) simp_all
  then show ?thesis using assms(3) by (elim insertE) (simp_all)
qed

lemma unat_clear_low: "unat (x AND NOT (2 ^ n - 1) :: u32) = unat x div 2 ^ n * 2 ^ n"
proof -
  have "x AND NOT (2 ^ n - 1) = push_bit n (drop_bit n x)"
    by (rule bit_word_eqI) (auto simp: bit_simps mask_eq_exp_minus_1 [symmetric])
  moreover have "unat (push_bit n (drop_bit n x)) = unat x div 2 ^ n * 2 ^ n"
  proof -
    have "unat x div 2 ^ n * 2 ^ n < 2 ^ 32" 
      by (rule order_le_less_trans [OF div_times_less_eq_dividend]) (use unsigned_less [where 'a = nat, of x] in simp)
    moreover have "unat (push_bit n (drop_bit n x)) = take_bit 32 (push_bit n (drop_bit n (unat x)))"
      by (simp only: unsigned_push_bit_eq unsigned_drop_bit_eq) (simp add: take_bit_push_bit drop_bit_take_bit take_bit_nat_eq_self_iff [of 32 "unat x"] unsigned_less [where 'a = nat and 'b = 32, simplified])
    ultimately show ?thesis by (simp add: push_bit_eq_mult drop_bit_eq_div take_bit_nat_eq_self)
  qed
  ultimately show ?thesis by simp
qed

lemma align_up_eq:
  assumes "a \<in> {1, 2, 4, 8}" "unat off + 8 \<le> 2 ^ 32"
  shows "unat (align_up off a) = (unat off + (unat a - 1)) div unat a * unat a"
proof -
  have "unat (off + 0) = unat off" "unat (off + 1) = unat off + 1" "unat (off + 3) = unat off + 3" "unat (off + 7) = unat off + 7"
    using assms(2) by (simp_all add: unat_word_ariths)
  then show ?thesis
    using assms(1) unat_clear_low [of _ 0] unat_clear_low [of _ 1] unat_clear_low [of _ 2] unat_clear_low [of _ 3]
    by (elim insertE) (auto simp: align_up_def)
qed

lemma align_up_layout:
  assumes "a \<in> {1, 2, 4, 8}" "unat off + 8 \<le> 2 ^ 32"
  shows "unat off \<le> unat (align_up off a)" "unat (align_up off a) < unat off + unat a" "unat (align_up off a) mod unat a = 0"
proof -
  have a: "0 < unat a" using assms(1) by auto
  define q m where "q = (unat off + (unat a - 1)) div unat a * unat a" and "m = (unat off + (unat a - 1)) mod unat a"
  have "q + m = unat off + (unat a - 1)" unfolding q_def m_def by (rule div_mult_mod_eq)
  moreover have "m < unat a" using a by (simp add: m_def)
  ultimately have "unat off \<le> q" "q < unat off + unat a" "q mod unat a = 0" using a by (linarith, linarith, simp add: q_def)
  then show "unat off \<le> unat (align_up off a)" "unat (align_up off a) < unat off + unat a" "unat (align_up off a) mod unat a = 0"
    unfolding align_up_eq [OF assms] q_def .
qed

lemma rec_grow_inv:
  assumes "rec_grow p al = Inr (p', al')" "recs_inv start p"
  shows "recs_inv start p'" "dtdd_recs (pr_ddesc p') \<noteq> None" "dtdd_nrecs (pr_ddesc p') < pr_maxrecs p'"
    "recs_of (pr_ddesc p') = recs_of (pr_ddesc p)" "pr_bufoff p' = pr_bufoff p" "dtdd_nrecs (pr_ddesc p') = dtdd_nrecs (pr_ddesc p)"
  using assms by (auto simp: rec_grow_def recs_inv_def recs_of_def Let_def split: if_splits option.splits prod.splits)

text \<open>C9: adding a record to the description of a clause writes inside the array of records (which grows when it is
  full) and keeps the layout: the records follow each other in the output buffer without overlap, each at a multiple of
  its alignment and as early as that allows, the offset that is returned is that of the new record, the new
  end of the output is behind it, and the gap before it is handed to the function that fills gaps.  The only failure is
  that memory for the array runs out.\<close>

theorem dt_rec_add_layout:
  assumes "recs_inv start p" "alignment \<in> {1, 2, 4, 8}" "unat (pr_bufoff p) + 8 + unat sz < 2 ^ 32"
  shows "case dt_rec_add gapf kind sz alignment pfp arg p s al of
      Inl e \<Rightarrow> e = MAP_NOMEM \<and> \<not> fst (alloc_ok al)
    | Inr (off, p', s', al') \<Rightarrow>
        unat off = (unat (pr_bufoff p) + (unat alignment - 1)) div unat alignment * unat alignment \<and>
        recs_inv start p' \<and> unat (pr_bufoff p') = unat off + unat sz \<and>
        recs_of (pr_ddesc p') = recs_of (pr_ddesc p) @
          [\<lparr>dtrd_action = kind, dtrd_size = sz, dtrd_offset = off, dtrd_alignment = alignment, dtrd_format = pfp, dtrd_arg = arg\<rparr>] \<and>
        s' = (if off = pr_bufoff p then s else gapf (pr_bufoff p) (off - pr_bufoff p) s)"
proof -
  have al: "alignment > 0 \<and> alignment \<le> 8 \<and> alignment AND (alignment - 1) = 0" using assms(2) by auto
  let ?off = "align_up (pr_bufoff p) alignment"
  have b8: "unat (pr_bufoff p) + 8 \<le> 2 ^ 32" using assms(3) by simp
  note off = align_up_layout [OF assms(2) b8]
  have a8: "unat alignment \<le> 8" using assms(2) by auto
  have end': "unat (?off + sz) = unat ?off + unat sz"
    using off(2) a8 assms(3) by (intro unat_add_lem [THEN iffD1]) simp
  show ?thesis
  proof (cases "rec_grow p al")
    case (Inl e)
    then have "e = MAP_NOMEM \<and> \<not> fst (alloc_ok al)" by (auto simp: rec_grow_def Let_def split: if_splits prod.splits)
    then show ?thesis using Inl al by (simp add: dt_rec_add_def)
  next
    case (Inr pa)
    obtain p1 al1 where g: "rec_grow p al = Inr (p1, al1)" using Inr by (cases pa) auto
    note i = rec_grow_inv [OF g assms(1)]
    obtain rs where rs: "dtdd_recs (pr_ddesc p1) = Some rs" using i(2) by blast
    let ?n = "dtdd_nrecs (pr_ddesc p1)"
    have n: "?n < length rs" using i(1,3) rs by (simp add: recs_inv_def)
    let ?r = "\<lparr>dtrd_action = kind, dtrd_size = sz, dtrd_offset = ?off, dtrd_alignment = alignment, dtrd_format = pfp, dtrd_arg = arg\<rparr>"
    let ?d = "(pr_ddesc p1)\<lparr>dtdd_recs := Some (rs[?n := ?r]), dtdd_nrecs := ?n + 1\<rparr>"
    let ?p = "p1\<lparr>pr_ddesc := ?d, pr_bufoff := ?off + sz\<rparr>"
    have e: "dt_rec_add gapf kind sz alignment pfp arg p s al =
        Inr (?off, ?p, (if ?off - pr_bufoff p > 0 then gapf (pr_bufoff p) (?off - pr_bufoff p) s else s), al1)"
      using al g rs n i(5) by (simp add: dt_rec_add_def Let_def)
    have rc: "recs_of ?d = recs_of (pr_ddesc p) @ [?r]"
      using rs n i(4) by (simp add: recs_of_def take_Suc_conv_app_nth)
    have "recs_inv start ?p"
      using rs n i(1,3) rc off end' assms(1) by (auto simp: recs_inv_def layout_snoc)
    then show ?thesis
      using e rc end' align_up_eq [OF assms(2) b8] by (auto simp: word_gt_0)
  qed
qed

definition demo_pcb :: pcbrecs where
  "demo_pcb = \<lparr>pr_ddesc = \<lparr>dtdd_uarg = 0, dtdd_nrecs = 0, dtdd_recs = None, dtdd_refcnt = 1\<rparr>, pr_maxrecs = 0, pr_bufoff = 9\<rparr>"

theorem dt_rec_add_layout_witness:
  "case dt_rec_add (\<lambda>off gap s. s @ [(off, gap)]) 1 4 4 None 0 demo_pcb [] [] of
      Inl e \<Rightarrow> False
    | Inr (off, p', s', al') \<Rightarrow> unat off = 12 \<and> unat (pr_bufoff p') = 16 \<and> recs_inv 9 p' \<and> s' = [(9, off - 9)]"
proof -
  have "recs_inv 9 demo_pcb" by (simp add: recs_inv_def demo_pcb_def recs_of_def)
  from dt_rec_add_layout [OF this, where alignment = 4 and sz = 4 and gapf = "\<lambda>off gap s. s @ [(off, gap)]" and kind = 1 and pfp = None and arg = 0 and s = "[]" and al = "[]"]
  show ?thesis by (auto simp: demo_pcb_def split: sum.splits prod.splits if_splits)
qed

section \<open>The tables of the handle\<close>

text \<open>
  Data descriptions are shared, so they are in a store; freed ones are not in it any more.  A probe
  description is a number.  \<open>pf_destroyed\<close> lists the format descriptors given to \<open>dt_printf_destroy\<close>, in order.
\<close>

record mhdl =
  dd_store :: "nat \<Rightarrow> datadesc option"
  dd_next :: nat
  dt_nextepid :: u32
  dt_maxprobe :: u32
  dt_ddesc :: "nat option list option"
  dt_pdesc :: "nat option list option"
  dt_maxagg :: u32
  dt_adesc :: "aggdesc option list option"
  pf_destroyed :: "u8 list list"

definition dt_datadesc_hold :: "mhdl \<Rightarrow> nat \<Rightarrow> mhdl option" where
  "dt_datadesc_hold h a =
     (case dd_store h a of
        None \<Rightarrow> None
      | Some ddp \<Rightarrow> Some (h\<lparr>dd_store := (dd_store h)(a := Some (ddp\<lparr>dtdd_refcnt := dtdd_refcnt ddp + 1\<rparr>))\<rparr>))"

text \<open>
  Freeing a description destroys the format descriptors of the records in use and frees the array; \<open>None\<close> when
  the loop over the records leaves the array.
\<close>

definition recs_fit :: "datadesc \<Rightarrow> bool" where
  "recs_fit ddp \<longleftrightarrow> dtdd_nrecs ddp \<le> (case dtdd_recs ddp of None \<Rightarrow> 0 | Some rs \<Rightarrow> length rs)"

definition formats_of :: "datadesc \<Rightarrow> u8 list list" where
  "formats_of ddp = List.map_filter dtrd_format (recs_of ddp)"

definition dt_datadesc_release :: "mhdl \<Rightarrow> nat \<Rightarrow> mhdl option" where
  "dt_datadesc_release h a =
     (case dd_store h a of
        None \<Rightarrow> None
      | Some ddp \<Rightarrow>
          (let ddp = ddp\<lparr>dtdd_refcnt := dtdd_refcnt ddp - 1\<rparr>
           in if dtdd_refcnt ddp > 0 then Some (h\<lparr>dd_store := (dd_store h)(a := Some ddp)\<rparr>)
              else if \<not> recs_fit ddp then None
              else Some (h\<lparr>dd_store := (dd_store h)(a := None), pf_destroyed := pf_destroyed h @ formats_of ddp\<rparr>)))"

definition dt_datadesc_create :: "mhdl \<Rightarrow> alloc \<Rightarrow> (nat option \<times> mhdl \<times> alloc) option" where
  "dt_datadesc_create h al =
     (let (ok, al) = alloc_ok al in
      if \<not> ok then Some (None, h, al)
      else
        (let a = dd_next h;
             h = h\<lparr>dd_store := (dd_store h)(a := Some \<lparr>dtdd_uarg = 0, dtdd_nrecs = 0, dtdd_recs = None, dtdd_refcnt = 0\<rparr>), dd_next := a + 1\<rparr>
         in map_option (\<lambda>h. (Some a, h, al)) (dt_datadesc_hold h a)))"

text \<open>
  \<open>dt_datadesc_finalize\<close> reads the number of records from the description of the compiler control block, at \<open>oddp\<close>, and
  changes the description \<open>ddp\<close>, which need not be another one; \<open>mx\<close> is \<open>pcb_maxrecs\<close>.
\<close>

definition dt_datadesc_finalize :: "nat \<Rightarrow> nat \<Rightarrow> mhdl \<Rightarrow> nat \<Rightarrow> alloc \<Rightarrow> maperr + nat \<times> mhdl \<times> alloc" where
  "dt_datadesc_finalize oddp mx h ddp al =
     (case (dd_store h oddp, dd_store h ddp) of
        (Some od, Some dd) \<Rightarrow>
          (let n = dtdd_nrecs od in
           if n < mx then
             (let (ok, al) = alloc_ok al in
              if \<not> ok then Inl MAP_NOMEM
              else if (case dtdd_recs dd of None \<Rightarrow> 0 | Some rs \<Rightarrow> length rs) < n then Inl MAP_BOUNDS
              else
                (let nrecs = (case dtdd_recs dd of None \<Rightarrow> [] | Some rs \<Rightarrow> take n rs)
                 in Inr (n, h\<lparr>dd_store := (dd_store h)(ddp := Some (dd\<lparr>dtdd_recs := Some nrecs, dtdd_nrecs := n\<rparr>))\<rparr>, al)))
           else Inr (mx, h\<lparr>dd_store := (dd_store h)(ddp := Some (dd\<lparr>dtdd_nrecs := n\<rparr>))\<rparr>, al))
      | _ \<Rightarrow> Inl MAP_BOUNDS)"

text \<open>A copy of a table into a new one of \<open>nmax\<close> entries: \<open>None\<close> when it does not fit.\<close>

definition copy_table :: "u32 \<Rightarrow> u32 \<Rightarrow> 'a option list option \<Rightarrow> 'a option list option" where
  "copy_table mx nmax tab =
     (case tab of
        None \<Rightarrow> Some (replicate (unat nmax) None)
      | Some xs \<Rightarrow> if mx > nmax then None else Some (xs @ replicate (unat nmax - unat mx) None))"

text \<open>Room for an identifier: both tables are requested before either is tested.\<close>

definition epid_grow :: "mhdl \<Rightarrow> u32 \<Rightarrow> alloc \<Rightarrow> (bool \<times> mhdl \<times> alloc) option" where
  "epid_grow h epid al =
     (let mx = dt_maxprobe h in
      if epid \<ge> mx \<or> dt_ddesc h = None then do {
        let nmax = (if mx \<noteq> 0 then push_bit 1 mx else 2);
        let (a, al) = alloc_ok al;
        let (b, al) = alloc_ok al;
        if \<not> a \<or> \<not> b then Some (False, h, al)
        else do {
          nd \<leftarrow> copy_table mx nmax (dt_ddesc h);
          np \<leftarrow> copy_table mx nmax (dt_pdesc h);
          Some (True, h\<lparr>dt_ddesc := Some nd, dt_pdesc := Some np, dt_maxprobe := nmax\<rparr>, al) } }
      else Some (True, h, al))"

text \<open>\<open>pd\<close> is the description of the probe.  The first component of the result is the identifier, or \<open>None\<close> for \<open>-1\<close>.\<close>

definition dt_epid_add :: "mhdl \<Rightarrow> nat \<Rightarrow> nat \<Rightarrow> alloc \<Rightarrow> (u32 option \<times> mhdl \<times> alloc) option" where
  "dt_epid_add h ddp pd al = do {
     let epid = dt_nextepid h;
     (ok, h, al) \<leftarrow> epid_grow (h\<lparr>dt_nextepid := epid + 1\<rparr>) epid al;
     if \<not> ok then Some (None, h, al)
     else do {
       dd \<leftarrow> dt_ddesc h;
       pp \<leftarrow> dt_pdesc h;
       if \<not> unat epid < length dd \<or> \<not> unat epid < length pp then None
       else if dd ! unat epid \<noteq> None then Some (Some epid, h, al)
       else do {
         h \<leftarrow> dt_datadesc_hold h ddp;
         Some (Some epid, h\<lparr>dt_ddesc := Some (dd[unat epid := Some ddp]), dt_pdesc := Some (pp[unat epid := Some pd])\<rparr>, al) } } }"

definition dt_epid_lookup :: "mhdl \<Rightarrow> u32 \<Rightarrow> (nat \<times> nat) option option" where
  "dt_epid_lookup h epid =
     (if epid \<ge> dt_maxprobe h then Some None
      else do {
        dd \<leftarrow> dt_ddesc h;
        pp \<leftarrow> dt_pdesc h;
        if \<not> unat epid < length dd \<or> \<not> unat epid < length pp then None
        else Some (case (dd ! unat epid, pp ! unat epid) of (Some d, Some p) \<Rightarrow> Some (d, p) | _ \<Rightarrow> None) })"

fun epid_release :: "(nat option \<times> nat option) list \<Rightarrow> mhdl \<Rightarrow> mhdl option" where
  "epid_release [] h = Some h"
| "epid_release ((None, p) # xs) h = (if p \<noteq> None then None else epid_release xs h)"
| "epid_release ((Some d, p) # xs) h = do {
     h \<leftarrow> dt_datadesc_release h d;
     if p = None then None else epid_release xs h }"

definition dt_epid_destroy :: "mhdl \<Rightarrow> mhdl option" where
  "dt_epid_destroy h =
     (if \<not> (dt_pdesc h \<noteq> None \<and> dt_ddesc h \<noteq> None \<and> dt_maxprobe h > 0 \<or> dt_pdesc h = None \<and> dt_ddesc h = None \<and> dt_maxprobe h = 0)
      then None
      else (case (dt_ddesc h, dt_pdesc h) of
              (Some dd, Some pp) \<Rightarrow> do {
                h \<leftarrow> epid_release (zip dd pp) h;
                Some (h\<lparr>dt_pdesc := None, dt_ddesc := None, dt_nextepid := 0, dt_maxprobe := 0\<rparr>) }
            | _ \<Rightarrow> Some h))"

section \<open>Enabled probe identifiers\<close>

text \<open>
  The tables have the recorded length, the same entries are in use in both, and no identifier that has
  not been given out is.  An allocation failure loses an identifier without growing the tables, so
  that is a hypothesis.
\<close>

definition epid_inv :: "mhdl \<Rightarrow> bool" where
  "epid_inv h \<longleftrightarrow>
     (case (dt_ddesc h, dt_pdesc h) of
        (None, None) \<Rightarrow> dt_maxprobe h = 0 \<and> dt_nextepid h \<le> 1
      | (Some dd, Some pp) \<Rightarrow>
          0 < dt_maxprobe h \<and> length dd = unat (dt_maxprobe h) \<and> length pp = unat (dt_maxprobe h) \<and>
          dt_nextepid h \<le> dt_maxprobe h \<and>
          (\<forall>i < length dd. (dd ! i = None) = (pp ! i = None)) \<and> (\<forall>i < length dd. unat (dt_nextepid h) \<le> i \<longrightarrow> dd ! i = None)
      | _ \<Rightarrow> False)"

text \<open>The references to a description: those from the table, and those from elsewhere.\<close>

definition table_refs :: "mhdl \<Rightarrow> nat \<Rightarrow> nat" where
  "table_refs h a = (case dt_ddesc h of None \<Rightarrow> 0 | Some dd \<Rightarrow> count_list dd (Some a))"

definition refs_ok :: "(nat \<Rightarrow> nat) \<Rightarrow> mhdl \<Rightarrow> bool" where
  "refs_ok ext h \<longleftrightarrow>
     (\<forall>a. case dd_store h a of
            None \<Rightarrow> table_refs h a = 0 \<and> ext a = 0
          | Some ddp \<Rightarrow> recs_fit ddp \<and> dtdd_refcnt ddp = int (table_refs h a + ext a) \<and> 0 < table_refs h a + ext a)"

lemma dt_datadesc_finalize_same:
  assumes "dd_store h ddp = Some dd" "recs_fit dd" "dtdd_nrecs dd \<le> mx"
  shows "case dt_datadesc_finalize ddp mx h ddp al of
      Inl e \<Rightarrow> e = MAP_NOMEM \<and> \<not> fst (alloc_ok al)
    | Inr (mx', h', al') \<Rightarrow> mx' = dtdd_nrecs dd \<and>
        (\<exists>dd'. dd_store h' ddp = Some dd' \<and> recs_of dd' = recs_of dd \<and> dtdd_refcnt dd' = dtdd_refcnt dd \<and> recs_fit dd')"
  using assms by (auto simp: dt_datadesc_finalize_def recs_fit_def recs_of_def Let_def split: prod.splits option.splits)

lemma recs_fit_refcnt [simp]: "recs_fit (x\<lparr>dtdd_refcnt := n\<rparr>) = recs_fit x"
  by (simp add: recs_fit_def split: option.splits)

lemma recs_of_refcnt [simp]: "recs_of (x\<lparr>dtdd_refcnt := n\<rparr>) = recs_of x"
  by (simp add: recs_of_def split: option.splits)

lemma formats_of_refcnt [simp]: "formats_of (x\<lparr>dtdd_refcnt := n\<rparr>) = formats_of x"
  by (simp add: formats_of_def)

lemma count_list_update:
  "i < length xs \<Longrightarrow> xs ! i \<noteq> y \<Longrightarrow> count_list (xs[i := x]) y = (if x = y then 1 else 0) + count_list xs y"
  by (induction xs arbitrary: i) (auto split: nat.splits simp: nth_Cons')

lemma count_list_replicate [simp]: "count_list (replicate n x) y = (if x = y then n else 0)"
  by (induction n) auto

text \<open>The tables after the step that makes room: an entry for the identifier that is free in both.\<close>

definition room :: "mhdl \<Rightarrow> mhdl \<Rightarrow> nat option list \<Rightarrow> nat option list \<Rightarrow> bool" where
  "room h h1 dd pp \<longleftrightarrow>
     h1 = h\<lparr>dt_nextepid := dt_nextepid h + 1, dt_ddesc := Some dd, dt_pdesc := Some pp, dt_maxprobe := dt_maxprobe h1\<rparr> \<and>
     length dd = unat (dt_maxprobe h1) \<and> length pp = length dd \<and> unat (dt_nextepid h) < length dd \<and>
     (\<forall>i < length dd. (dd ! i = None) = (pp ! i = None)) \<and> (\<forall>i < length dd. unat (dt_nextepid h) \<le> i \<longrightarrow> dd ! i = None) \<and>
     (\<forall>a. count_list dd (Some a) = table_refs h a) \<and>
     (\<forall>i < length dd. case (dt_ddesc h, dt_pdesc h) of
        (Some d0, Some p0) \<Rightarrow> dd ! i = (if i < length d0 then d0 ! i else None) \<and> pp ! i = (if i < length p0 then p0 ! i else None)
      | _ \<Rightarrow> dd ! i = None \<and> pp ! i = None) \<and>
     dt_maxprobe h \<le> dt_maxprobe h1"

lemma double_unat: "unat (x * 2 :: u32) = 2 * unat x" if "unat x < 2 ^ 31"
  using that by (simp add: unat_word_ariths)

lemma epid_room:
  assumes "epid_inv h" "dt_maxprobe h < 2 ^ 31"
    and r: "r = epid_grow (h\<lparr>dt_nextepid := dt_nextepid h + 1\<rparr>) (dt_nextepid h) al"
  shows "(\<exists>al'. r = Some (False, h\<lparr>dt_nextepid := dt_nextepid h + 1\<rparr>, al')) \<or> (\<exists>h1 dd pp al'. r = Some (True, h1, al') \<and> room h h1 dd pp)"
proof (cases "dt_ddesc h")
  case None
  then have p: "dt_pdesc h = None" "dt_maxprobe h = 0" "dt_nextepid h \<le> 1"
    using assms(1) by (auto simp: epid_inv_def split: option.splits)
  have "unat (dt_nextepid h) \<le> 1" using p(3) by (simp add: word_le_nat_alt)
  then have "room h (h\<lparr>dt_nextepid := dt_nextepid h + 1, dt_ddesc := Some (replicate 2 None), dt_pdesc := Some (replicate 2 None),
      dt_maxprobe := 2\<rparr>) (replicate 2 None) (replicate 2 None)"
    using None p unfolding room_def by (auto simp: table_refs_def)
  then show ?thesis using None p by (auto simp: r epid_grow_def Let_def copy_table_def split: prod.splits)
next
  case (Some dd)
  then obtain pp where p: "dt_pdesc h = Some pp" using assms(1) by (auto simp: epid_inv_def split: option.splits)
  have i: "0 < dt_maxprobe h" "length dd = unat (dt_maxprobe h)" "length pp = unat (dt_maxprobe h)" "dt_nextepid h \<le> dt_maxprobe h"
    "\<forall>i < length dd. (dd ! i = None) = (pp ! i = None)" "\<forall>i < length dd. unat (dt_nextepid h) \<le> i \<longrightarrow> dd ! i = None"
    using assms(1) Some p by (auto simp: epid_inv_def)
  have m: "unat (dt_maxprobe h) < 2 ^ 31" using assms(2) by (simp add: word_less_nat_alt)
  show ?thesis
  proof (cases "dt_nextepid h \<ge> dt_maxprobe h")
    case True
    then have e: "dt_nextepid h = dt_maxprobe h" using i(4) by simp
    have n: "unat (dt_maxprobe h * 2) = 2 * unat (dt_maxprobe h)" using double_unat [OF m] .
    have pos: "0 < unat (dt_maxprobe h)" "dt_maxprobe h \<noteq> 0" using i(1) by (auto simp: word_less_nat_alt)
    have le: "\<not> dt_maxprobe h > dt_maxprobe h * 2" using n by (simp add: word_less_nat_alt)
    let ?k = "unat (dt_maxprobe h)"
    have cd: "copy_table (dt_maxprobe h) (dt_maxprobe h * 2) (Some dd) = Some (dd @ replicate ?k None)"
      "copy_table (dt_maxprobe h) (dt_maxprobe h * 2) (Some pp) = Some (pp @ replicate ?k None)"
      using le n by (simp_all add: copy_table_def)
    have "room h (h\<lparr>dt_nextepid := dt_nextepid h + 1, dt_ddesc := Some (dd @ replicate ?k None), dt_pdesc := Some (pp @ replicate ?k None),
        dt_maxprobe := dt_maxprobe h * 2\<rparr>) (dd @ replicate ?k None) (pp @ replicate ?k None)"
      unfolding room_def using i n e pos Some p le by (auto simp: nth_append table_refs_def)
    then show ?thesis using True Some p pos cd by (auto simp: r epid_grow_def Let_def split: prod.splits)
  next
    case False
    then have "room h (h\<lparr>dt_nextepid := dt_nextepid h + 1\<rparr>) dd pp"
      unfolding room_def using i Some p by (auto simp: table_refs_def word_le_nat_alt)
    then show ?thesis using False Some p by (auto simp: r epid_grow_def Let_def)
  qed
qed

lemma roomD:
  assumes "room h h1 dd pp"
  shows "dt_ddesc h1 = Some dd" "dt_pdesc h1 = Some pp" "dd_store h1 = dd_store h" "dt_nextepid h1 = dt_nextepid h + 1"
proof -
  have e: "h1 = h\<lparr>dt_nextepid := dt_nextepid h + 1, dt_ddesc := Some dd, dt_pdesc := Some pp, dt_maxprobe := dt_maxprobe h1\<rparr>"
    using assms by (simp add: room_def)
  show "dt_ddesc h1 = Some dd" "dt_pdesc h1 = Some pp" "dd_store h1 = dd_store h" "dt_nextepid h1 = dt_nextepid h + 1"
    using arg_cong [OF e, of dt_ddesc] arg_cong [OF e, of dt_pdesc] arg_cong [OF e, of dd_store] arg_cong [OF e, of dt_nextepid] by simp_all
qed

lemma lookup_room:
  assumes "epid_inv h" "room h h1 dd pp"
  shows "dt_epid_lookup h1 e = dt_epid_lookup h e"
proof -
  note d = roomD [OF assms(2)]
  have n: "length dd = unat (dt_maxprobe h1)" "length pp = length dd" "dt_maxprobe h \<le> dt_maxprobe h1"
    "\<forall>i < length dd. case (dt_ddesc h, dt_pdesc h) of
        (Some d0, Some p0) \<Rightarrow> dd ! i = (if i < length d0 then d0 ! i else None) \<and> pp ! i = (if i < length p0 then p0 ! i else None)
      | _ \<Rightarrow> dd ! i = None \<and> pp ! i = None"
    using assms(2) by (auto simp: room_def)
  show ?thesis
  proof (cases "unat e < unat (dt_maxprobe h1)")
    case True
    then have "case (dt_ddesc h, dt_pdesc h) of
        (Some d0, Some p0) \<Rightarrow> dd ! unat e = (if unat e < length d0 then d0 ! unat e else None) \<and>
          pp ! unat e = (if unat e < length p0 then p0 ! unat e else None)
      | _ \<Rightarrow> dd ! unat e = None \<and> pp ! unat e = None" using n(1,4) by simp
    then show ?thesis using assms(1) d n(1-3) True
      by (cases "unat e < unat (dt_maxprobe h)")
        (auto simp: epid_inv_def dt_epid_lookup_def word_le_nat_alt split: option.splits)
  next
    case False
    then show ?thesis using n(3) by (simp add: dt_epid_lookup_def word_le_nat_alt)
  qed
qed

text \<open>C19: as long as no allocation fails, the next identifier of an enabled probe refers to the given data
  description and probe from then on, and every identifier given out before refers to what it referred to; the
  table's accesses are in bounds and the reference count of every description is the number of references to
  it.  A failed allocation is reported with no identifier and leaves the tables as they are.\<close>

theorem dt_epid_add_correct:
  assumes "epid_inv h" "refs_ok ext h" "dd_store h ddp \<noteq> None" "dt_maxprobe h < 2 ^ 31" "dt_nextepid h + 1 \<noteq> 0"
  shows "case dt_epid_add h ddp pd al of
      None \<Rightarrow> False
    | Some (None, h', al') \<Rightarrow> h' = h\<lparr>dt_nextepid := dt_nextepid h + 1\<rparr>
    | Some (Some epid, h', al') \<Rightarrow>
        epid = dt_nextepid h \<and> epid_inv h' \<and> refs_ok ext h' \<and> dt_epid_lookup h' epid = Some (Some (ddp, pd)) \<and>
        (\<forall>e. e \<noteq> epid \<longrightarrow> dt_epid_lookup h' e = dt_epid_lookup h e)"
proof -
  let ?r = "epid_grow (h\<lparr>dt_nextepid := dt_nextepid h + 1\<rparr>) (dt_nextepid h) al" and ?e = "dt_nextepid h"
  from epid_room [OF assms(1,4), of ?r al]
  consider (fail) al' where "?r = Some (False, h\<lparr>dt_nextepid := ?e + 1\<rparr>, al')"
    | (ok) h1 dd pp al' where "?r = Some (True, h1, al')" "room h h1 dd pp" by blast
  then show ?thesis
  proof cases
    case fail
    then show ?thesis by (simp add: dt_epid_add_def Let_def)
  next
    case ok
    note d = roomD [OF ok(2)]
    have n: "length dd = unat (dt_maxprobe h1)" "length pp = length dd" "unat ?e < length dd"
      "\<forall>i < length dd. (dd ! i = None) = (pp ! i = None)" "\<forall>i < length dd. unat ?e \<le> i \<longrightarrow> dd ! i = None"
      "\<forall>a. count_list dd (Some a) = table_refs h a"
      using ok(2) by (auto simp: room_def)
    obtain x where x: "dd_store h ddp = Some x" using assms(3) by blast
    let ?h = "h1\<lparr>dd_store := (dd_store h)(ddp := Some (x\<lparr>dtdd_refcnt := dtdd_refcnt x + 1\<rparr>)),
      dt_ddesc := Some (dd[unat ?e := Some ddp]), dt_pdesc := Some (pp[unat ?e := Some pd])\<rparr>"
    have eq: "dt_epid_add h ddp pd al = Some (Some ?e, ?h, al')"
      using ok(1) d n x by (simp add: dt_epid_add_def Let_def dt_datadesc_hold_def)
    have e1: "unat (?e + 1) = unat ?e + 1" using assms(5) by (metis unatSuc add.commute plus_1_eq_Suc)
    have inv: "epid_inv ?h"
      using n d e1 by (auto simp: epid_inv_def nth_list_update word_le_nat_alt word_less_nat_alt)
    have tr: "table_refs ?h a = (if a = ddp then 1 else 0) + table_refs h a" for a
    proof -
      have "dd ! unat ?e \<noteq> Some a" using n(3,5) by simp
      from count_list_update [OF n(3) this, of "Some ddp"] n(6)
      have "count_list (dd[unat ?e := Some ddp]) (Some a) = (if Some ddp = Some a then 1 else 0) + table_refs h a" by metis
      then show ?thesis by (simp add: table_refs_def [of ?h])
    qed
    have refs: "refs_ok ext ?h" unfolding refs_ok_def
    proof
      fix a
      show "case dd_store ?h a of None \<Rightarrow> table_refs ?h a = 0 \<and> ext a = 0
        | Some ddp \<Rightarrow> recs_fit ddp \<and> dtdd_refcnt ddp = int (table_refs ?h a + ext a) \<and> 0 < table_refs ?h a + ext a"
        using spec [OF assms(2) [unfolded refs_ok_def], of a] x unfolding tr by (cases "a = ddp"; cases "dd_store h a") (simp_all add: d(3))
    qed
    have lk: "dt_epid_lookup ?h e' = (if e' = ?e then Some (Some (ddp, pd)) else dt_epid_lookup h e')" for e'
    proof -
      have "dt_epid_lookup ?h e' = (if e' = ?e then Some (Some (ddp, pd)) else dt_epid_lookup h1 e')"
        using n d by (auto simp: dt_epid_lookup_def word_le_nat_alt nth_list_update split: option.splits dest: unsigned_word_eqI [OF sym])
      then show ?thesis using lookup_room [OF assms(1) ok(2)] by simp
    qed
    show ?thesis using eq inv refs lk by simp
  qed
qed

section \<open>Destroying the tables\<close>

text \<open>
  Between two states the descriptions \<open>fs\<close> have been freed, the formats of each have been destroyed in turn, and the records of
  the others are as they were.
\<close>

definition formats_at :: "mhdl \<Rightarrow> nat \<Rightarrow> u8 list list" where
  "formats_at h a = (case dd_store h a of None \<Rightarrow> [] | Some x \<Rightarrow> formats_of x)"

definition freed :: "mhdl \<Rightarrow> mhdl \<Rightarrow> nat list \<Rightarrow> bool" where
  "freed h h' fs \<longleftrightarrow>
     distinct fs \<and> (\<forall>a. a \<in> set fs \<longleftrightarrow> dd_store h a \<noteq> None \<and> dd_store h' a = None) \<and>
     pf_destroyed h' = pf_destroyed h @ concat (map (formats_at h) fs) \<and>
     (\<forall>a x'. dd_store h' a = Some x' \<longrightarrow> (\<exists>x. dd_store h a = Some x \<and> recs_of x' = recs_of x))"

lemma freed_refl: "freed h h []"
  by (auto simp: freed_def)

lemma freedD:
  assumes "freed h h' fs"
  shows "distinct fs" "a \<in> set fs \<longleftrightarrow> dd_store h a \<noteq> None \<and> dd_store h' a = None"
    "pf_destroyed h' = pf_destroyed h @ concat (map (formats_at h) fs)"
    "dd_store h' a = Some x' \<Longrightarrow> \<exists>x. dd_store h a = Some x \<and> recs_of x' = recs_of x"
  using assms unfolding freed_def by blast+

lemma freed_trans:
  assumes "freed h h1 fs" "freed h1 h2 gs"
  shows "freed h h2 (fs @ gs)"
proof -
  note f = freedD [OF assms(1)] and g = freedD [OF assms(2)]
  have eq: "formats_at h1 a = formats_at h a" if a: "a \<in> set gs" for a
  proof -
    obtain x1 where x1: "dd_store h1 a = Some x1" using g(2) a by blast
    obtain x where "dd_store h a = Some x" "recs_of x1 = recs_of x" using f(4) [OF x1] by blast
    then show ?thesis using x1 by (simp add: formats_at_def formats_of_def)
  qed
  have m: "map (formats_at h1) gs = map (formats_at h) gs" using eq by simp
  have dj: "set fs \<inter> set gs = {}" using f(2) g(2) by blast
  have mem: "a \<in> set (fs @ gs) \<longleftrightarrow> dd_store h a \<noteq> None \<and> dd_store h2 a = None" for a
    using f(2) [of a] f(4) [of a] g(2) [of a] g(4) [of a] by (cases "dd_store h1 a"; cases "dd_store h2 a") auto
  have st: "\<exists>x. dd_store h a = Some x \<and> recs_of x' = recs_of x" if x': "dd_store h2 a = Some x'" for a x'
  proof -
    obtain x1 where x1: "dd_store h1 a = Some x1" "recs_of x' = recs_of x1" using g(4) [OF x'] by blast
    then show ?thesis using f(4) [OF x1(1)] by simp
  qed
  have "distinct (fs @ gs)" using f(1) g(1) dj by simp
  moreover have "pf_destroyed h2 = pf_destroyed h @ concat (map (formats_at h) (fs @ gs))" unfolding g(3) f(3) m by simp
  ultimately show ?thesis unfolding freed_def using mem st by blast
qed

definition held :: "(nat \<Rightarrow> nat) \<Rightarrow> (nat \<Rightarrow> nat) \<Rightarrow> mhdl \<Rightarrow> bool" where
  "held R ext h \<longleftrightarrow>
     (\<forall>a. case dd_store h a of
            None \<Rightarrow> R a = 0 \<and> ext a = 0
          | Some x \<Rightarrow> recs_fit x \<and> dtdd_refcnt x = int (R a + ext a) \<and> 0 < R a + ext a)"

lemma release_refs:
  assumes "held R ext h" "0 < R d"
  obtains h' fs where "dt_datadesc_release h d = Some h'" "h' = h\<lparr>dd_store := dd_store h', pf_destroyed := pf_destroyed h'\<rparr>"
    "held (R(d := R d - 1)) ext h'" "freed h h' fs"
proof -
  from assms obtain x where x: "dd_store h d = Some x" unfolding held_def
    by (metis (mono_tags, lifting) less_numeral_extra(3) option.case(1) option.exhaust)
  have c: "dtdd_refcnt x = int (R d + ext d)" "recs_fit x" using assms(1) x unfolding held_def by (metis (mono_tags, lifting) option.case(2))+
  let ?x = "x\<lparr>dtdd_refcnt := dtdd_refcnt x - 1\<rparr>"
  show thesis
  proof (cases "dtdd_refcnt x > 1")
    case True
    let ?h = "h\<lparr>dd_store := (dd_store h)(d := Some ?x)\<rparr>"
    have "held (R(d := R d - 1)) ext ?h" unfolding held_def
    proof
      fix a
      show "case dd_store ?h a of None \<Rightarrow> (R(d := R d - 1)) a = 0 \<and> ext a = 0
         | Some x \<Rightarrow> recs_fit x \<and> dtdd_refcnt x = int ((R(d := R d - 1)) a + ext a) \<and> 0 < (R(d := R d - 1)) a + ext a"
        using True assms(2) c spec [OF assms(1) [unfolded held_def], of a] by (cases "a = d"; cases "dd_store h a") auto
    qed
    moreover have "freed h ?h []" using x by (auto simp: freed_def)
    ultimately show thesis using that [of ?h "[]"] x True by (simp add: dt_datadesc_release_def)
  next
    case False
    let ?h = "h\<lparr>dd_store := (dd_store h)(d := None), pf_destroyed := pf_destroyed h @ formats_of x\<rparr>"
    have "held (R(d := R d - 1)) ext ?h" unfolding held_def
    proof
      fix a
      show "case dd_store ?h a of None \<Rightarrow> (R(d := R d - 1)) a = 0 \<and> ext a = 0
         | Some x \<Rightarrow> recs_fit x \<and> dtdd_refcnt x = int ((R(d := R d - 1)) a + ext a) \<and> 0 < (R(d := R d - 1)) a + ext a"
        using False assms(2) c spec [OF assms(1) [unfolded held_def], of a] by (cases "a = d"; cases "dd_store h a") auto
    qed
    moreover have "freed h ?h [d]" using x by (auto simp: freed_def formats_at_def)
    ultimately show thesis using that [of ?h "[d]"] x False c(2) by (simp add: dt_datadesc_release_def)
  qed
qed

lemma epid_release_ok:
  assumes "\<forall>(d, p) \<in> set xs. (d = None) = (p = None)" "held (\<lambda>a. count_list (map fst xs) (Some a)) ext h"
  shows "\<exists>h' fs. epid_release xs h = Some h' \<and> h' = h\<lparr>dd_store := dd_store h', pf_destroyed := pf_destroyed h'\<rparr> \<and>
     held (\<lambda>a. 0) ext h' \<and> freed h h' fs"
  using assms
proof (induction xs arbitrary: h)
  case Nil
  then show ?case using freed_refl by (intro exI [of _ h] exI [of _ "[]"]) simp
next
  case (Cons y xs)
  obtain d p where y: "y = (d, p)" by force
  show ?case
  proof (cases d)
    case None
    then have "count_list (map fst (y # xs)) (Some a) = count_list (map fst xs) (Some a)" for a using y by simp
    note P = Cons.prems(2) [unfolded this]
    have "p = None" using Cons.prems(1) y None by auto
    then show ?thesis using Cons.IH [OF _ P] Cons.prems(1) y None by simp
  next
    case (Some a)
    let ?R = "\<lambda>a. count_list (map fst (y # xs)) (Some a)"
    have R: "?R(a := ?R a - 1) = (\<lambda>a. count_list (map fst xs) (Some a))" using y Some by auto
    have pos: "0 < ?R a" using y Some by simp
    obtain h1 fs where h1: "dt_datadesc_release h a = Some h1" "h1 = h\<lparr>dd_store := dd_store h1, pf_destroyed := pf_destroyed h1\<rparr>"
      "held (?R(a := ?R a - 1)) ext h1" "freed h h1 fs"
      by (rule release_refs [where R = ?R and ext = ext, OF Cons.prems(2) pos])
    obtain h2 gs where h2: "epid_release xs h1 = Some h2" "h2 = h1\<lparr>dd_store := dd_store h2, pf_destroyed := pf_destroyed h2\<rparr>"
      "held (\<lambda>a. 0) ext h2" "freed h1 h2 gs"
      using Cons.IH [of h1] Cons.prems(1) h1(3) unfolding R by auto
    have "h2 = h\<lparr>dd_store := dd_store h2, pf_destroyed := pf_destroyed h2\<rparr>" by (subst h2(2), subst h1(2)) simp
    moreover have "p \<noteq> None" using Cons.prems(1) y Some by auto
    ultimately show ?thesis using h1(1) h2 y Some freed_trans [OF h1(4) h2(4)] by auto
  qed
qed

lemma held_none: "held (\<lambda>a. 0) ext h \<longleftrightarrow>
    (\<forall>a. case dd_store h a of None \<Rightarrow> ext a = 0 | Some x \<Rightarrow> recs_fit x \<and> dtdd_refcnt x = int (ext a) \<and> 0 < ext a)"
  by (simp add: held_def cong: option.case_cong)

text \<open>C21: destroying the tables releases exactly the references that they hold: no description is used after it
  is freed, no assertion fails, every description that is referred to elsewhere stays with its count and its records, all others are
  freed, and the format descriptors of the records of every freed description are destroyed, once each.\<close>

theorem dt_epid_destroy_releases:
  assumes "epid_inv h" "refs_ok ext h"
  shows "\<exists>h' fs. dt_epid_destroy h = Some h' \<and> dt_ddesc h' = None \<and> dt_pdesc h' = None \<and> epid_inv h' \<and>
     (\<forall>a. case dd_store h' a of None \<Rightarrow> ext a = 0 | Some x \<Rightarrow> recs_fit x \<and> dtdd_refcnt x = int (ext a) \<and> 0 < ext a) \<and>
     freed h h' fs"
proof (cases "dt_ddesc h")
  case None
  then have p: "dt_pdesc h = None" "dt_maxprobe h = 0" using assms(1) by (auto simp: epid_inv_def split: option.splits)
  then have "dt_epid_destroy h = Some h" using None by (simp add: dt_epid_destroy_def)
  moreover have "held (\<lambda>a. 0) ext h" using assms(2) None by (simp add: held_def refs_ok_def table_refs_def cong: option.case_cong)
  ultimately show ?thesis using assms(1) None p(1) freed_refl [of h] unfolding held_none by blast
next
  case (Some dd)
  then obtain pp where p: "dt_pdesc h = Some pp" using assms(1) by (auto simp: epid_inv_def split: option.splits)
  have i: "0 < dt_maxprobe h" "length dd = length pp" "\<forall>i < length dd. (dd ! i = None) = (pp ! i = None)"
    using assms(1) Some p by (auto simp: epid_inv_def)
  have "\<forall>(d, p) \<in> set (zip dd pp). (d = None) = (p = None)" using i(2,3) by (auto simp: set_zip)
  moreover have "held (\<lambda>a. count_list (map fst (zip dd pp)) (Some a)) ext h"
    using assms(2) Some i(2) by (simp add: held_def refs_ok_def table_refs_def cong: option.case_cong)
  ultimately obtain h1 fs where h1: "epid_release (zip dd pp) h = Some h1" "held (\<lambda>a. 0) ext h1" "freed h h1 fs"
    using epid_release_ok by blast
  let ?h = "h1\<lparr>dt_pdesc := None, dt_ddesc := None, dt_nextepid := 0, dt_maxprobe := 0\<rparr>"
  have "dt_epid_destroy h = Some ?h" using Some p i(1) h1(1) by (simp add: dt_epid_destroy_def)
  moreover have "epid_inv ?h" by (simp add: epid_inv_def)
  moreover have "held (\<lambda>a. 0) ext ?h" using h1(2) by (simp add: held_def)
  moreover have "freed h ?h fs" using h1(3) by (simp add: freed_def)
  ultimately show ?thesis unfolding held_none by (intro exI [of _ ?h] exI [of _ fs]) simp
qed

definition demo_mhdl :: mhdl where
  "demo_mhdl = \<lparr>dd_store = (\<lambda>a. if a = 0 then Some \<lparr>dtdd_uarg = 0, dtdd_nrecs = 0, dtdd_recs = None, dtdd_refcnt = 1\<rparr> else None), dd_next = 1,
     dt_nextepid = 1, dt_maxprobe = 0, dt_ddesc = None, dt_pdesc = None, dt_maxagg = 0, dt_adesc = None, pf_destroyed = []\<rparr>"

lemma demo_mhdl_ok: "epid_inv demo_mhdl" "refs_ok (\<lambda>a. if a = 0 then 1 else 0) demo_mhdl"
  by (auto simp: epid_inv_def refs_ok_def table_refs_def demo_mhdl_def recs_fit_def)

definition demo_mhdl1 :: mhdl where
  "demo_mhdl1 = demo_mhdl\<lparr>dd_store := (dd_store demo_mhdl)(0 := Some \<lparr>dtdd_uarg = 0, dtdd_nrecs = 0, dtdd_recs = None, dtdd_refcnt = 2\<rparr>),
     dt_nextepid := 2, dt_maxprobe := 2, dt_ddesc := Some [None, Some 0], dt_pdesc := Some [None, Some 7]\<rparr>"

lemma replicate_two: "replicate 2 x = [x, x]"
  by (simp add: numeral_2_eq_2)

lemma demo_epid_add: "dt_epid_add demo_mhdl 0 7 [] = Some (Some 1, demo_mhdl1, [])"
  by (simp add: dt_epid_add_def epid_grow_def copy_table_def dt_datadesc_hold_def demo_mhdl_def demo_mhdl1_def Let_def replicate_two)

theorem dt_epid_add_correct_witness:
  "epid_inv demo_mhdl1 \<and> refs_ok (\<lambda>a. if a = 0 then 1 else 0) demo_mhdl1 \<and> dt_epid_lookup demo_mhdl1 1 = Some (Some (0, 7))"
proof -
  have "dd_store demo_mhdl 0 \<noteq> None" "dt_maxprobe demo_mhdl < 2 ^ 31" "dt_nextepid demo_mhdl + 1 \<noteq> 0" by (simp_all add: demo_mhdl_def)
  from dt_epid_add_correct [OF demo_mhdl_ok this, of 7 "[]"] show ?thesis by (simp add: demo_epid_add)
qed

text \<open>Description 0 is referred to once from the table and once from elsewhere, description 1, with a format, only from the table.\<close>

definition demo_mhdl2 :: mhdl where
  "demo_mhdl2 = demo_mhdl\<lparr>dd_store := (\<lambda>_. None)
       (0 := Some \<lparr>dtdd_uarg = 0, dtdd_nrecs = 0, dtdd_recs = None, dtdd_refcnt = 2\<rparr>,
        1 := Some \<lparr>dtdd_uarg = 0, dtdd_nrecs = 1, dtdd_recs = Some [rec0\<lparr>dtrd_format := Some [37, 100]\<rparr>], dtdd_refcnt = 1\<rparr>),
     dt_nextepid := 3, dt_maxprobe := 4, dt_ddesc := Some [None, Some 0, Some 1, None], dt_pdesc := Some [None, Some 7, Some 8, None]\<rparr>"

lemma demo_mhdl2_ok: "epid_inv demo_mhdl2" "refs_ok (\<lambda>a. if a = 0 then 1 else 0) demo_mhdl2"
proof -
  have n: "(\<forall>i < Suc (Suc (Suc (Suc 0))). P i) = (P 0 \<and> P (Suc 0) \<and> P (Suc (Suc 0)) \<and> P (Suc (Suc (Suc 0))))" for P
    by (auto simp: less_Suc_eq)
  show "epid_inv demo_mhdl2" by (simp add: epid_inv_def demo_mhdl2_def n)
  show "refs_ok (\<lambda>a. if a = 0 then 1 else 0) demo_mhdl2"
    by (auto simp: refs_ok_def table_refs_def demo_mhdl2_def recs_fit_def)
qed

theorem dt_epid_destroy_releases_witness:
  "\<exists>h'. dt_epid_destroy demo_mhdl2 = Some h' \<and> map_option dtdd_refcnt (dd_store h' 0) = Some 1 \<and> dd_store h' 1 = None \<and>
     [37, 100] \<in> set (pf_destroyed h')"
proof -
  obtain h' fs where h: "dt_epid_destroy demo_mhdl2 = Some h'"
    "\<forall>a. case dd_store h' a of None \<Rightarrow> (if a = 0 then 1 else 0) = (0 :: nat)
       | Some x \<Rightarrow> recs_fit x \<and> dtdd_refcnt x = int (if a = 0 then 1 else 0) \<and> 0 < (if a = 0 then 1 else 0 :: nat)"
    "freed demo_mhdl2 h' fs"
    using dt_epid_destroy_releases [OF demo_mhdl2_ok] by blast
  have d: "map_option dtdd_refcnt (dd_store h' 0) = Some 1" "dd_store h' 1 = None"
    using spec [OF h(2), of 0] spec [OF h(2), of 1] by (auto split: option.splits)
  then have "1 \<in> set fs" "pf_destroyed h' = concat (map (formats_at demo_mhdl2) fs)" using h(3) by (auto simp: freed_def demo_mhdl2_def demo_mhdl_def)
  moreover have "formats_at demo_mhdl2 1 = [[37, 100]]"
    by (simp add: formats_at_def formats_of_def recs_of_def demo_mhdl2_def List.map_filter_def)
  ultimately show ?thesis using h(1) d by force
qed

text \<open>
  An allocation failure uses up an identifier but leaves the tables at their size, so that the next
  call, for an identifier beyond twice that size, writes behind the end of the new tables.
\<close>

lemma dt_epid_add_overrun:
  "\<exists>h al. dt_epid_add demo_mhdl 0 7 [False, True] = Some (None, h, al) \<and> dt_epid_add h 0 7 al = None"
  by (simp add: dt_epid_add_def epid_grow_def copy_table_def demo_mhdl_def Let_def)

section \<open>Aggregations\<close>


partial_function (option) aggid_grow :: "mhdl \<Rightarrow> u32 \<Rightarrow> alloc \<Rightarrow> (bool \<times> mhdl \<times> alloc) option" where
  "aggid_grow h ai al =
     (let mx = dt_maxagg h in
      if ai \<ge> mx \<or> dt_adesc h = None then
        (let nmax = (if mx \<noteq> 0 then push_bit 1 mx else 1); (ok, al) = alloc_ok al in
         if \<not> ok then Some (False, h, al)
         else
           (case copy_table mx nmax (dt_adesc h) of
              None \<Rightarrow> None
            | Some na \<Rightarrow> aggid_grow (h\<lparr>dt_adesc := Some na, dt_maxagg := nmax\<rparr>) ai al))
      else Some (True, h, al))"





definition dt_aggid_destroy :: "mhdl \<Rightarrow> mhdl option" where
  "dt_aggid_destroy h =
     (if \<not> (dt_adesc h \<noteq> None \<and> dt_maxagg h \<noteq> 0 \<or> dt_adesc h = None \<and> dt_maxagg h = 0) then None
      else Some (if dt_adesc h = None then h else h\<lparr>dt_adesc := None, dt_maxagg := 0\<rparr>))"





text \<open>A table of \<open>2 ^ 31\<close> entries cannot be doubled: the new size is 0, and the old table is copied behind the end of the new one.\<close>

lemma aggid_grow_wraps:
  assumes "dt_maxagg h = 2 ^ 31" "ai \<ge> 2 ^ 31" "dt_adesc h \<noteq> None" "fst (alloc_ok al)"
  shows "aggid_grow h ai al = None"
  using assms by (subst aggid_grow.simps) (auto simp: copy_table_def Let_def split: prod.splits)






end
