(* ===== verification/DTCgSem.thy ===== *)
theory DTCgSem
  imports DTCgExpr
begin

unbundle bit_operations_syntax

text \<open>
  What it means that generated code is right.  Code is a piece of an instruction list that works wherever
  the list has it (\<open>at_code\<close>): it computes a value into a register and changes memory, or it reports a
  fault (\<open>seg_runs\<close>).  A generator is right for a meaning (\<open>gen\<close>) when, with enough free registers, it
  succeeds, appends well-formed code for that meaning and takes the highest free register.  The rest of the
  theory puts such code and generators together: code that goes on with a register (\<open>blk1\<close>, \<open>post\<close>) or
  with two (\<open>blk2\<close>).
\<close>

section \<open>Code in its place\<close>

definition at_code :: "irnode list \<Rightarrow> nat \<Rightarrow> irnode list \<Rightarrow> bool" where
  "at_code P i ns \<longleftrightarrow> (\<exists>pre post. P = pre @ ns @ post \<and> length pre = i)"

lemma at_code_take: "at_code P i ns \<longleftrightarrow> i + length ns \<le> length P \<and> take (length ns) (drop i P) = ns"
proof
  assume t: "i + length ns \<le> length P \<and> take (length ns) (drop i P) = ns"
  then have "P = take i P @ ns @ drop (length ns) (drop i P)" by (metis append_take_drop_id)
  moreover have "length (take i P) = i" using t by simp
  ultimately show "at_code P i ns" unfolding at_code_def by blast
qed (auto simp: at_code_def)

lemma at_code_Nil: "at_code P i [] \<longleftrightarrow> i \<le> length P"
  by (simp add: at_code_take)

lemma at_code_append: "at_code P i (ns @ ms) \<longleftrightarrow> at_code P i ns \<and> at_code P (i + length ns) ms"
proof (cases "i + length ns + length ms \<le> length P")
  case True
  then have "length (take (length ns) (drop i P)) = length ns" by simp
  then show ?thesis using True by (simp add: at_code_take take_add append_eq_append_conv add.commute [of i "length ns"] add.assoc)
qed (simp add: at_code_take)

lemma at_code_one: "at_code P i [n] \<longleftrightarrow> i < length P \<and> P ! i = n"
proof
  assume "i < length P \<and> P ! i = n"
  then have "P = take i P @ [n] @ drop (Suc i) P" "length (take i P) = i" by (auto simp: id_take_nth_drop)
  then show "at_code P i [n]" unfolding at_code_def by blast
qed (auto simp: at_code_def)

lemma at_code_Cons: "at_code P i (n # ns) \<longleftrightarrow> i < length P \<and> P ! i = n \<and> at_code P (Suc i) ns"
  using at_code_append [of P i "[n]" ns] by (simp add: at_code_one)

lemmas at_code_simps = at_code_Nil at_code_Cons at_code_append

definition prog_ok :: "irnode list \<Rightarrow> bool" where
  "prog_ok P \<longleftrightarrow> distinct (labels_of P) \<and> (\<forall>n \<in> set P. di_label n < 2 ^ 15)"

lemma label_pos_append: "label_pos (P @ Q) l = (case label_pos P l of Some k \<Rightarrow> Some k | None \<Rightarrow> map_option (\<lambda>k. length P + k) (label_pos Q l))"
  by (induction P) (auto simp: option.map_comp comp_def option.map_ident split: option.splits cong: option.map_cong)

lemma at_code_label:
  assumes "prog_ok P" "at_code P i ns" "label_pos ns l \<noteq> None" "l \<noteq> 0"
  shows "label_pos P l = Some (i + the (label_pos ns l))"
proof -
  obtain pre post where P: "P = pre @ ns @ post" "length pre = i" using assms(2) by (auto simp: at_code_def)
  have "l \<in> set (labels_of ns)" using assms(3,4) by (auto simp: label_pos_None labels_of_def)
  then have "l \<notin> set (labels_of pre)" using assms(1) P by (auto simp: prog_ok_def labels_of_def)
  then have "label_pos pre l = None" using assms(4) by (auto simp: label_pos_None labels_of_def)
  then show ?thesis using assms(3) P by (auto simp: label_pos_append split: option.splits)
qed

text \<open>A number of steps, computed.\<close>

fun ir_run :: "calls \<Rightarrow> irnode list \<Rightarrow> nat \<Rightarrow> cfg \<Rightarrow> cfg option" where
  "ir_run ext P 0 c = Some c"
| "ir_run ext P (Suc k) c = (case ir_step ext P c of None \<Rightarrow> None | Some c' \<Rightarrow> ir_run ext P k c')"

lemma ir_run_steps: "ir_run ext P k c = Some c' \<Longrightarrow> ir_steps ext P c c'"
proof (induction k arbitrary: c)
  case (Suc k)
  then obtain d where "ir_step ext P c = Some d" "ir_run ext P k d = Some c'" by (auto split: option.splits)
  then show ?case using Suc.IH [of d] by (simp add: converse_rtranclp_into_rtranclp)
qed simp

lemma ir_step_at:
  assumes "pc < length P"
  shows "ir_step ext P (At pc m) =
     (case exec_insn ext (di_instr (P ! pc)) (nth_instr P (Suc pc)) m of
        Next m' \<Rightarrow> Some (At (Suc pc) m')
      | Next2 m' \<Rightarrow> Some (At (Suc (Suc pc)) m')
      | Taken m' \<Rightarrow> if BPF_IS_NOP (di_instr (P ! pc)) then Some (At (Suc pc) m')
                   else map_option (\<lambda>t. At t m') (label_pos P (br_label (di_instr (P ! pc))))
      | Exit m' \<Rightarrow> Some (Done m')
      | Stuck \<Rightarrow> None)"
  using assms by (cases "exec_insn ext (di_instr (P ! pc)) (nth_instr P (Suc pc)) m") (simp_all add: nth_instr_def)

lemma irnode_simps [simp]:
  "di_instr (I i) = i" "di_instr (L l i) = i" "di_instr (X i idp) = i"
  "di_label (I i) = 0" "di_label (L l i) = l" "di_label (X i idp) = 0"
  "di_extern (I i) = None" "di_extern (L l i) = None" "di_extern (X i idp) = Some idp"
  by (simp_all add: I_def L_def X_def dt_cg_node_alloc_def)

lemma set_reg_simps [simp]:
  "m_regs (set_reg r v m) = (m_regs m)(r := v)" "m_mem (set_reg r v m) = m_mem m"
  "m_regs (set_mem mm m) = m_regs m" "m_mem (set_mem mm m) = mm"
  by (simp_all add: set_reg_def set_mem_def)

lemma label_bound: "prog_ok P \<Longrightarrow> pc < length P \<Longrightarrow> di_label (P ! pc) < 2 ^ 15"
  by (simp add: prog_ok_def)

section \<open>What generated code does\<close>

text \<open>
  The surroundings of a clause at run time: the functions it can call, the frame pointer, the DTrace context
  and the storage of the global and local variables, with their sizes; and the identifiers.
\<close>

record ctx =
  c_ext :: calls
  c_perr :: int
  c_ids :: "nat \<Rightarrow> ident"
  c_fp :: u64
  c_dctx :: u64
  c_gvars :: u64
  c_lvars :: u64
  c_gsize :: nat
  c_lsize :: nat

definition ctx_ok :: "ctx \<Rightarrow> bool" where
  "ctx_ok c \<longleftrightarrow>
     apart (c_gvars c) (c_gsize c) (c_fp c - 72) 8 \<and> apart (c_gvars c) (c_gsize c) (c_dctx c) 72 \<and>
     apart (c_lvars c) (c_lsize c) (c_fp c - 72) 8 \<and> apart (c_lvars c) (c_lsize c) (c_dctx c) 72 \<and>
     (\<forall>m. \<exists>m'. c_ext c (BPF_CALL_FUNC (c_perr c)) m = Some m')"

definition lay_mem :: "ctx \<Rightarrow> memory \<Rightarrow> bool" where
  "lay_mem c mm \<longleftrightarrow>
     mem_load 8 mm (c_fp c - 72) = c_dctx c \<and>
     mem_load 8 mm (c_dctx c + 56) = c_gvars c \<and> mem_load 8 mm (c_dctx c + 64) = c_lvars c"

text \<open>
  The meaning of an expression: a fault that the clause reports, or a value and the memory it leaves.
  \<open>Unchecked\<close> is the result where the code does not compute what the language says (the four cases are named where they
  arise, in \<open>unscale\<close>, \<open>load_val\<close>, \<open>cast_val\<close> and \<open>arith_val\<close>); nothing is claimed of the code then.
\<close>

datatype fault = Fault u64 | Unchecked

type_synonym sem = "memory \<Rightarrow> fault + u64 \<times> memory"

definition sem_bind :: "fault + u64 \<times> memory \<Rightarrow> (u64 \<Rightarrow> memory \<Rightarrow> fault + u64 \<times> memory) \<Rightarrow> fault + u64 \<times> memory" where
  "sem_bind x f = (case x of Inl flt \<Rightarrow> Inl flt | Inr (v, mm) \<Rightarrow> f v mm)"

lemma sem_bind_simps [simp]: "sem_bind (Inl flt) f = Inl flt" "sem_bind (Inr (v, mm)) f = f v mm"
  by (simp_all add: sem_bind_def)

text \<open>A fault is reported with a call of \<open>dt_probe_error\<close>, after which the clause ends.\<close>

definition reports :: "ctx \<Rightarrow> irnode list \<Rightarrow> cfg \<Rightarrow> u64 \<Rightarrow> bool" where
  "reports c P cf flt \<longleftrightarrow>
     (\<exists>pc m m'. ir_steps (c_ext c) P cf (At pc m) \<and> nth_instr P pc = Some (BPF_CALL_FUNC (c_perr c)) \<and>
        m_regs m 1 = c_dctx c \<and> m_regs m 2 = - 1 \<and> m_regs m 3 = flt \<and> m_regs m 4 = 0 \<and>
        ir_steps (c_ext c) P (At pc m) (Done m'))"

fun fails :: "ctx \<Rightarrow> irnode list \<Rightarrow> cfg \<Rightarrow> fault \<Rightarrow> bool" where
  "fails c P cf (Fault flt) = reports c P cf flt"
| "fails c P cf Unchecked = True"

lemma reports_steps: "ir_steps (c_ext c) P cf cf' \<Longrightarrow> reports c P cf' flt \<Longrightarrow> reports c P cf flt"
  unfolding reports_def by (elim exE conjE, intro exI conjI) (erule (1) rtranclp_trans, assumption+)

lemma fails_steps: "ir_steps (c_ext c) P cf cf' \<Longrightarrow> fails c P cf' flt \<Longrightarrow> fails c P cf flt"
  using reports_steps by (cases flt) auto

text \<open>
  Code \<open>seg\<close>, wherever it is in a program, leaves the value in register \<open>r\<close> and the registers in \<open>K\<close> alone.
\<close>

definition seg_runs :: "ctx \<Rightarrow> nat set \<Rightarrow> irnode list \<Rightarrow> nat \<Rightarrow> sem \<Rightarrow> bool" where
  "seg_runs c K seg r ev \<longleftrightarrow>
     (\<forall>P i m. prog_ok P \<and> at_code P i seg \<and> m_regs m 10 = c_fp c \<and> lay_mem c (m_mem m) \<longrightarrow>
        (case ev (m_mem m) of
           Inl flt \<Rightarrow> fails c P (At i m) flt
         | Inr (v, mm) \<Rightarrow> lay_mem c mm \<and>
             (\<exists>m'. ir_steps (c_ext c) P (At i m) (At (i + length seg) m') \<and> m_regs m' r = v \<and> m_mem m' = mm \<and>
                (\<forall>q \<in> K. m_regs m' q = m_regs m q))))"

text \<open>
  Well-formed code: labels between \<open>lo\<close> and \<open>hi\<close>, each defined once, branches to labels of the code
  itself, 64-bit constants complete.
\<close>

fun lddw_ok :: "irnode list \<Rightarrow> bool" where
  "lddw_ok [] = True"
| "lddw_ok [n] = (\<not> is_lddw (di_instr n))"
| "lddw_ok (n # n' # ns) = ((is_lddw (di_instr n) \<longrightarrow> ir_counts n') \<and> lddw_ok (n' # ns))"

definition seg_ok :: "nat \<Rightarrow> nat \<Rightarrow> irnode list \<Rightarrow> bool" where
  "seg_ok lo hi seg \<longleftrightarrow>
     distinct (labels_of seg) \<and> set (labels_of seg) \<subseteq> {lo..<hi} \<and>
     (hi \<le> 2 ^ 15 \<longrightarrow> (\<forall>n \<in> set seg. is_branch (di_instr n) \<longrightarrow> br_label (di_instr n) \<in> set (labels_of seg))) \<and>
     lddw_ok seg"

section \<open>Registers without spilling\<close>

definition take_reg :: "nat \<Rightarrow> irlist regset \<Rightarrow> irlist regset" where
  "take_reg r drp = drp\<lparr>dr_active := BT_SET (dr_active drp) r\<rparr>"

definition regs_ok :: "irlist regset \<Rightarrow> bool" where
  "regs_ok drp \<longleftrightarrow>
     regset_ok drp \<and> dr_size drp = 9 \<and> (\<forall>r < 9. \<not> spilled drp r) \<and>
     dr_spill_store drp = dt_cg_spill_store \<and> dr_spill_load drp = dt_cg_spill_load"

definition nfree :: "irlist regset \<Rightarrow> nat" where
  "nfree drp = card {r. r < 9 \<and> \<not> active drp r}"

definition keep :: "irlist regset \<Rightarrow> nat set" where
  "keep drp = {r. r < 9 \<and> active drp r} \<union> {9, 10}"

definition top_free :: "irlist regset \<Rightarrow> nat \<Rightarrow> bool" where
  "top_free drp r \<longleftrightarrow> find_clear (dr_active drp) 9 = Some r"

lemma top_free_less: "top_free drp r \<Longrightarrow> r < 9 \<and> \<not> active drp r"
  using find_clear_Some by (simp add: top_free_def)

lemma top_free_unique: "top_free drp r \<Longrightarrow> top_free drp q \<Longrightarrow> q = r"
  by (simp add: top_free_def)

lemma top_free_exists: "0 < nfree drp \<Longrightarrow> \<exists>r. top_free drp r"
proof -
  assume "0 < nfree drp"
  then have "{r. r < 9 \<and> \<not> active drp r} \<noteq> {}" unfolding nfree_def card_gt_0_iff by blast
  then have "find_clear (dr_active drp) 9 \<noteq> None" by (auto simp: find_clear_None)
  then show ?thesis by (auto simp: top_free_def)
qed

lemma regs_okD:
  assumes "regs_ok drp" "r < 9"
  shows "r div 64 < length (dr_active drp)" "r div 64 < length (dr_spilled drp)" "\<not> spilled drp r"
  using assms regset_okD [of drp r] by (auto simp: regs_ok_def)

lemma active_take:
  assumes "regs_ok drp" "r < 9"
  shows "active (take_reg r drp) q \<longleftrightarrow> q = r \<or> active drp q"
  using regs_okD [OF assms] by (simp add: take_reg_def)

lemma regs_ok_take: "regs_ok drp \<Longrightarrow> r < 9 \<Longrightarrow> regs_ok (take_reg r drp)"
  using regs_okD(1) [of drp r] by (auto simp: regs_ok_def regset_ok_def take_reg_def)

lemma nfree_take:
  assumes "regs_ok drp" "top_free drp r"
  shows "nfree (take_reg r drp) = nfree drp - 1"
proof -
  have r: "r < 9" "\<not> active drp r" using top_free_less [OF assms(2)] by auto
  have "{q. q < 9 \<and> \<not> active (take_reg r drp) q} = {q. q < 9 \<and> \<not> active drp q} - {r}"
    using active_take [OF assms(1) r(1)] by auto
  then show ?thesis using r by (simp add: nfree_def)
qed

lemma keep_take: "regs_ok drp \<Longrightarrow> r < 9 \<Longrightarrow> keep (take_reg r drp) = insert r (keep drp)"
  by (auto simp: keep_def active_take)

lemma keep_simps [simp]: "9 \<in> keep drp" "10 \<in> keep drp"
  by (auto simp: keep_def)

lemma top_free_keep: "top_free drp r \<Longrightarrow> r \<notin> keep drp"
  using top_free_less [of drp r] by (auto simp: keep_def)

section \<open>Generator steps\<close>

lemma code_simps [simp]:
  "dl_list (pcb_ir (code s ns)) = dl_list (pcb_ir s) @ ns" "dl_label (pcb_ir (code s ns)) = dl_label (pcb_ir s)"
  "dl_len (pcb_ir (code s ns)) = dl_len (pcb_ir s) + length (filter ir_counts ns)"
  "pcb_regs (code s ns) = pcb_regs s" "cg_idents (code s ns) = cg_idents s" "pcb_bufoff (code s ns) = pcb_bufoff s"
  "pcb_exitlbl (code s ns) = pcb_exitlbl s" "dt_tstrings (code s ns) = dt_tstrings s" "dt_ccstab (code s ns) = dt_ccstab s"
  "cg_allocs (code s ns) = cg_allocs s" "dtsd_clauseflags (code s ns) = dtsd_clauseflags s"
proof -
  have "dl_list (foldl dt_irlist_append d ns) = dl_list d @ ns" "dl_label (foldl dt_irlist_append d ns) = dl_label d"
    "dl_len (foldl dt_irlist_append d ns) = dl_len d + length (filter ir_counts ns)" for d
    by (induction ns arbitrary: d) (auto simp: dt_irlist_append_def)
  then show "dl_list (pcb_ir (code s ns)) = dl_list (pcb_ir s) @ ns" "dl_label (pcb_ir (code s ns)) = dl_label (pcb_ir s)"
    "dl_len (pcb_ir (code s ns)) = dl_len (pcb_ir s) + length (filter ir_counts ns)"
    by (simp_all add: code_def)
qed (simp_all add: code_def)

text \<open>What a generator may change besides the code and the registers: the marks of identifiers.\<close>

definition ident_core :: "ident \<Rightarrow> ident" where
  "ident_core idp = idp\<lparr>di_flags := di_flags idp AND NOT (DT_IDFLG_DIFR OR DT_IDFLG_DIFW)\<rparr>"

definition same_rest :: "cg \<Rightarrow> cg \<Rightarrow> bool" where
  "same_rest s s' \<longleftrightarrow>
     (\<forall>i. ident_core (cg_idents s' i) = ident_core (cg_idents s i)) \<and> pcb_bufoff s' = pcb_bufoff s \<and>
     pcb_exitlbl s' = pcb_exitlbl s \<and> dt_tstrings s' = dt_tstrings s \<and> dt_ccstab s' = dt_ccstab s \<and>
     cg_allocs s' = cg_allocs s \<and> dtsd_clauseflags s' = dtsd_clauseflags s"

definition emits :: "cg \<Rightarrow> irnode list \<Rightarrow> cg \<Rightarrow> bool" where
  "emits s seg s' \<longleftrightarrow>
     dl_list (pcb_ir s') = dl_list (pcb_ir s) @ seg \<and>
     dl_len (pcb_ir s') = dl_len (pcb_ir s) + length (filter ir_counts seg) \<and>
     dl_label (pcb_ir s) \<le> dl_label (pcb_ir s') \<and> same_rest s s'"

lemma same_rest_refl [simp]: "same_rest s s"
  by (simp add: same_rest_def)

lemma emits_trans: "emits s a s1 \<Longrightarrow> emits s1 b s2 \<Longrightarrow> emits s (a @ b) s2"
  by (simp add: emits_def same_rest_def)

lemma emits_code [simp]: "emits s ns (code s ns)"
  by (simp add: emits_def same_rest_def)

lemma emits_mark [simp]: "f AND NOT (DT_IDFLG_DIFR OR DT_IDFLG_DIFW) = 0 \<Longrightarrow> emits s [] (cg_mark i f s)"
proof -
  assume f: "f AND NOT (DT_IDFLG_DIFR OR DT_IDFLG_DIFW) = 0"
  have "(w OR f) AND NOT (DT_IDFLG_DIFR OR DT_IDFLG_DIFW) = w AND NOT (DT_IDFLG_DIFR OR DT_IDFLG_DIFW)" for w
    using f by (simp add: bit.conj_disj_distrib2)
  then show ?thesis by (simp add: emits_def same_rest_def cg_mark_def ident_core_def)
qed

definition cg_ok :: "ctx \<Rightarrow> cg \<Rightarrow> bool" where
  "cg_ok c s \<longleftrightarrow> regs_ok (pcb_regs s) \<and> 0 < dl_label (pcb_ir s) \<and> (\<forall>i. ident_core (cg_idents s i) = ident_core (c_ids c i))"

lemma cg_label_eq: "cg_label s = (dl_label (pcb_ir s), s\<lparr>pcb_ir := (pcb_ir s)\<lparr>dl_label := Suc (dl_label (pcb_ir s))\<rparr>\<rparr>)"
  by (simp add: cg_label_def dt_irlist_label_def Let_def)

lemma cg_alloc_eq:
  assumes "regs_ok (pcb_regs s)" "top_free (pcb_regs s) r"
  shows "cg_alloc s = Some (r, s\<lparr>pcb_regs := take_reg r (pcb_regs s)\<rparr>)"
  using assms by (simp add: cg_alloc_def dt_regset_alloc_def top_free_def regs_ok_def take_reg_def)

lemma cg_free_eq:
  assumes "regs_ok drp" "top_free drp r" "pcb_regs s = take_reg r drp"
  shows "cg_free r s = Some (s\<lparr>pcb_regs := drp\<rparr>)"
proof -
  have r: "r < 9" "\<not> active drp r" using top_free_less [OF assms(2)] by auto
  have "BT_CLEAR (BT_SET (dr_active drp) r) r = dr_active drp"
    using bt_clear_set [OF regs_okD(1) [OF assms(1) r(1)] r(2)] .
  then show ?thesis
    using assms(1,3) r active_take [OF assms(1) r(1), of r] regs_okD(3) [OF assms(1) r(1)]
    by (simp add: cg_free_def dt_regset_free_def take_reg_def regs_ok_def)
qed

text \<open>
  A generator that, given \<open>k\<close> free registers, emits well-formed code that computes \<open>ev\<close> into the highest
  free register, and takes that register.
\<close>

definition gen :: "ctx \<Rightarrow> nat \<Rightarrow> (cg \<Rightarrow> (nat \<times> u64 option \<times> cg) option) \<Rightarrow> sem \<Rightarrow> bool" where
  "gen c k f ev \<longleftrightarrow>
     (\<forall>s. cg_ok c s \<and> k \<le> nfree (pcb_regs s) \<longrightarrow>
        (\<exists>r seg s'. f s = Some (r, None, s') \<and> top_free (pcb_regs s) r \<and> pcb_regs s' = take_reg r (pcb_regs s) \<and>
           emits s seg s' \<and> seg_ok (dl_label (pcb_ir s)) (dl_label (pcb_ir s')) seg \<and>
           seg_runs c (keep (pcb_regs s)) seg r ev))"

section \<open>Putting code together\<close>

lemma genE:
  assumes "gen c k f ev" "cg_ok c s" "k \<le> nfree (pcb_regs s)"
  obtains r seg s' where "f s = Some (r, None, s')" "top_free (pcb_regs s) r" "pcb_regs s' = take_reg r (pcb_regs s)"
    "emits s seg s'" "seg_ok (dl_label (pcb_ir s)) (dl_label (pcb_ir s')) seg" "seg_runs c (keep (pcb_regs s)) seg r ev"
  using assms unfolding gen_def by blast

lemma genI:
  assumes "\<And>s. cg_ok c s \<Longrightarrow> k \<le> nfree (pcb_regs s) \<Longrightarrow>
     \<exists>r seg s'. f s = Some (r, None, s') \<and> top_free (pcb_regs s) r \<and> pcb_regs s' = take_reg r (pcb_regs s) \<and>
       emits s seg s' \<and> seg_ok (dl_label (pcb_ir s)) (dl_label (pcb_ir s')) seg \<and> seg_runs c (keep (pcb_regs s)) seg r ev"
  shows "gen c k f ev"
  using assms unfolding gen_def by blast

lemma cg_ok_emits:
  assumes "cg_ok c s" "emits s seg s'" "pcb_regs s' = drp" "regs_ok drp"
  shows "cg_ok c s'"
  using assms by (auto simp: cg_ok_def emits_def same_rest_def)

lemma cg_okD: "cg_ok c s \<Longrightarrow> regs_ok (pcb_regs s)" "cg_ok c s \<Longrightarrow> 0 < dl_label (pcb_ir s)"
  by (simp_all add: cg_ok_def)

lemma seg_runsE:
  assumes "seg_runs c K seg r ev" "prog_ok P" "at_code P i seg" "m_regs m 10 = c_fp c" "lay_mem c (m_mem m)"
  obtains (fault) flt where "ev (m_mem m) = Inl flt" "fails c P (At i m) flt"
  | (val) v mm m' where "ev (m_mem m) = Inr (v, mm)" "lay_mem c mm" "ir_steps (c_ext c) P (At i m) (At (i + length seg) m')"
      "m_regs m' r = v" "m_mem m' = mm" "\<forall>q \<in> K. m_regs m' q = m_regs m q"
proof (cases "ev (m_mem m)")
  case (Inl flt)
  then show ?thesis using assms fault unfolding seg_runs_def by force
next
  case (Inr vm)
  obtain v mm where "vm = (v, mm)" by force
  then show ?thesis using assms Inr val unfolding seg_runs_def by force
qed

lemma labels_of_simps [simp]:
  "labels_of [] = []" "labels_of (n # ns) = (if di_label n = 0 then labels_of ns else di_label n # labels_of ns)"
  "labels_of (ns @ ms) = labels_of ns @ labels_of ms"
  by (simp_all add: labels_of_def)

lemma lddw_ok_append: "lddw_ok a \<Longrightarrow> lddw_ok b \<Longrightarrow> lddw_ok (a @ b)"
proof (induction a rule: lddw_ok.induct)
  case (2 n)
  then show ?case by (cases b) auto
qed auto

lemma lddw_ok_plain: "\<not> is_lddw (di_instr n) \<Longrightarrow> lddw_ok ns \<Longrightarrow> lddw_ok (n # ns)"
  using lddw_ok_append [of "[n]" ns] by simp

definition branches_ok :: "nat set \<Rightarrow> irnode list \<Rightarrow> bool" where
  "branches_ok ls seg \<longleftrightarrow> (\<forall>n \<in> set seg. is_branch (di_instr n) \<longrightarrow> br_label (di_instr n) \<in> ls)"

lemma branches_ok_simps [simp]:
  "branches_ok ls []" "branches_ok ls (n # ns) \<longleftrightarrow> (is_branch (di_instr n) \<longrightarrow> br_label (di_instr n) \<in> ls) \<and> branches_ok ls ns"
  "branches_ok ls (ns @ ms) \<longleftrightarrow> branches_ok ls ns \<and> branches_ok ls ms"
  by (auto simp: branches_ok_def)

lemma branches_ok_mono: "branches_ok ls ns \<Longrightarrow> ls \<subseteq> ls' \<Longrightarrow> branches_ok ls' ns"
  by (auto simp: branches_ok_def)

lemma seg_ok_alt:
  "seg_ok lo hi seg \<longleftrightarrow> distinct (labels_of seg) \<and> set (labels_of seg) \<subseteq> {lo..<hi} \<and>
     (hi \<le> 2 ^ 15 \<longrightarrow> branches_ok (set (labels_of seg)) seg) \<and> lddw_ok seg"
  by (simp add: seg_ok_def branches_ok_def)

text \<open>Straight code: no labels, no branches.\<close>

definition plain :: "irnode list \<Rightarrow> bool" where
  "plain ns \<longleftrightarrow> labels_of ns = [] \<and> (\<forall>n \<in> set ns. \<not> is_branch (di_instr n)) \<and> lddw_ok ns"

lemma plain_seg: "plain ns \<Longrightarrow> seg_ok lo hi ns" "seg_ok lo hi a \<Longrightarrow> plain ns \<Longrightarrow> seg_ok lo hi (a @ ns)"
  unfolding plain_def seg_ok_alt by (auto simp: branches_ok_def lddw_ok_append)

lemma seg_ok_append:
  "seg_ok lo mid a \<Longrightarrow> seg_ok mid hi b \<Longrightarrow> lo \<le> mid \<Longrightarrow> mid \<le> hi \<Longrightarrow> seg_ok lo hi (a @ b)"
proof -
  assume a: "seg_ok lo mid a" and b: "seg_ok mid hi b" and le: "lo \<le> mid" "mid \<le> hi"
  have "distinct (labels_of (a @ b))" "set (labels_of (a @ b)) \<subseteq> {lo..<hi}"
    using a b le unfolding seg_ok_alt by (fastforce simp: subset_eq)+
  moreover have "branches_ok (set (labels_of (a @ b))) (a @ b)" if "hi \<le> 2 ^ 15"
  proof -
    have "mid \<le> 2 ^ 15" using that le by linarith
    then show ?thesis using a b that unfolding seg_ok_alt by (auto intro: branches_ok_mono)
  qed
  ultimately show ?thesis using a b unfolding seg_ok_alt by (simp add: lddw_ok_append)
qed

definition block_runs :: "ctx \<Rightarrow> irnode list \<Rightarrow> nat \<Rightarrow> (u64 \<Rightarrow> u64) \<Rightarrow> bool" where
  "block_runs c ns r g \<longleftrightarrow>
     (\<forall>P i m. prog_ok P \<and> at_code P i ns \<longrightarrow>
        ir_steps (c_ext c) P (At i m) (At (i + length ns) (set_reg r (g (m_regs m r)) m)))"

lemma seg_runs_post:
  assumes "seg_runs c K a r ev" "block_runs c b r g" "r \<notin> K"
  shows "seg_runs c K (a @ b) r (\<lambda>mm. sem_bind (ev mm) (\<lambda>v mm. Inr (g v, mm)))"
  unfolding seg_runs_def
proof (intro allI impI)
  fix P i and m :: mstate assume p: "prog_ok P \<and> at_code P i (a @ b) \<and> m_regs m 10 = c_fp c \<and> lay_mem c (m_mem m)"
  then have a: "prog_ok P" "at_code P i a" "at_code P (i + length a) b" by (simp_all add: at_code_append)
  show "case sem_bind (ev (m_mem m)) (\<lambda>v mm. Inr (g v, mm)) of Inl flt \<Rightarrow> fails c P (At i m) flt
         | Inr (v, mm) \<Rightarrow> lay_mem c mm \<and> (\<exists>m'. ir_steps (c_ext c) P (At i m) (At (i + length (a @ b)) m') \<and>
             m_regs m' r = v \<and> m_mem m' = mm \<and> (\<forall>q\<in>K. m_regs m' q = m_regs m q))"
  proof (rule seg_runsE [OF assms(1) a(1,2)])
    show "m_regs m 10 = c_fp c" "lay_mem c (m_mem m)" using p by auto
  next
    fix v mm m' assume v: "ev (m_mem m) = Inr (v, mm)" "lay_mem c mm" "ir_steps (c_ext c) P (At i m) (At (i + length a) m')"
      "m_regs m' r = v" "m_mem m' = mm" "\<forall>q\<in>K. m_regs m' q = m_regs m q"
    have "ir_steps (c_ext c) P (At (i + length a) m') (At (i + length a + length b) (set_reg r (g (m_regs m' r)) m'))"
      using assms(2) a unfolding block_runs_def by blast
    then have "ir_steps (c_ext c) P (At i m) (At (i + length (a @ b)) (set_reg r (g (m_regs m' r)) m'))"
      using v(3) by (simp add: add.assoc)
    moreover have "\<forall>q\<in>K. m_regs (set_reg r (g (m_regs m' r)) m') q = m_regs m q" using v(6) assms(3) by auto
    ultimately show ?thesis using v by (auto intro!: exI [of _ "set_reg r (g (m_regs m' r)) m'"])
  qed auto
qed

lemma gen_post:
  assumes "gen c k f ev" "\<And>r. r < 9 \<Longrightarrow> plain (ns r) \<and> block_runs c (ns r) r g"
  shows "gen c k (\<lambda>s. do { (r, ts, s) \<leftarrow> f s; Some (r, None, code s (ns r)) }) (\<lambda>mm. sem_bind (ev mm) (\<lambda>v mm. Inr (g v, mm)))"
proof (rule genI)
  fix s assume s: "cg_ok c s" "k \<le> nfree (pcb_regs s)"
  obtain r seg s' where f: "f s = Some (r, None, s')" "top_free (pcb_regs s) r" "pcb_regs s' = take_reg r (pcb_regs s)"
    "emits s seg s'" "seg_ok (dl_label (pcb_ir s)) (dl_label (pcb_ir s')) seg" "seg_runs c (keep (pcb_regs s)) seg r ev"
    using genE [OF assms(1) s] by metis
  have r: "r < 9" "r \<notin> keep (pcb_regs s)" using f(2) top_free_less top_free_keep by blast+
  have n: "plain (ns r)" "block_runs c (ns r) r g" using assms(2) [OF r(1)] by auto
  show "\<exists>r' seg s'. do { (r, ts, s) \<leftarrow> f s; Some (r, None, code s (ns r)) } = Some (r', None, s') \<and> top_free (pcb_regs s) r' \<and>
      pcb_regs s' = take_reg r' (pcb_regs s) \<and> emits s seg s' \<and> seg_ok (dl_label (pcb_ir s)) (dl_label (pcb_ir s')) seg \<and>
      seg_runs c (keep (pcb_regs s)) seg r' (\<lambda>mm. sem_bind (ev mm) (\<lambda>v mm. Inr (g v, mm)))"
    using f n plain_seg(2) [OF f(5) n(1)] seg_runs_post [OF f(6) n(2) r(2)] emits_trans [OF f(4) emits_code [of s' "ns r"]]
    by (intro exI [of _ r] exI [of _ "seg @ ns r"] exI [of _ "code s' (ns r)"]) simp
qed

text \<open>Blocks of instructions that compute in one register.\<close>

lemma block_Nil: "block_runs c [] r (\<lambda>v. v)"
  by (simp add: block_runs_def set_reg_def)

lemma block_Cons:
  assumes "\<And>ext nxt m. exec_insn ext i nxt m = Next (set_reg r (g (m_regs m r)) m)" "block_runs c ns r h"
  shows "block_runs c (I i # ns) r (\<lambda>v. h (g v))"
  unfolding block_runs_def
proof (intro allI impI)
  fix P k m assume p: "prog_ok P \<and> at_code P k (I i # ns)"
  then have a: "k < length P" "P ! k = I i" "at_code P (Suc k) ns" by (simp_all add: at_code_Cons)
  have "ir_step (c_ext c) P (At k m) = Some (At (Suc k) (set_reg r (g (m_regs m r)) m))"
    using a assms(1) by (simp add: ir_step_at del: ir_step.simps)
  moreover have "ir_steps (c_ext c) P (At (Suc k) (set_reg r (g (m_regs m r)) m))
     (At (Suc k + length ns) (set_reg r (h (m_regs (set_reg r (g (m_regs m r)) m) r)) (set_reg r (g (m_regs m r)) m)))"
    using assms(2) a p unfolding block_runs_def by blast
  ultimately show "ir_steps (c_ext c) P (At k m) (At (k + length (I i # ns)) (set_reg r (h (g (m_regs m r))) m))"
    by (simp add: set_reg_def converse_rtranclp_into_rtranclp)
qed

lemma imm32_consts [simp]: "imm32 0 = 0" "imm32 1 = 1" "imm32 (- 1) = - 1"
  by (simp_all add: imm32_small)

lemma seg_ok_append2:
  assumes "seg_ok l1 h1 a" "seg_ok l2 h2 b" "h1 \<le> l2 \<or> h2 \<le> l1" "lo \<le> l1" "lo \<le> l2" "h1 \<le> hi" "h2 \<le> hi"
  shows "seg_ok lo hi (a @ b)"
proof -
  have "distinct (labels_of (a @ b))" "set (labels_of (a @ b)) \<subseteq> {lo..<hi}"
    using assms unfolding seg_ok_alt by (fastforce simp: subset_eq)+
  moreover have "branches_ok (set (labels_of (a @ b))) (a @ b)" if "hi \<le> 2 ^ 15"
  proof -
    have "h1 \<le> 2 ^ 15" "h2 \<le> 2 ^ 15" using that assms by linarith+
    then show ?thesis using assms(1,2) that unfolding seg_ok_alt by (auto intro: branches_ok_mono)
  qed
  ultimately show ?thesis using assms unfolding seg_ok_alt by (simp add: lddw_ok_append)
qed

lemma nth_instr_at: "k < length P \<Longrightarrow> nth_instr P k = Some (di_instr (P ! k))"
  by (simp add: nth_instr_def)

lemma prog_ok_label:
  assumes "prog_ok P" "at_code P i ns" "label_pos ns l \<noteq> None"
  shows "l < 2 ^ 15"
proof -
  have "l \<in> set (map di_label ns)" using assms(3) by (simp add: label_pos_None)
  moreover have "set ns \<subseteq> set P" using assms(2) by (auto simp: at_code_def)
  ultimately show ?thesis using assms(1) by (auto simp: prog_ok_def)
qed

lemmas run_simps = ir_step_at nth_instr_at insn_simps insn_kinds is_jop_def bpf_cond_def bpf_alu_def

lemma neg_block:
  assumes "l1 \<noteq> 0" "l2 \<noteq> 0" "l1 \<noteq> l2"
  shows "block_runs c
    [I (BPF_BRANCH_IMM BPF_JEQ r 0 (int l1)), I (BPF_MOV_IMM r 0), I (BPF_JUMP (int l2)), L l1 (BPF_MOV_IMM r 1), L l2 BPF_NOP]
    r (\<lambda>v. if v = 0 then 1 else 0)"
  unfolding block_runs_def
proof (intro allI impI)
  fix P i m
  let ?ns = "[I (BPF_BRANCH_IMM BPF_JEQ r 0 (int l1)), I (BPF_MOV_IMM r 0), I (BPF_JUMP (int l2)), L l1 (BPF_MOV_IMM r 1), L l2 BPF_NOP]"
  assume p: "prog_ok P \<and> at_code P i ?ns"
  note lab = at_code_label [OF conjunct1 [OF p] conjunct2 [OF p]] prog_ok_label [OF conjunct1 [OF p] conjunct2 [OF p]]
  have l: "l1 < 2 ^ 15" "l2 < 2 ^ 15" "label_pos P l1 = Some (Suc (Suc (Suc i)))" "label_pos P l2 = Some (Suc (Suc (Suc (Suc i))))"
    using lab [of l1] lab [of l2] assms by simp_all
  show "ir_steps (c_ext c) P (At i m) (At (i + length ?ns) (set_reg r (if m_regs m r = 0 then 1 else 0) m))"
    using p l assms
    by (intro ir_run_steps [where k = "if m_regs m r = 0 then Suc (Suc (Suc 0)) else Suc (Suc (Suc (Suc 0)))"])
      (simp add: at_code_simps run_simps set_reg_def del: ir_step.simps)
qed

section \<open>Generators that work on the registers of their operands\<close>

text \<open>Code that turns the value of one register, or of two, into a new value of the first, or faults.\<close>

definition blk1 :: "ctx \<Rightarrow> irnode list \<Rightarrow> nat \<Rightarrow> (u64 \<Rightarrow> memory \<Rightarrow> fault + u64) \<Rightarrow> bool" where
  "blk1 c ns r g \<longleftrightarrow>
     (\<forall>P i m. prog_ok P \<and> at_code P i ns \<and> m_regs m 10 = c_fp c \<and> lay_mem c (m_mem m) \<longrightarrow>
        (case g (m_regs m r) (m_mem m) of
           Inl flt \<Rightarrow> fails c P (At i m) flt
         | Inr v \<Rightarrow> \<exists>m'. ir_steps (c_ext c) P (At i m) (At (i + length ns) m') \<and> m_regs m' r = v \<and> m_mem m' = m_mem m \<and>
              (\<forall>q. q \<noteq> r \<longrightarrow> m_regs m' q = m_regs m q)))"

definition blk2 :: "ctx \<Rightarrow> irnode list \<Rightarrow> nat \<Rightarrow> nat \<Rightarrow> (u64 \<Rightarrow> u64 \<Rightarrow> fault + u64) \<Rightarrow> bool" where
  "blk2 c ns rl rr g \<longleftrightarrow>
     (\<forall>P i m. prog_ok P \<and> at_code P i ns \<and> m_regs m 10 = c_fp c \<and> lay_mem c (m_mem m) \<longrightarrow>
        (case g (m_regs m rl) (m_regs m rr) of
           Inl flt \<Rightarrow> fails c P (At i m) flt
         | Inr v \<Rightarrow> \<exists>m'. ir_steps (c_ext c) P (At i m) (At (i + length ns) m') \<and> m_regs m' rl = v \<and> m_mem m' = m_mem m \<and>
              (\<forall>q. q \<noteq> rl \<and> q \<noteq> rr \<longrightarrow> m_regs m' q = m_regs m q)))"

lemma block_blk1: "block_runs c ns r g \<Longrightarrow> blk1 c ns r (\<lambda>v mm. Inr (g v))"
  unfolding block_runs_def blk1_def
  by (intro allI impI) (auto intro!: exI [where x = "set_reg r (g (m_regs m r)) m" for m])

lemma blk1E:
  assumes "blk1 c ns r g" "prog_ok P" "at_code P i ns" "m_regs m 10 = c_fp c" "lay_mem c (m_mem m)"
  obtains (fault) flt where "g (m_regs m r) (m_mem m) = Inl flt" "fails c P (At i m) flt"
  | (val) m' where "g (m_regs m r) (m_mem m) = Inr (m_regs m' r)" "ir_steps (c_ext c) P (At i m) (At (i + length ns) m')"
      "m_mem m' = m_mem m" "\<And>q. q \<noteq> r \<Longrightarrow> m_regs m' q = m_regs m q"
proof (cases "g (m_regs m r) (m_mem m)")
  case (Inl flt)
  then show ?thesis using assms fault unfolding blk1_def by force
next
  case (Inr v)
  then show ?thesis using assms val unfolding blk1_def by (simp split: sum.splits) blast
qed

lemma blk2E:
  assumes "blk2 c ns rl rr g" "prog_ok P" "at_code P i ns" "m_regs m 10 = c_fp c" "lay_mem c (m_mem m)"
  obtains (fault) flt where "g (m_regs m rl) (m_regs m rr) = Inl flt" "fails c P (At i m) flt"
  | (val) m' where "g (m_regs m rl) (m_regs m rr) = Inr (m_regs m' rl)" "ir_steps (c_ext c) P (At i m) (At (i + length ns) m')"
      "m_mem m' = m_mem m" "\<And>q. q \<noteq> rl \<Longrightarrow> q \<noteq> rr \<Longrightarrow> m_regs m' q = m_regs m q"
proof (cases "g (m_regs m rl) (m_regs m rr)")
  case (Inl flt)
  then show ?thesis using assms fault unfolding blk2_def by force
next
  case (Inr v)
  then show ?thesis using assms val unfolding blk2_def by (simp split: sum.splits) blast
qed

definition sem_post :: "(u64 \<Rightarrow> memory \<Rightarrow> fault + u64) \<Rightarrow> sem \<Rightarrow> sem" where
  "sem_post g ev mm = sem_bind (ev mm) (\<lambda>v mm. case g v mm of Inl flt \<Rightarrow> Inl flt | Inr w \<Rightarrow> Inr (w, mm))"

definition sem_bin :: "(u64 \<Rightarrow> u64 \<Rightarrow> fault + u64) \<Rightarrow> sem \<Rightarrow> sem \<Rightarrow> sem" where
  "sem_bin g evl evr mm =
     sem_bind (evl mm) (\<lambda>a mm. sem_bind (evr mm) (\<lambda>b mm. case g a b of Inl flt \<Rightarrow> Inl flt | Inr w \<Rightarrow> Inr (w, mm)))"

lemma seg_runsI:
  assumes "\<And>P i m. prog_ok P \<Longrightarrow> at_code P i seg \<Longrightarrow> m_regs m 10 = c_fp c \<Longrightarrow> lay_mem c (m_mem m) \<Longrightarrow>
     (case ev (m_mem m) of
        Inl flt \<Rightarrow> fails c P (At i m) flt
      | Inr (v, mm) \<Rightarrow> lay_mem c mm \<and>
          (\<exists>m'. ir_steps (c_ext c) P (At i m) (At (i + length seg) m') \<and> m_regs m' r = v \<and> m_mem m' = mm \<and>
             (\<forall>q \<in> K. m_regs m' q = m_regs m q)))"
  shows "seg_runs c K seg r ev"
  using assms unfolding seg_runs_def by blast

lemma seg_runs_blk1:
  assumes "seg_runs c K a r ev" "blk1 c b r g" "r \<notin> K" "10 \<in> K"
  shows "seg_runs c K (a @ b) r (sem_post g ev)"
proof (rule seg_runsI)
  fix P i and m :: mstate
  assume p: "prog_ok P" "at_code P i (a @ b)" and f: "m_regs m 10 = c_fp c" "lay_mem c (m_mem m)"
  then have a: "at_code P i a" "at_code P (i + length a) b" by (simp_all add: at_code_append)
  show "case sem_post g ev (m_mem m) of Inl flt \<Rightarrow> fails c P (At i m) flt
         | Inr (v, mm) \<Rightarrow> lay_mem c mm \<and> (\<exists>m'. ir_steps (c_ext c) P (At i m) (At (i + length (a @ b)) m') \<and>
             m_regs m' r = v \<and> m_mem m' = mm \<and> (\<forall>q\<in>K. m_regs m' q = m_regs m q))"
  proof (rule seg_runsE [OF assms(1) p(1) a(1) f])
    fix v mm m' assume v: "ev (m_mem m) = Inr (v, mm)" "lay_mem c mm" "ir_steps (c_ext c) P (At i m) (At (i + length a) m')"
      "m_regs m' r = v" "m_mem m' = mm" "\<forall>q\<in>K. m_regs m' q = m_regs m q"
    have f': "m_regs m' 10 = c_fp c" "lay_mem c (m_mem m')" using v f assms(4) by simp_all
    show ?thesis
    proof (rule blk1E [OF assms(2) p(1) a(2) f'])
      fix flt assume "g (m_regs m' r) (m_mem m') = Inl flt" "fails c P (At (i + length a) m') flt"
      then show ?thesis using v fails_steps [OF v(3)] by (simp add: sem_post_def)
    next
      fix m2 assume w: "g (m_regs m' r) (m_mem m') = Inr (m_regs m2 r)"
        "ir_steps (c_ext c) P (At (i + length a) m') (At (i + length a + length b) m2)" "m_mem m2 = m_mem m'"
        "\<And>q. q \<noteq> r \<Longrightarrow> m_regs m2 q = m_regs m' q"
      have "\<forall>q\<in>K. m_regs m2 q = m_regs m q" using v(6) w(4) assms(3) by metis
      then show ?thesis using v w rtranclp_trans [OF v(3) w(2)] by (auto simp: sem_post_def add.assoc)
    qed
  qed (simp add: sem_post_def)
qed

lemma seg_runs_blk2:
  assumes "seg_runs c K a rl evl" "seg_runs c (insert rl K) b rr evr" "blk2 c ns rl rr g" "rl \<notin> K" "rr \<notin> K" "10 \<in> K"
  shows "seg_runs c K (a @ b @ ns) rl (sem_bin g evl evr)"
proof (rule seg_runsI)
  fix P i and m :: mstate
  assume p: "prog_ok P" "at_code P i (a @ b @ ns)" and f: "m_regs m 10 = c_fp c" "lay_mem c (m_mem m)"
  then have a: "at_code P i a" "at_code P (i + length a) b" "at_code P (i + length a + length b) ns"
    by (simp_all add: at_code_append)
  show "case sem_bin g evl evr (m_mem m) of Inl flt \<Rightarrow> fails c P (At i m) flt
         | Inr (v, mm) \<Rightarrow> lay_mem c mm \<and> (\<exists>m'. ir_steps (c_ext c) P (At i m) (At (i + length (a @ b @ ns)) m') \<and>
             m_regs m' rl = v \<and> m_mem m' = mm \<and> (\<forall>q\<in>K. m_regs m' q = m_regs m q))"
  proof (rule seg_runsE [OF assms(1) p(1) a(1) f])
    fix v mm m1 assume v: "evl (m_mem m) = Inr (v, mm)" "lay_mem c mm" "ir_steps (c_ext c) P (At i m) (At (i + length a) m1)"
      "m_regs m1 rl = v" "m_mem m1 = mm" "\<forall>q\<in>K. m_regs m1 q = m_regs m q"
    have f1: "m_regs m1 10 = c_fp c" "lay_mem c (m_mem m1)" using v f assms(6) by simp_all
    show ?thesis
    proof (rule seg_runsE [OF assms(2) p(1) a(2) f1])
      fix flt assume "evr (m_mem m1) = Inl flt" "fails c P (At (i + length a) m1) flt"
      then show ?thesis using v fails_steps [OF v(3)] by (simp add: sem_bin_def)
    next
      fix w mm' m2 assume w: "evr (m_mem m1) = Inr (w, mm')" "lay_mem c mm'"
        "ir_steps (c_ext c) P (At (i + length a) m1) (At (i + length a + length b) m2)"
        "m_regs m2 rr = w" "m_mem m2 = mm'" "\<forall>q\<in>insert rl K. m_regs m2 q = m_regs m1 q"
      have st: "ir_steps (c_ext c) P (At i m) (At (i + length a + length b) m2)" using v(3) w(3) by (rule rtranclp_trans)
      have f2: "m_regs m2 10 = c_fp c" "lay_mem c (m_mem m2)" "m_regs m2 rl = v" using v w f1 assms(6) by simp_all
      show ?thesis
      proof (rule blk2E [OF assms(3) p(1) a(3) f2(1,2)])
        fix flt assume "g (m_regs m2 rl) (m_regs m2 rr) = Inl flt" "fails c P (At (i + length a + length b) m2) flt"
        then show ?thesis using v w f2(3) fails_steps [OF st] by (simp add: sem_bin_def)
      next
        fix m3 assume x: "g (m_regs m2 rl) (m_regs m2 rr) = Inr (m_regs m3 rl)"
          "ir_steps (c_ext c) P (At (i + length a + length b) m2) (At (i + length a + length b + length ns) m3)" "m_mem m3 = m_mem m2"
          "\<And>q. q \<noteq> rl \<Longrightarrow> q \<noteq> rr \<Longrightarrow> m_regs m3 q = m_regs m2 q"
        have "\<forall>q\<in>K. m_regs m3 q = m_regs m q" using v(6) w(6) x(4) assms(4,5) by (metis insertCI)
        then show ?thesis using v w x f2(3) rtranclp_trans [OF st x(2)] by (auto simp: sem_bin_def add.assoc)
      qed
    qed
  qed (simp add: sem_bin_def)
qed

text \<open>A generator of code that works on the register just computed.\<close>

definition post :: "ctx \<Rightarrow> (nat \<Rightarrow> cg \<Rightarrow> cg option) \<Rightarrow> (u64 \<Rightarrow> memory \<Rightarrow> fault + u64) \<Rightarrow> bool" where
  "post c h g \<longleftrightarrow>
     (\<forall>s r. cg_ok c s \<and> r < 9 \<and> active (pcb_regs s) r \<longrightarrow>
        (\<exists>seg s'. h r s = Some s' \<and> pcb_regs s' = pcb_regs s \<and> emits s seg s' \<and>
           seg_ok (dl_label (pcb_ir s)) (dl_label (pcb_ir s')) seg \<and> blk1 c seg r g))"

lemma post_code: "(\<And>r. r < 9 \<Longrightarrow> plain (ns r) \<and> block_runs c (ns r) r g) \<Longrightarrow> post c (\<lambda>r s. Some (code s (ns r))) (\<lambda>v mm. Inr (g v))"
  unfolding post_def by (auto intro!: plain_seg block_blk1 exI)

lemma post_seq:
  assumes "post c h g" "post c h' g'"
  shows "post c (\<lambda>r s. do { s \<leftarrow> h r s; h' r s }) (\<lambda>v mm. case g v mm of Inl flt \<Rightarrow> Inl flt | Inr w \<Rightarrow> g' w mm)"
  unfolding post_def
proof (intro allI impI)
  fix s r assume s: "cg_ok c s \<and> r < 9 \<and> active (pcb_regs s) r"
  obtain a s1 where a: "h r s = Some s1" "pcb_regs s1 = pcb_regs s" "emits s a s1" "seg_ok (dl_label (pcb_ir s)) (dl_label (pcb_ir s1)) a" "blk1 c a r g"
    using assms(1) s unfolding post_def by blast
  have "cg_ok c s1" using cg_ok_emits [OF _ a(3)] a(2) s cg_okD(1) [of c s] by simp
  then obtain b s2 where b: "h' r s1 = Some s2" "pcb_regs s2 = pcb_regs s1" "emits s1 b s2" "seg_ok (dl_label (pcb_ir s1)) (dl_label (pcb_ir s2)) b" "blk1 c b r g'"
    using assms(2) s a(2) unfolding post_def by metis
  have "blk1 c (a @ b) r (\<lambda>v mm. case g v mm of Inl flt \<Rightarrow> Inl flt | Inr w \<Rightarrow> g' w mm)"
    unfolding blk1_def
  proof (intro allI impI)
    fix P i and m :: mstate
    assume p: "prog_ok P \<and> at_code P i (a @ b) \<and> m_regs m 10 = c_fp c \<and> lay_mem c (m_mem m)"
    then have at: "at_code P i a" "at_code P (i + length a) b" and f: "m_regs m 10 = c_fp c" "lay_mem c (m_mem m)"
      by (simp_all add: at_code_append)
    show "case case g (m_regs m r) (m_mem m) of Inl flt \<Rightarrow> Inl flt | Inr w \<Rightarrow> g' w (m_mem m) of
           Inl flt \<Rightarrow> fails c P (At i m) flt
         | Inr v \<Rightarrow> \<exists>m'. ir_steps (c_ext c) P (At i m) (At (i + length (a @ b)) m') \<and> m_regs m' r = v \<and> m_mem m' = m_mem m \<and>
              (\<forall>q. q \<noteq> r \<longrightarrow> m_regs m' q = m_regs m q)"
    proof (rule blk1E [OF a(5) conjunct1 [OF p] at(1) f])
      fix m1 assume m1: "g (m_regs m r) (m_mem m) = Inr (m_regs m1 r)" "ir_steps (c_ext c) P (At i m) (At (i + length a) m1)"
        "m_mem m1 = m_mem m" "\<And>q. q \<noteq> r \<Longrightarrow> m_regs m1 q = m_regs m q"
      have "r \<noteq> 10" using s by auto
      then have f1: "m_regs m1 10 = c_fp c" "lay_mem c (m_mem m1)" using m1(3) m1(4) [of 10] f by simp_all
      show ?thesis
      proof (rule blk1E [OF b(5) conjunct1 [OF p] at(2) f1])
        fix flt assume "g' (m_regs m1 r) (m_mem m1) = Inl flt" "fails c P (At (i + length a) m1) flt"
        then show ?thesis using m1 fails_steps [OF m1(2)] by simp
      next
        fix m2 assume m2: "g' (m_regs m1 r) (m_mem m1) = Inr (m_regs m2 r)"
          "ir_steps (c_ext c) P (At (i + length a) m1) (At (i + length a + length b) m2)" "m_mem m2 = m_mem m1"
          "\<And>q. q \<noteq> r \<Longrightarrow> m_regs m2 q = m_regs m1 q"
        then show ?thesis using m1 rtranclp_trans [OF m1(2) m2(2)] by (auto simp: add.assoc)
      qed
    qed simp
  qed
  then show "\<exists>seg s'. do { s \<leftarrow> h r s; h' r s } = Some s' \<and> pcb_regs s' = pcb_regs s \<and> emits s seg s' \<and>
           seg_ok (dl_label (pcb_ir s)) (dl_label (pcb_ir s')) seg \<and>
           blk1 c seg r (\<lambda>v mm. case g v mm of Inl flt \<Rightarrow> Inl flt | Inr w \<Rightarrow> g' w mm)"
    using a b emits_trans [OF a(3) b(3)] seg_ok_append [OF a(4) b(4)] by (auto simp: emits_def)
qed

text \<open>Code for a meaning is code for a meaning that claims nothing in more cases.\<close>

lemma blk1_weaken:
  assumes "blk1 c ns r g" "\<And>v mm. g' v mm = Inl Unchecked \<or> g' v mm = g v mm"
  shows "blk1 c ns r g'"
  unfolding blk1_def
proof (intro allI impI)
  fix P i and m :: mstate
  assume p: "prog_ok P \<and> at_code P i ns \<and> m_regs m 10 = c_fp c \<and> lay_mem c (m_mem m)"
  show "case g' (m_regs m r) (m_mem m) of Inl flt \<Rightarrow> fails c P (At i m) flt
     | Inr v \<Rightarrow> \<exists>m'. ir_steps (c_ext c) P (At i m) (At (i + length ns) m') \<and> m_regs m' r = v \<and> m_mem m' = m_mem m \<and>
         (\<forall>q. q \<noteq> r \<longrightarrow> m_regs m' q = m_regs m q)"
    using assms(2) [of "m_regs m r" "m_mem m"]
  proof
    assume eq: "g' (m_regs m r) (m_mem m) = g (m_regs m r) (m_mem m)"
    show ?thesis unfolding eq using assms(1) p unfolding blk1_def by blast
  qed simp
qed

lemma blk2_weaken:
  assumes "blk2 c ns rl rr g" "\<And>x y. g' x y = Inl Unchecked \<or> g' x y = g x y"
  shows "blk2 c ns rl rr g'"
  unfolding blk2_def
proof (intro allI impI)
  fix P i and m :: mstate
  assume p: "prog_ok P \<and> at_code P i ns \<and> m_regs m 10 = c_fp c \<and> lay_mem c (m_mem m)"
  show "case g' (m_regs m rl) (m_regs m rr) of Inl flt \<Rightarrow> fails c P (At i m) flt
     | Inr v \<Rightarrow> \<exists>m'. ir_steps (c_ext c) P (At i m) (At (i + length ns) m') \<and> m_regs m' rl = v \<and> m_mem m' = m_mem m \<and>
         (\<forall>q. q \<noteq> rl \<and> q \<noteq> rr \<longrightarrow> m_regs m' q = m_regs m q)"
    using assms(2) [of "m_regs m rl" "m_regs m rr"]
  proof
    assume eq: "g' (m_regs m rl) (m_regs m rr) = g (m_regs m rl) (m_regs m rr)"
    show ?thesis unfolding eq using assms(1) p unfolding blk2_def by blast
  qed simp
qed

lemma post_weaken:
  assumes "post c h g" "\<And>v mm. g' v mm = Inl Unchecked \<or> g' v mm = g v mm"
  shows "post c h g'"
proof -
  have "blk1 c seg r g'" if "blk1 c seg r g" for seg r using blk1_weaken [OF that, of g'] assms(2) by blast
  then show ?thesis using assms(1) unfolding post_def by blast
qed

lemma gen_weaken:
  assumes "gen c k f ev" "\<And>mm. ev' mm = Inl Unchecked \<or> ev' mm = ev mm"
  shows "gen c k f ev'"
proof -
  have "seg_runs c K seg r ev'" if r: "seg_runs c K seg r ev" for K seg r
  proof (rule seg_runsI)
    fix P i and m :: mstate
    assume p: "prog_ok P" "at_code P i seg" "m_regs m 10 = c_fp c" "lay_mem c (m_mem m)"
    show "case ev' (m_mem m) of Inl flt \<Rightarrow> fails c P (At i m) flt
       | Inr (v, mm) \<Rightarrow> lay_mem c mm \<and> (\<exists>m'. ir_steps (c_ext c) P (At i m) (At (i + length seg) m') \<and> m_regs m' r = v \<and>
           m_mem m' = mm \<and> (\<forall>q \<in> K. m_regs m' q = m_regs m q))"
      using assms(2) [of "m_mem m"]
    proof
      assume eq: "ev' (m_mem m) = ev (m_mem m)"
      show ?thesis unfolding eq using r p unfolding seg_runs_def by blast
    qed simp
  qed
  then show ?thesis using assms(1) unfolding gen_def by blast
qed

lemma gen_then:
  assumes "gen c k f ev" "post c h g"
  shows "gen c k (\<lambda>s. do { (r, ts, s) \<leftarrow> f s; s \<leftarrow> h r s; Some (r, None, s) }) (sem_post g ev)"
proof (rule genI)
  fix s assume s: "cg_ok c s" "k \<le> nfree (pcb_regs s)"
  obtain r seg s' where f: "f s = Some (r, None, s')" "top_free (pcb_regs s) r" "pcb_regs s' = take_reg r (pcb_regs s)"
    "emits s seg s'" "seg_ok (dl_label (pcb_ir s)) (dl_label (pcb_ir s')) seg" "seg_runs c (keep (pcb_regs s)) seg r ev"
    using genE [OF assms(1) s] by metis
  have r: "r < 9" "r \<notin> keep (pcb_regs s)" using f(2) top_free_less top_free_keep by blast+
  note ok = cg_okD(1) [OF s(1)]
  have "cg_ok c s'" using cg_ok_emits [OF s(1) f(4,3)] regs_ok_take [OF ok r(1)] by simp
  moreover have "active (pcb_regs s') r" using f(3) active_take [OF ok r(1)] by simp
  ultimately obtain b s2 where b: "h r s' = Some s2" "pcb_regs s2 = pcb_regs s'" "emits s' b s2" "seg_ok (dl_label (pcb_ir s')) (dl_label (pcb_ir s2)) b" "blk1 c b r g"
    using assms(2) r(1) unfolding post_def by blast
  show "\<exists>r' seg s'. do { (r, ts, s) \<leftarrow> f s; s \<leftarrow> h r s; Some (r, None, s) } = Some (r', None, s') \<and> top_free (pcb_regs s) r' \<and>
      pcb_regs s' = take_reg r' (pcb_regs s) \<and> emits s seg s' \<and> seg_ok (dl_label (pcb_ir s)) (dl_label (pcb_ir s')) seg \<and>
      seg_runs c (keep (pcb_regs s)) seg r' (sem_post g ev)"
    using f b emits_trans [OF f(4) b(3)] seg_ok_append [OF f(5) b(4)] seg_runs_blk1 [OF f(6) b(5) r(2)]
    by (intro exI [of _ r] exI [of _ "seg @ b"] exI [of _ s2]) (auto simp: emits_def)
qed

text \<open>Both operands of a binary operator.\<close>

lemma bin_sub:
  assumes "gen c k1 fl evl" "gen c k2 fr evr" "cg_ok c s" "k1 \<le> nfree (pcb_regs s)" "k2 < nfree (pcb_regs s)"
  obtains rl a s1 rr b s2 where "fl s = Some (rl, None, s1)" "fr s1 = Some (rr, None, s2)"
    "top_free (pcb_regs s) rl" "top_free (take_reg rl (pcb_regs s)) rr" "pcb_regs s2 = take_reg rr (take_reg rl (pcb_regs s))"
    "emits s a s1" "emits s1 b s2" "seg_ok (dl_label (pcb_ir s)) (dl_label (pcb_ir s1)) a" "seg_ok (dl_label (pcb_ir s1)) (dl_label (pcb_ir s2)) b"
    "seg_runs c (keep (pcb_regs s)) a rl evl" "seg_runs c (insert rl (keep (pcb_regs s))) b rr evr"
    "rl < 9" "rr < 9" "rl \<noteq> rr" "rl \<notin> keep (pcb_regs s)" "rr \<notin> keep (pcb_regs s)" "regs_ok (take_reg rl (pcb_regs s))" "cg_ok c s2"
proof -
  obtain rl a s1 where f: "fl s = Some (rl, None, s1)" "top_free (pcb_regs s) rl" "pcb_regs s1 = take_reg rl (pcb_regs s)"
    "emits s a s1" "seg_ok (dl_label (pcb_ir s)) (dl_label (pcb_ir s1)) a" "seg_runs c (keep (pcb_regs s)) a rl evl"
    using genE [OF assms(1,3,4)] by metis
  have r: "rl < 9" "rl \<notin> keep (pcb_regs s)" using f(2) top_free_less top_free_keep by blast+
  note ok = cg_okD(1) [OF assms(3)]
  have ok1: "regs_ok (take_reg rl (pcb_regs s))" using regs_ok_take [OF ok r(1)] .
  have s1: "cg_ok c s1" using cg_ok_emits [OF assms(3) f(4,3) ok1] .
  have n: "k2 \<le> nfree (pcb_regs s1)" using assms(5) nfree_take [OF ok f(2)] f(3) by simp
  obtain rr b s2 where g: "fr s1 = Some (rr, None, s2)" "top_free (pcb_regs s1) rr" "pcb_regs s2 = take_reg rr (pcb_regs s1)"
    "emits s1 b s2" "seg_ok (dl_label (pcb_ir s1)) (dl_label (pcb_ir s2)) b" "seg_runs c (keep (pcb_regs s1)) b rr evr"
    using genE [OF assms(2) s1 n] by metis
  have q: "rr < 9" "rr \<notin> keep (pcb_regs s1)" using g(2) top_free_less top_free_keep by blast+
  have "keep (pcb_regs s1) = insert rl (keep (pcb_regs s))" using keep_take [OF ok r(1)] f(3) by simp
  moreover have "cg_ok c s2" using cg_ok_emits [OF s1 g(4,3)] regs_ok_take [OF _ q(1)] ok1 f(3) by simp
  ultimately show ?thesis using that [OF f(1) g(1) f(2)] f g r q ok1 by auto
qed

end
