(* ===== verification/DTCgGen.thy ===== *)
theory DTCgGen
  imports DTCgSem "HOL-Library.Multiset" "HOL-Library.Signed_Division"
begin

unbundle bit_operations_syntax

text \<open>
  Generators that are right: two operands in two registers, fault reports with \<open>dt_cg_probe_error\<close>,
  constants, \<open>dt_cg_check_notnull\<close>, and \<open>dt_cg_arithmetic_op\<close> with its signed division and the scaling of
  pointers.
\<close>

definition post2 :: "ctx \<Rightarrow> (nat \<Rightarrow> nat \<Rightarrow> cg \<Rightarrow> cg option) \<Rightarrow> (u64 \<Rightarrow> u64 \<Rightarrow> fault + u64) \<Rightarrow> bool" where
  "post2 c h g \<longleftrightarrow>
     (\<forall>s rl rr. cg_ok c s \<and> rl < 9 \<and> rr < 9 \<and> rl \<noteq> rr \<and> active (pcb_regs s) rl \<and> active (pcb_regs s) rr \<longrightarrow>
        (\<exists>seg s'. h rl rr s = Some s' \<and> pcb_regs s' = pcb_regs s \<and> emits s seg s' \<and>
           seg_ok (dl_label (pcb_ir s)) (dl_label (pcb_ir s')) seg \<and> blk2 c seg rl rr g))"

lemma post2_weaken:
  assumes "post2 c h g" "\<And>x y. g' x y = Inl Unchecked \<or> g' x y = g x y"
  shows "post2 c h g'"
proof -
  have "blk2 c seg rl rr g'" if "blk2 c seg rl rr g" for seg rl rr using blk2_weaken [OF that, of g'] assms(2) by blast
  then show ?thesis using assms(1) unfolding post2_def by blast
qed

lemma gen_bin:
  assumes "gen c k1 fl evl" "gen c k2 fr evr" "post2 c h g"
  shows "gen c (max k1 (Suc k2))
     (\<lambda>s. do { (rl, lts, s) \<leftarrow> fl s; (rr, rts, s) \<leftarrow> fr s; s \<leftarrow> h rl rr s; s \<leftarrow> cg_free rr s; Some (rl, None, s) })
     (sem_bin g evl evr)"
proof (rule genI)
  fix s assume s: "cg_ok c s" "max k1 (Suc k2) \<le> nfree (pcb_regs s)"
  then have n: "k1 \<le> nfree (pcb_regs s)" "k2 < nfree (pcb_regs s)" by auto
  let ?f = "\<lambda>s. do { (rl, lts, s) \<leftarrow> fl s; (rr, rts, s) \<leftarrow> fr s; s \<leftarrow> h rl rr s; s \<leftarrow> cg_free rr s; Some (rl, None, s) }"
  show "\<exists>r' seg s'. ?f s = Some (r', None, s') \<and> top_free (pcb_regs s) r' \<and> pcb_regs s' = take_reg r' (pcb_regs s) \<and>
      emits s seg s' \<and> seg_ok (dl_label (pcb_ir s)) (dl_label (pcb_ir s')) seg \<and> seg_runs c (keep (pcb_regs s)) seg r' (sem_bin g evl evr)"
  proof (rule bin_sub [OF assms(1,2) s(1) n])
    fix rl a s1 rr b s2
    assume b: "fl s = Some (rl, None, s1)" "fr s1 = Some (rr, None, s2)"
      "top_free (pcb_regs s) rl" "top_free (take_reg rl (pcb_regs s)) rr" "pcb_regs s2 = take_reg rr (take_reg rl (pcb_regs s))"
      "emits s a s1" "emits s1 b s2" "seg_ok (dl_label (pcb_ir s)) (dl_label (pcb_ir s1)) a" "seg_ok (dl_label (pcb_ir s1)) (dl_label (pcb_ir s2)) b"
      "seg_runs c (keep (pcb_regs s)) a rl evl" "seg_runs c (insert rl (keep (pcb_regs s))) b rr evr"
      "rl < 9" "rr < 9" "rl \<noteq> rr" "rl \<notin> keep (pcb_regs s)" "rr \<notin> keep (pcb_regs s)" "regs_ok (take_reg rl (pcb_regs s))" "cg_ok c s2"
    have "active (pcb_regs s2) rl" "active (pcb_regs s2) rr"
      using b(5,12,13,17) active_take [OF cg_okD(1) [OF s(1)] b(12)] active_take [OF b(17,13)] by simp_all
    then obtain ns s3 where h: "h rl rr s2 = Some s3" "pcb_regs s3 = pcb_regs s2" "emits s2 ns s3"
      "seg_ok (dl_label (pcb_ir s2)) (dl_label (pcb_ir s3)) ns" "blk2 c ns rl rr g"
      using assms(3) b(12-14,18) unfolding post2_def by blast
    have "cg_free rr s3 = Some (s3\<lparr>pcb_regs := take_reg rl (pcb_regs s)\<rparr>)"
      using cg_free_eq [OF b(17,4)] b(5) h(2) by simp
    then have "?f s = Some (rl, None, s3\<lparr>pcb_regs := take_reg rl (pcb_regs s)\<rparr>)" using b(1,2) h(1) by simp
    moreover have "emits s (a @ b @ ns) (s3\<lparr>pcb_regs := take_reg rl (pcb_regs s)\<rparr>)"
      using emits_trans [OF b(6) emits_trans [OF b(7) h(3)]] by (simp add: emits_def same_rest_def)
    moreover have "seg_ok (dl_label (pcb_ir s)) (dl_label (pcb_ir s3)) (a @ b @ ns)"
      using b(6-9) h(3,4) by (intro seg_ok_append) (auto simp: emits_def)
    moreover have "seg_runs c (keep (pcb_regs s)) (a @ b @ ns) rl (sem_bin g evl evr)"
      using seg_runs_blk2 [OF b(10,11) h(5) b(15,16)] by simp
    ultimately show ?thesis using b(3) by fastforce
  qed
qed

lemma gen_cong: "gen c k f ev \<Longrightarrow> (\<And>s. f s = f' s) \<Longrightarrow> (\<And>mm. ev mm = ev' mm) \<Longrightarrow> k \<le> k' \<Longrightarrow> gen c k' f' ev'"
proof -
  assume g: "gen c k f ev" and eq: "\<And>s. f s = f' s" "\<And>mm. ev mm = ev' mm" and k: "k \<le> k'"
  have "f = f'" "ev = ev'" using eq by auto
  then show ?thesis using g k unfolding gen_def by auto
qed

text \<open>Interleaving code does not matter for its being well-formed.\<close>

lemma seg_ok_perm:
  assumes "seg_ok lo hi seg" "mset seg' = mset seg" "lddw_ok seg'"
  shows "seg_ok lo hi seg'"
proof -
  have m: "mset (labels_of seg') = mset (labels_of seg)" using assms(2) by (simp add: labels_of_def)
  have "set (labels_of seg') = set (labels_of seg)" "set seg' = set seg" using m assms(2) mset_eq_setD by blast+
  moreover have "distinct (labels_of seg') = distinct (labels_of seg)" using m by (metis mset_eq_imp_distinct_iff)
  ultimately show ?thesis using assms(1,3) by (simp add: seg_ok_def)
qed

definition bump :: "nat \<Rightarrow> cg \<Rightarrow> cg" where
  "bump n s = s\<lparr>pcb_ir := (pcb_ir s)\<lparr>dl_label := dl_label (pcb_ir s) + n\<rparr>\<rparr>"

lemma bump_simps [simp]:
  "pcb_regs (bump n s) = pcb_regs s" "dl_label (pcb_ir (bump n s)) = dl_label (pcb_ir s) + n" "bump n (bump k s) = bump (n + k) s"
  by (simp_all add: bump_def add.commute)

lemma cg_label_bump: "cg_label s = (dl_label (pcb_ir s), bump (Suc 0) s)"
  by (simp add: cg_label_eq bump_def)

lemma cg_ok_bump [simp]: "cg_ok c s \<Longrightarrow> cg_ok c (bump n s)"
  by (simp add: cg_ok_def bump_def)

lemma emits_bump: "emits (bump n s) seg s' \<Longrightarrow> emits s seg s' \<and> dl_label (pcb_ir s) + n \<le> dl_label (pcb_ir s')"
  by (auto simp: emits_def same_rest_def bump_def)

lemma emits_le: "emits s seg s' \<Longrightarrow> dl_label (pcb_ir s) \<le> dl_label (pcb_ir s')"
  by (simp add: emits_def)

lemma emits_regs [simp]: "emits s seg (s'\<lparr>pcb_regs := x\<rparr>) \<longleftrightarrow> emits s seg s'" "emits (s\<lparr>pcb_regs := x\<rparr>) seg s' \<longleftrightarrow> emits s seg s'"
  by (auto simp: emits_def same_rest_def)

section \<open>Reporting a fault\<close>

text \<open>
  The register set \<open>drp1\<close> is \<open>drp\<close> with the registers of \<open>R\<close> taken on top, by spilling those in use.
\<close>

definition xtaken :: "irlist regset \<Rightarrow> nat set \<Rightarrow> irlist regset \<Rightarrow> bool" where
  "xtaken drp R drp1 \<longleftrightarrow>
     dr_size drp1 = dr_size drp \<and> dr_spill_store drp1 = dr_spill_store drp \<and> dr_spill_load drp1 = dr_spill_load drp \<and>
     length (dr_active drp1) = length (dr_active drp) \<and> length (dr_spilled drp1) = length (dr_spilled drp) \<and>
     (\<forall>q. active drp1 q \<longleftrightarrow> q \<in> R \<or> active drp q) \<and> (\<forall>q. spilled drp1 q \<longleftrightarrow> q \<in> R \<and> active drp q \<or> spilled drp q)"

lemma xtaken_none: "xtaken drp {} drp1 \<longleftrightarrow> drp1 = drp"
  using bt_ext [of "dr_active drp1" "dr_active drp"] bt_ext [of "dr_spilled drp1" "dr_spilled drp"] by (auto simp: xtaken_def)

definition stores :: "irnode list \<Rightarrow> bool" where
  "stores ns \<longleftrightarrow> (\<forall>n \<in> set ns. \<exists>r < 9. n = I (BPF_STORE BPF_DW BPF_REG_FP (DT_STK_SPILL r) r))"

definition loads :: "irnode list \<Rightarrow> bool" where
  "loads ns \<longleftrightarrow> (\<forall>n \<in> set ns. \<exists>r < 9. n = I (BPF_LOAD BPF_DW r BPF_REG_FP (DT_STK_SPILL r)))"

lemma spill_code:
  "dt_cg_spill_store r dlp = dt_irlist_append dlp (I (BPF_STORE BPF_DW BPF_REG_FP (DT_STK_SPILL r) r))"
  "dt_cg_spill_load r dlp = dt_irlist_append dlp (I (BPF_LOAD BPF_DW r BPF_REG_FP (DT_STK_SPILL r)))"
  by (simp_all add: dt_cg_spill_store_def dt_cg_spill_load_def emit_def emitle_def I_def dt_cg_node_alloc_def)

lemma xalloc_taken:
  assumes "regs_ok drp" "xtaken drp R drp1" "r < 9" "r \<notin> R"
  shows "\<exists>drp2 ns. dt_regset_xalloc drp1 r dlp = Some (True, drp2, foldl dt_irlist_append dlp ns) \<and> stores ns \<and> xtaken drp (insert r R) drp2"
proof -
  note i = regs_okD [OF assms(1,3)]
  have l: "r div 64 < length (dr_active drp1)" "r div 64 < length (dr_spilled drp1)" using i assms(2) by (simp_all add: xtaken_def)
  let ?ns = "if active drp r then [I (BPF_STORE BPF_DW BPF_REG_FP (DT_STK_SPILL r) r)] else []"
  let ?drp = "if active drp r then drp1\<lparr>dr_spilled := BT_SET (dr_spilled drp1) r, dr_active := BT_SET (dr_active drp1) r\<rparr>
    else drp1\<lparr>dr_active := BT_SET (dr_active drp1) r\<rparr>"
  have "dt_regset_xalloc drp1 r dlp = Some (True, ?drp, foldl dt_irlist_append dlp ?ns)"
    using assms i(3) by (simp add: dt_regset_xalloc_def xtaken_def regs_ok_def spill_code)
  moreover have "stores ?ns" using assms(3) by (auto simp: stores_def)
  moreover have "xtaken drp (insert r R) ?drp" using assms l by (auto simp: xtaken_def)
  ultimately show ?thesis by blast
qed

lemma free_taken:
  assumes "regs_ok drp" "xtaken drp R drp1" "r < 9" "r \<in> R"
  shows "\<exists>drp2 ns. dt_regset_free drp1 r dlp = Some (drp2, foldl dt_irlist_append dlp ns) \<and> loads ns \<and> xtaken drp (R - {r}) drp2"
proof -
  note i = regs_okD [OF assms(1,3)]
  have l: "r div 64 < length (dr_active drp1)" "r div 64 < length (dr_spilled drp1)" using i assms(2) by (simp_all add: xtaken_def)
  let ?ns = "if active drp r then [I (BPF_LOAD BPF_DW r BPF_REG_FP (DT_STK_SPILL r))] else []"
  let ?drp = "if active drp r then drp1\<lparr>dr_spilled := BT_CLEAR (dr_spilled drp1) r\<rparr> else drp1\<lparr>dr_active := BT_CLEAR (dr_active drp1) r\<rparr>"
  have "dt_regset_free drp1 r dlp = Some (?drp, foldl dt_irlist_append dlp ?ns)"
    using assms i(3) by (simp add: dt_regset_free_def xtaken_def regs_ok_def spill_code)
  moreover have "loads ?ns" using assms(3) by (auto simp: loads_def)
  moreover have "xtaken drp (R - {r}) ?drp" using assms l i(3) by (auto simp: xtaken_def)
  ultimately show ?thesis by blast
qed

lemma xalloc_from_taken:
  assumes "regs_ok drp" "xtaken drp R drp1" "distinct rs" "\<forall>r \<in> set rs. r < 9 \<and> r \<notin> R"
  shows "\<exists>drp2 ns. xalloc_from drp1 rs dlp = Some (True, drp2, foldl dt_irlist_append dlp ns) \<and> stores ns \<and> xtaken drp (R \<union> set rs) drp2"
  using assms(2-4)
proof (induction rs arbitrary: R drp1 dlp)
  case (Cons r rs)
  obtain drp2 ns where a: "dt_regset_xalloc drp1 r dlp = Some (True, drp2, foldl dt_irlist_append dlp ns)" "stores ns" "xtaken drp (insert r R) drp2"
    using xalloc_taken [OF assms(1) Cons.prems(1)] Cons.prems(3) by fastforce
  obtain drp3 ms where b: "xalloc_from drp2 rs (foldl dt_irlist_append dlp ns) = Some (True, drp3, foldl dt_irlist_append (foldl dt_irlist_append dlp ns) ms)"
    "stores ms" "xtaken drp (insert r R \<union> set rs) drp3"
    using Cons.IH [OF a(3), of "foldl dt_irlist_append dlp ns"] Cons.prems(2,3) by auto
  show ?case using a b by (intro exI [of _ drp3] exI [of _ "ns @ ms"]) (auto simp: stores_def)
qed (auto simp: stores_def intro!: exI [of _ "[]"])

lemma free_regs_taken:
  assumes "regs_ok drp" "xtaken drp R drp1" "distinct rs" "\<forall>r \<in> set rs. r < 9 \<and> r \<in> R"
  shows "\<exists>drp2 ns. free_regs drp1 rs dlp = Some (drp2, foldl dt_irlist_append dlp ns) \<and> loads ns \<and> xtaken drp (R - set rs) drp2"
  using assms(2-4)
proof (induction rs arbitrary: R drp1 dlp)
  case (Cons r rs)
  obtain drp2 ns where a: "dt_regset_free drp1 r dlp = Some (drp2, foldl dt_irlist_append dlp ns)" "loads ns" "xtaken drp (R - {r}) drp2"
    using free_taken [OF assms(1) Cons.prems(1)] Cons.prems(3) by fastforce
  obtain drp3 ms where b: "free_regs drp2 rs (foldl dt_irlist_append dlp ns) = Some (drp3, foldl dt_irlist_append (foldl dt_irlist_append dlp ns) ms)"
    "loads ms" "xtaken drp (R - {r} - set rs) drp3"
    using Cons.IH [OF a(3), of "foldl dt_irlist_append dlp ns"] Cons.prems(2,3) by auto
  have "R - set (r # rs) = R - {r} - set rs" by auto
  then show ?case using a b by (intro exI [of _ drp3] exI [of _ "ns @ ms"]) (auto simp: loads_def)
qed (auto simp: loads_def intro!: exI [of _ "[]"])

lemma foldl_code: "s\<lparr>pcb_regs := drp, pcb_ir := foldl dt_irlist_append (pcb_ir s) ns\<rparr> = (code s ns)\<lparr>pcb_regs := drp\<rparr>"
  by (simp add: code_def)

lemma cg_take:
  assumes "regs_ok drp" "xtaken drp R (pcb_regs s)" "r < 9" "r \<notin> R"
  shows "\<exists>drp2 ns. cg_xalloc r s = Some ((code s ns)\<lparr>pcb_regs := drp2\<rparr>) \<and> stores ns \<and> xtaken drp (insert r R) drp2"
  using xalloc_taken [OF assms, of "pcb_ir s"] by (auto simp: cg_xalloc_def foldl_code) blast

lemma cg_give:
  assumes "regs_ok drp" "xtaken drp R (pcb_regs s)" "r < 9" "r \<in> R"
  shows "\<exists>drp2 ns. cg_free r s = Some ((code s ns)\<lparr>pcb_regs := drp2\<rparr>) \<and> loads ns \<and> xtaken drp (R - {r}) drp2"
  using free_taken [OF assms, of "pcb_ir s"] by (auto simp: cg_free_def foldl_code) blast

lemma cg_take_args:
  assumes "regs_ok drp" "xtaken drp R (pcb_regs s)" "R \<inter> {1..<6} = {}"
  shows "\<exists>drp2 ns. cg_xalloc_args s = Some ((code s ns)\<lparr>pcb_regs := drp2\<rparr>) \<and> stores ns \<and> xtaken drp (R \<union> {1..<6}) drp2"
proof -
  have "\<forall>r \<in> set [1..<6]. r < 9 \<and> r \<notin> R" using assms(3) by auto
  from xalloc_from_taken [OF assms(1,2) distinct_upt this, of "pcb_ir s"]
  show ?thesis by (auto simp: cg_xalloc_args_def dt_regset_xalloc_args_def foldl_code) blast
qed

lemma cg_give_args:
  assumes "regs_ok drp" "xtaken drp R (pcb_regs s)" "{1..<6} \<subseteq> R"
  shows "\<exists>drp2 ns. cg_free_args s = Some ((code s ns)\<lparr>pcb_regs := drp2\<rparr>) \<and> loads ns \<and> xtaken drp (R - {1..<6}) drp2"
proof -
  have "\<forall>r \<in> set [1..<6]. r < 9 \<and> r \<in> R" using assms(3) by auto
  from free_regs_taken [OF assms(1,2) distinct_upt this, of "pcb_ir s"]
  show ?thesis by (auto simp: cg_free_args_def dt_regset_free_args_def foldl_code) blast
qed

lemma code_regs [simp]: "(code (s\<lparr>pcb_regs := drp\<rparr>) ns) = (code s ns)\<lparr>pcb_regs := drp\<rparr>"
  by (simp add: code_def)

lemma code_code [simp]: "code (code s ns) ms = code s (ns @ ms)"
  by (simp add: code_def)

definition perr_args :: "int \<Rightarrow> int \<Rightarrow> int \<Rightarrow> irnode list" where
  "perr_args off fault illval =
     [I (BPF_LOAD BPF_DW BPF_REG_1 BPF_REG_FP DT_STK_DCTX), I (BPF_MOV_IMM BPF_REG_2 off), I (BPF_MOV_IMM BPF_REG_3 fault),
      I (BPF_MOV_IMM BPF_REG_4 illval)]"

lemma dt_cg_probe_error_code:
  assumes "regs_ok (pcb_regs s)"
  shows "\<exists>st st0 ld. dt_cg_probe_error e off fault illval s = Some (code s (st @ perr_args off fault illval @ st0 @
      [X (BPF_CALL_FUNC (uint (di_id (dt_dlib_get_func e ''dt_probe_error'')))) (dt_dlib_get_func e ''dt_probe_error'')] @ ld @ [I BPF_RETURN])) \<and>
     stores st \<and> stores st0 \<and> loads ld"
proof -
  let ?d = "pcb_regs s"
  let ?c = "[X (BPF_CALL_FUNC (uint (di_id (dt_dlib_get_func e ''dt_probe_error'')))) (dt_dlib_get_func e ''dt_probe_error'')]"
  have x0: "xtaken ?d {} ?d" by (simp add: xtaken_none)
  obtain d1 st where a: "cg_xalloc_args s = Some ((code s st)\<lparr>pcb_regs := d1\<rparr>)" "stores st" "xtaken ?d ({} \<union> {1..<6}) d1"
    using cg_take_args [OF assms x0] by auto
  define s1 where "s1 = (code s (st @ perr_args off fault illval))\<lparr>pcb_regs := d1\<rparr>"
  have x1: "xtaken ?d {1..<6} (pcb_regs s1)" using a(3) by (simp add: s1_def)
  obtain d2 st0 where b: "cg_xalloc 0 s1 = Some ((code s1 st0)\<lparr>pcb_regs := d2\<rparr>)" "stores st0" "xtaken ?d (insert 0 {1..<6}) d2"
    using cg_take [OF assms x1, of 0] by auto
  define s2 where "s2 = (code s1 (st0 @ ?c))\<lparr>pcb_regs := d2\<rparr>"
  have x2: "xtaken ?d (insert 0 {1..<6}) (pcb_regs s2)" using b(3) by (simp add: s2_def)
  obtain d3 ld where g: "cg_free_args s2 = Some ((code s2 ld)\<lparr>pcb_regs := d3\<rparr>)" "loads ld" "xtaken ?d (insert 0 {1..<6} - {1..<6}) d3"
    using cg_give_args [OF assms x2] by auto
  define s3 where "s3 = (code s2 ld)\<lparr>pcb_regs := d3\<rparr>"
  have "insert 0 {1..<6} - {1..<6} = {0 :: nat}" by auto
  then have x3: "xtaken ?d {0} (pcb_regs s3)" using g(3) by (simp add: s3_def)
  obtain d4 ld0 where h: "cg_free 0 s3 = Some ((code s3 ld0)\<lparr>pcb_regs := d4\<rparr>)" "loads ld0" "xtaken ?d ({0} - {0}) d4"
    using cg_give [OF assms x3, of 0] by auto
  have d4: "d4 = ?d" using h(3) xtaken_none by simp
  have r: "(code s ns)\<lparr>pcb_regs := pcb_regs s\<rparr> = code s ns" for ns by (simp add: code_def)
  have "dt_cg_probe_error e off fault illval s = Some (code s (st @ perr_args off fault illval @ st0 @ ?c @ (ld @ ld0) @ [I BPF_RETURN]))"
    using a(1) b(1) g(1) h(1) d4 r
    by (simp add: dt_cg_probe_error_def Let_def s1_def s2_def s3_def perr_args_def)
  moreover have "loads (ld @ ld0)" using g(2) h(2) by (auto simp: loads_def)
  ultimately show ?thesis using a(2) b(2) by blast
qed

lemma plain_append: "plain a \<Longrightarrow> plain b \<Longrightarrow> plain (a @ b)"
  by (auto simp: plain_def lddw_ok_append)

lemma nine: "r < (9 :: nat) \<longleftrightarrow> r \<in> {0, 1, 2, 3, 4, 5, 6, 7, 8}"
  by auto

lemma spill_slot_apart:
  assumes "r < 9"
  shows "apart (fp - 72) 8 (fp + off16 (DT_STK_SPILL r)) 8"
  using assms unfolding nine by (auto simp: DT_STK_SPILL_def DT_STK_DCTX_def off16_small apart_def)

lemma ir_step_seq:
  assumes "at_code P i (n # ns)" "exec_insn ext (di_instr n) (nth_instr P (Suc i)) m = Next m'"
  shows "ir_steps ext P (At i m) (At (Suc i) m')" "at_code P (Suc i) ns"
  using assms by (auto simp: at_code_Cons ir_step_at simp del: ir_step.simps intro: r_into_rtranclp)

lemma stores_run:
  assumes "stores ns" "at_code P i ns" "m_regs m 10 = c_fp c"
  shows "\<exists>m'. ir_steps ext P (At i m) (At (i + length ns) m') \<and> m_regs m' = m_regs m \<and>
    mem_load 8 (m_mem m') (c_fp c - 72) = mem_load 8 (m_mem m) (c_fp c - 72)"
  using assms
proof (induction ns arbitrary: i m)
  case (Cons n ns)
  obtain r where r: "r < 9" "n = I (BPF_STORE BPF_DW BPF_REG_FP (DT_STK_SPILL r) r)" using Cons.prems(1) by (auto simp: stores_def)
  let ?m = "set_mem (mem_store 8 (m_mem m) (c_fp c + off16 (DT_STK_SPILL r)) (m_regs m r)) m"
  have "exec_insn ext (di_instr n) (nth_instr P (Suc i)) m = Next ?m"
    using r(2) Cons.prems(3) by (simp add: insn_simps size_bytes_def)
  note st = ir_step_seq [OF Cons.prems(2) this]
  have "\<exists>m'. ir_steps ext P (At (Suc i) ?m) (At (Suc i + length ns) m') \<and> m_regs m' = m_regs ?m \<and>
    mem_load 8 (m_mem m') (c_fp c - 72) = mem_load 8 (m_mem ?m) (c_fp c - 72)"
    using Cons.IH [OF _ st(2), of ?m] Cons.prems(1,3) by (simp add: stores_def)
  then obtain m' where "ir_steps ext P (At (Suc i) ?m) (At (Suc i + length ns) m')" "m_regs m' = m_regs m"
    "mem_load 8 (m_mem m') (c_fp c - 72) = mem_load 8 (m_mem m) (c_fp c - 72)"
    using mem_load_store_apart [OF spill_slot_apart [OF r(1)]] by auto
  then show ?case using rtranclp_trans [OF st(1)] by auto
qed auto

lemma loads_run:
  assumes "loads ns" "at_code P i ns"
  shows "\<exists>m'. ir_steps ext P (At i m) (At (i + length ns) m')"
  using assms
proof (induction ns arbitrary: i m)
  case (Cons n ns)
  obtain r where r: "n = I (BPF_LOAD BPF_DW r BPF_REG_FP (DT_STK_SPILL r))" using Cons.prems(1) by (auto simp: loads_def)
  let ?m = "set_reg r (mem_load 8 (m_mem m) (m_regs m 10 + off16 (DT_STK_SPILL r))) m"
  have "exec_insn ext (di_instr n) (nth_instr P (Suc i)) m = Next ?m"
    using r by (simp add: insn_simps size_bytes_def)
  note st = ir_step_seq [OF Cons.prems(2) this]
  obtain m' where "ir_steps ext P (At (Suc i) ?m) (At (Suc i + length ns) m')"
    using Cons.IH [OF _ st(2), of ?m] Cons.prems(1) by (auto simp: loads_def)
  then show ?case using rtranclp_trans [OF st(1)] by auto
qed auto

lemma perr_args_run:
  assumes "at_code P i (perr_args off fault illval)" "m_regs m 10 = c_fp c" "mem_load 8 (m_mem m) (c_fp c - 72) = c_dctx c"
  shows "ir_steps ext P (At i m) (At (i + 4)
    (m\<lparr>m_regs := (m_regs m)(1 := c_dctx c, 2 := imm32 off, 3 := imm32 fault, 4 := imm32 illval)\<rparr>))"
proof -
  have o: "m_regs m 10 + off16 DT_STK_DCTX = c_fp c - 72" using assms(2) by (simp add: DT_STK_DCTX_def off16_small)
  have "i + 4 = Suc (Suc (Suc (Suc i)))" by simp
  then show ?thesis using assms(1,3) o
    by (intro ir_run_steps [where k = "Suc (Suc (Suc (Suc 0)))"])
      (simp add: perr_args_def at_code_simps run_simps size_bytes_def set_reg_def del: ir_step.simps)
qed

definition env_ok :: "ctx \<Rightarrow> 'ty cgenv \<Rightarrow> bool" where
  "env_ok c e \<longleftrightarrow> ctx_ok c \<and> c_perr c = uint (di_id (dt_dlib_get_func e ''dt_probe_error''))"

lemma dt_cg_probe_error_reports:
  assumes "env_ok c e" "regs_ok (pcb_regs s)" "imm32 fault = flt"
  shows "\<exists>seg. dt_cg_probe_error e (- 1) fault 0 s = Some (code s seg) \<and> plain seg \<and>
    (\<forall>P i m. at_code P i seg \<and> m_regs m 10 = c_fp c \<and> lay_mem c (m_mem m) \<longrightarrow> fails c P (At i m) (Fault flt))"
proof -
  let ?x = "X (BPF_CALL_FUNC (c_perr c)) (dt_dlib_get_func e ''dt_probe_error'')"
  let ?a = "perr_args (- 1) fault 0"
  obtain st st0 ld where g: "dt_cg_probe_error e (- 1) fault 0 s = Some (code s (st @ ?a @ st0 @ [?x] @ ld @ [I BPF_RETURN]))"
    "stores st" "stores st0" "loads ld"
    using dt_cg_probe_error_code [OF assms(2), of e "- 1" fault 0] assms(1) unfolding env_ok_def by metis
  have spl: "plain ns" if "stores ns \<or> loads ns" for ns
    using that
  proof (induction ns)
    case (Cons n ns)
    then have "plain ns" by (auto simp: stores_def loads_def)
    moreover have "di_label n = 0" "\<not> is_branch (di_instr n)" "\<not> is_lddw (di_instr n)"
      using Cons.prems by (auto simp: stores_def loads_def insn_kinds)
    ultimately show ?case by (simp add: plain_def lddw_ok_plain)
  qed (simp add: plain_def)
  have "plain st" "plain st0" "plain ld" using spl g(2-4) by blast+
  moreover have "plain ?a" "plain [?x]" "plain [I BPF_RETURN]" by (simp_all add: plain_def perr_args_def insn_kinds)
  ultimately have "plain (st @ ?a @ st0 @ [?x] @ ld @ [I BPF_RETURN])" by (intro plain_append)
  moreover have "fails c P (At i m) (Fault flt)"
    if p: "at_code P i (st @ ?a @ st0 @ [?x] @ ld @ [I BPF_RETURN])" "m_regs m 10 = c_fp c" "lay_mem c (m_mem m)" for P i m
  proof -
    let ?i1 = "i + length st" let ?i2 = "?i1 + 4" let ?i3 = "?i2 + length st0" let ?i4 = "Suc ?i3 + length ld"
    have len: "length ?a = 4" by (simp add: perr_args_def)
    have c: "at_code P i st" "at_code P ?i1 ?a" "at_code P ?i2 st0" "at_code P ?i3 [?x]" "at_code P (Suc ?i3) ld" "at_code P ?i4 [I BPF_RETURN]"
      using p(1) by (simp_all add: at_code_simps len add.assoc)
    obtain m1 where m1: "ir_steps (c_ext c) P (At i m) (At ?i1 m1)" "m_regs m1 = m_regs m"
      "mem_load 8 (m_mem m1) (c_fp c - 72) = c_dctx c"
      using stores_run [OF g(2) c(1) p(2), of "c_ext c"] p(3) by (auto simp: lay_mem_def)
    let ?m2 = "m1\<lparr>m_regs := (m_regs m1)(1 := c_dctx c, 2 := imm32 (- 1), 3 := imm32 fault, 4 := imm32 0)\<rparr>"
    have s2: "ir_steps (c_ext c) P (At ?i1 m1) (At ?i2 ?m2)" using perr_args_run [OF c(2) _ m1(3)] m1(2) p(2) by simp
    obtain m3 where m3: "ir_steps (c_ext c) P (At ?i2 ?m2) (At ?i3 m3)" "m_regs m3 = m_regs ?m2"
      using stores_run [OF g(3) c(3), of ?m2 c "c_ext c"] m1(2) p(2) by auto
    obtain m4 where "c_ext c (BPF_CALL_FUNC (c_perr c)) m3 = Some m4" using assms(1) unfolding env_ok_def ctx_ok_def by blast
    then have "exec_insn (c_ext c) (di_instr ?x) (nth_instr P (Suc ?i3)) m3 = Next m4" by (simp add: insn_simps)
    note s4 = ir_step_seq [OF c(4) this]
    obtain m5 where s5: "ir_steps (c_ext c) P (At (Suc ?i3) m4) (At ?i4 m5)" using loads_run [OF g(4) c(5)] by blast
    have "ir_steps (c_ext c) P (At ?i4 m5) (Done m5)"
      using c(6) by (intro r_into_rtranclp) (simp add: at_code_one ir_step_at insn_simps del: ir_step.simps)
    then have "ir_steps (c_ext c) P (At ?i3 m3) (Done m5)" using s4(1) s5 by (meson rtranclp_trans)
    moreover have "ir_steps (c_ext c) P (At i m) (At ?i3 m3)" using m1(1) s2 m3(1) by (meson rtranclp_trans)
    moreover have "nth_instr P ?i3 = Some (BPF_CALL_FUNC (c_perr c))" using c(4) by (simp add: at_code_one nth_instr_at)
    moreover have "m_regs m3 1 = c_dctx c \<and> m_regs m3 2 = - 1 \<and> m_regs m3 3 = flt \<and> m_regs m3 4 = 0" using m3(2) assms(3) by simp
    ultimately show ?thesis unfolding fails.simps reports_def by blast
  qed
  ultimately show ?thesis using g(1) by blast
qed

section \<open>Constants, null checks, arithmetic\<close>

lemma seg_runs_mono: "seg_runs c K seg r ev \<Longrightarrow> K' \<subseteq> K \<Longrightarrow> seg_runs c K' seg r ev"
  unfolding seg_runs_def by (fastforce split: sum.splits)

lemma gen_leaf:
  assumes "\<And>r. r < 9 \<Longrightarrow> plain (ns r) \<and> seg_runs c (- {r}) (ns r) r ev"
    and "\<And>s. cg_ok c s \<Longrightarrow> \<exists>s0. emits s [] s0 \<and> pcb_regs s0 = pcb_regs s \<and> dl_label (pcb_ir s0) = dl_label (pcb_ir s) \<and>
       f s = do { (r, s) \<leftarrow> cg_alloc s0; Some (r, None, code s (ns r)) }"
  shows "gen c 1 f ev"
proof (rule genI)
  fix s assume s: "cg_ok c s" "1 \<le> nfree (pcb_regs s)"
  obtain r where r: "top_free (pcb_regs s) r" using top_free_exists [of "pcb_regs s"] s(2) by auto
  note ok = cg_okD(1) [OF s(1)] and l = conjunct1 [OF top_free_less [OF r]] and k = top_free_keep [OF r]
  obtain s0 where s0: "emits s [] s0" "pcb_regs s0 = pcb_regs s" "dl_label (pcb_ir s0) = dl_label (pcb_ir s)"
    "f s = do { (r, s) \<leftarrow> cg_alloc s0; Some (r, None, code s (ns r)) }" using assms(2) [OF s(1)] by blast
  have "cg_alloc s0 = Some (r, s0\<lparr>pcb_regs := take_reg r (pcb_regs s)\<rparr>)" using cg_alloc_eq [of s0 r] ok r s0(2) by simp
  then have f: "f s = Some (r, None, (code s0 (ns r))\<lparr>pcb_regs := take_reg r (pcb_regs s)\<rparr>)" using s0(4) by simp
  have "emits s (ns r) (code s0 (ns r))" using emits_trans [OF s0(1) emits_code] by simp
  moreover have "seg_runs c (keep (pcb_regs s)) (ns r) r ev" using assms(1) [OF l] k by (auto intro: seg_runs_mono)
  ultimately show "\<exists>r seg s'. f s = Some (r, None, s') \<and> top_free (pcb_regs s) r \<and> pcb_regs s' = take_reg r (pcb_regs s) \<and>
      emits s seg s' \<and> seg_ok (dl_label (pcb_ir s)) (dl_label (pcb_ir s')) seg \<and> seg_runs c (keep (pcb_regs s)) seg r ev"
    using f r s0(3) assms(1) [OF l] plain_seg(1) [of "ns r"]
    by (intro exI [of _ r] exI [of _ "ns r"] exI [of _ "(code s0 (ns r))\<lparr>pcb_regs := take_reg r (pcb_regs s)\<rparr>"]) simp
qed

lemma leaf_runs:
  assumes "\<And>P i m. at_code P i seg \<Longrightarrow> m_regs m 10 = c_fp c \<Longrightarrow> lay_mem c (m_mem m) \<Longrightarrow>
    ir_steps (c_ext c) P (At i m) (At (i + length seg) (set_reg r (val (m_mem m)) m))"
  shows "seg_runs c (- {r}) seg r (\<lambda>mm. Inr (val mm, mm))"
proof (rule seg_runsI)
  fix P i and m :: mstate
  assume "at_code P i seg" "m_regs m 10 = c_fp c" and l: "lay_mem c (m_mem m)"
  from assms [OF this] l
  show "case Inr (val (m_mem m), m_mem m) of Inl flt \<Rightarrow> fails c P (At i m) flt | Inr (v, mm) \<Rightarrow> lay_mem c mm \<and>
    (\<exists>m'. ir_steps (c_ext c) P (At i m) (At (i + length seg) m') \<and> m_regs m' r = v \<and> m_mem m' = mm \<and> (\<forall>q\<in>- {r}. m_regs m' q = m_regs m q))"
    by (auto intro!: exI [of _ "set_reg r (val (m_mem m)) m"] split: if_splits)
qed

lemma setx_runs: "seg_runs c (- {r}) [I (fst (BPF_LDDW r v)), I (snd (BPF_LDDW r v))] r (\<lambda>mm. Inr (v, mm))"
  by (rule leaf_runs, rule ir_run_steps [where k = "Suc 0"]) (simp add: at_code_simps run_simps del: ir_step.simps)

lemma set_const_runs:
  "seg_runs c (- {r}) (if v > 0x7fffffff then [I (fst (BPF_LDDW r v)), I (snd (BPF_LDDW r v))] else [I (BPF_MOV_IMM r (uint v))]) r (\<lambda>mm. Inr (v, mm))"
proof (cases "v > 0x7fffffff")
  case False
  then have "uint v \<le> 0x7fffffff" by (simp add: word_less_def not_less)
  then have "imm32 (uint v) = v" using imm32_small [of "uint v"] uint_ge_0 [of v] by simp
  then have "seg_runs c (- {r}) [I (BPF_MOV_IMM r (uint v))] r (\<lambda>mm. Inr (v, mm))"
    by (intro leaf_runs ir_run_steps [where k = "Suc 0"]) (simp add: at_code_simps run_simps del: ir_step.simps)
  then show ?thesis using False by simp
qed (simp add: setx_runs)

lemma setx_code: "dt_cg_setx r v s = code s [I (fst (BPF_LDDW r v)), I (snd (BPF_LDDW r v))]"
  by (simp add: dt_cg_setx_def dt_cg_xsetx_def I_def dt_cg_node_alloc_def)

lemma gen_int: "gen c 1 (dt_cg_int v) (\<lambda>mm. Inr (v, mm))"
proof (rule gen_leaf)
  fix r :: nat
  let ?ns = "if v > 0x7fffffff then [I (fst (BPF_LDDW r v)), I (snd (BPF_LDDW r v))] else [I (BPF_MOV_IMM r (uint v))]"
  have "plain ?ns" by (simp add: plain_def insn_kinds ir_counts_def)
  then show "plain ?ns \<and> seg_runs c (- {r}) ?ns r (\<lambda>mm. Inr (v, mm))" using set_const_runs by blast
next
  fix s
  show "\<exists>s0. emits s [] s0 \<and> pcb_regs s0 = pcb_regs s \<and> dl_label (pcb_ir s0) = dl_label (pcb_ir s) \<and> dt_cg_int v s =
    do { (r, s) \<leftarrow> cg_alloc s0; Some (r, None, code s (if v > 0x7fffffff then [I (fst (BPF_LDDW r v)), I (snd (BPF_LDDW r v))] else [I (BPF_MOV_IMM r (uint v))])) }"
    by (intro exI [of _ s]) (auto simp: dt_cg_int_def setx_code emits_def intro!: Option.bind_cong)
qed

lemma emits_bump0: "emits (bump n s) seg (code (bump n s) seg) \<Longrightarrow> emits s seg (code (bump n s) seg)"
  using emits_bump by blast

lemma blk1I:
  assumes "\<And>P i m. prog_ok P \<Longrightarrow> at_code P i ns \<Longrightarrow> m_regs m 10 = c_fp c \<Longrightarrow> lay_mem c (m_mem m) \<Longrightarrow>
     (\<exists>flt. g (m_regs m r) (m_mem m) = Inl flt \<and> fails c P (At i m) flt) \<or>
     (\<exists>v. g (m_regs m r) (m_mem m) = Inr v \<and> ir_steps (c_ext c) P (At i m) (At (i + length ns) (set_reg r v m)))"
  shows "blk1 c ns r g"
  unfolding blk1_def
proof (intro allI impI, elim conjE)
  fix P i and m :: mstate assume "prog_ok P" "at_code P i ns" "m_regs m 10 = c_fp c" "lay_mem c (m_mem m)"
  from assms [OF this]
  show "case g (m_regs m r) (m_mem m) of Inl flt \<Rightarrow> fails c P (At i m) flt
     | Inr v \<Rightarrow> \<exists>m'. ir_steps (c_ext c) P (At i m) (At (i + length ns) m') \<and> m_regs m' r = v \<and> m_mem m' = m_mem m \<and>
         (\<forall>q. q \<noteq> r \<longrightarrow> m_regs m' q = m_regs m q)"
  proof (elim disjE exE conjE)
    fix v assume "g (m_regs m r) (m_mem m) = Inr v" "ir_steps (c_ext c) P (At i m) (At (i + length ns) (set_reg r v m))"
    then show ?thesis by (auto intro!: exI [of _ "set_reg r v m"])
  qed simp
qed

lemma seg_label_pos:
  assumes "seg_ok lo hi a" "l \<noteq> 0" "\<not> (lo \<le> l \<and> l < hi)"
  shows "label_pos (a @ ms) l = map_option (\<lambda>k. length a + k) (label_pos ms l)"
proof -
  have "l \<notin> set (labels_of a)" using assms(1,3) by (auto simp: seg_ok_def)
  then have "label_pos a l = None" using assms(2) by (auto simp: label_pos_None labels_of_def)
  then show ?thesis by (simp add: label_pos_append)
qed

lemma set_reg_same [simp]: "set_reg r (m_regs m r) m = m"
  by (simp add: set_reg_def)

text \<open>The test for zero in front of code that reports a fault.\<close>

definition zero_check :: "nat \<Rightarrow> nat \<Rightarrow> irnode list \<Rightarrow> irnode list" where
  "zero_check r l pe = I (BPF_BRANCH_IMM BPF_JNE r 0 (int l)) # pe @ [L l BPF_NOP]"

lemma zero_check_ok: "plain pe \<Longrightarrow> l \<noteq> 0 \<Longrightarrow> seg_ok l (Suc l) (zero_check r l pe)"
  by (auto simp: zero_check_def seg_ok_def plain_def insn_kinds is_jop_def intro!: lddw_ok_plain lddw_ok_append)

lemma zero_check_runs:
  assumes "plain pe" "l \<noteq> 0"
    and pe: "\<forall>P i m. at_code P i pe \<and> m_regs m 10 = c_fp c \<and> lay_mem c (m_mem m) \<longrightarrow> fails c P (At i m) flt"
  shows "blk1 c (zero_check r l pe) r (\<lambda>v mm. if v = 0 then Inl flt else Inr v)"
proof (rule blk1I)
  let ?seg = "zero_check r l pe"
  fix P i and m :: mstate assume p: "prog_ok P" "at_code P i ?seg" "m_regs m 10 = c_fp c" "lay_mem c (m_mem m)"
  have lp: "label_pos ?seg l = Some (Suc (length pe))"
    using seg_label_pos [OF plain_seg(1) [OF assms(1), of 0 0] assms(2)] assms(2) by (simp add: zero_check_def)
  then have lab: "label_pos P l = Some (Suc (i + length pe))" "l < 2 ^ 15"
    using at_code_label [OF p(1,2), of l] prog_ok_label [OF p(1,2), of l] assms(2) by simp_all
  have c: "i < length P" "P ! i = I (BPF_BRANCH_IMM BPF_JNE r 0 (int l))" "at_code P (Suc i) pe" "Suc (i + length pe) < length P"
    "P ! Suc (i + length pe) = L l BPF_NOP"
    using p(2) by (simp_all add: at_code_simps zero_check_def)
  show "(\<exists>f. (if m_regs m r = 0 then Inl flt else Inr (m_regs m r)) = Inl f \<and> fails c P (At i m) f) \<or>
    (\<exists>v. (if m_regs m r = 0 then Inl flt else Inr (m_regs m r)) = Inr v \<and> ir_steps (c_ext c) P (At i m) (At (i + length ?seg) (set_reg r v m)))"
  proof (cases "m_regs m r = 0")
    case True
    have "ir_steps (c_ext c) P (At i m) (At (Suc i) m)"
      using c True by (intro ir_run_steps [where k = "Suc 0"]) (simp add: run_simps del: ir_step.simps)
    then show ?thesis using True pe c(3) p(3,4) fails_steps by fastforce
  next
    case False
    have "ir_steps (c_ext c) P (At i m) (At (Suc (Suc (i + length pe))) m)"
      using c False lab by (intro ir_run_steps [where k = "Suc (Suc 0)"]) (simp add: run_simps del: ir_step.simps)
    then show ?thesis using False by (auto simp: zero_check_def)
  qed
qed

lemma post_notnull:
  assumes "env_ok c e"
  shows "post c (dt_cg_check_notnull e) (\<lambda>v mm. if v = 0 then Inl (Fault 1) else Inr v)"
  unfolding post_def
proof (intro allI impI)
  fix s r assume s: "cg_ok c s \<and> r < 9 \<and> active (pcb_regs s) r"
  let ?l = "dl_label (pcb_ir s)"
  let ?s1 = "code (bump (Suc 0) s) [I (BPF_BRANCH_IMM BPF_JNE r 0 (int ?l))]"
  have ok: "regs_ok (pcb_regs ?s1)" and l: "?l \<noteq> 0" using s by (auto simp: cg_ok_def)
  obtain pe where pe: "dt_cg_probe_error e (- 1) 1 0 ?s1 = Some (code ?s1 pe)" "plain pe"
    "\<forall>P i m. at_code P i pe \<and> m_regs m 10 = c_fp c \<and> lay_mem c (m_mem m) \<longrightarrow> fails c P (At i m) (Fault 1)"
    using dt_cg_probe_error_reports [OF assms ok, of 1 1] by auto
  let ?seg = "zero_check r ?l pe"
  have h: "dt_cg_check_notnull e r s = Some (code (bump (Suc 0) s) ?seg)"
    using pe(1) by (simp add: dt_cg_check_notnull_def cg_label_bump zero_check_def)
  moreover have "emits s ?seg (code (bump (Suc 0) s) ?seg)" by (intro emits_bump0 emits_code)
  ultimately show "\<exists>seg s'. dt_cg_check_notnull e r s = Some s' \<and> pcb_regs s' = pcb_regs s \<and> emits s seg s' \<and>
       seg_ok (dl_label (pcb_ir s)) (dl_label (pcb_ir s')) seg \<and> blk1 c seg r (\<lambda>v mm. if v = 0 then Inl (Fault 1) else Inr v)"
    using zero_check_ok [OF pe(2) l] zero_check_runs [OF pe(2) l pe(3)]
    by (intro exI [of _ ?seg] exI [of _ "code (bump (Suc 0) s) ?seg"]) simp
qed

lemma blk2I:
  assumes "\<And>P i m. prog_ok P \<Longrightarrow> at_code P i ns \<Longrightarrow>
     \<exists>v w. g (m_regs m rl) (m_regs m rr) = Inr v \<and> ir_steps (c_ext c) P (At i m) (At (i + length ns) (set_reg rl v (set_reg rr w m)))"
  shows "blk2 c ns rl rr g"
  unfolding blk2_def
proof (intro allI impI, elim conjE)
  fix P i and m :: mstate assume "prog_ok P" "at_code P i ns"
  from assms [OF this, of m] obtain v w where "g (m_regs m rl) (m_regs m rr) = Inr v"
    "ir_steps (c_ext c) P (At i m) (At (i + length ns) (set_reg rl v (set_reg rr w m)))" by blast
  then show "case g (m_regs m rl) (m_regs m rr) of Inl flt \<Rightarrow> fails c P (At i m) flt
     | Inr v \<Rightarrow> \<exists>m'. ir_steps (c_ext c) P (At i m) (At (i + length ns) m') \<and> m_regs m' rl = v \<and> m_mem m' = m_mem m \<and>
         (\<forall>q. q \<noteq> rl \<and> q \<noteq> rr \<longrightarrow> m_regs m' q = m_regs m q)"
    by (auto intro!: exI [of _ "set_reg rl v (set_reg rr w m)"])
qed

lemma alu_block:
  assumes "op AND 15 = 0" "\<And>a b. bpf_alu op a b = Some (g a b)"
  shows "blk2 c [I (BPF_ALU64_REG op rl rr)] rl rr (\<lambda>a b. Inr (g a b))"
proof (rule blk2I)
  fix P i and m :: mstate assume "prog_ok P" "at_code P i [I (BPF_ALU64_REG op rl rr)]"
  then have "ir_steps (c_ext c) P (At i m) (At (i + length [I (BPF_ALU64_REG op rl rr)]) (set_reg rl (g (m_regs m rl) (m_regs m rr)) m))"
    using assms by (intro ir_run_steps [where k = "Suc 0"]) (simp add: at_code_simps ir_step_at insn_simps insn_kinds del: ir_step.simps)
  then show "\<exists>v w. Inr (g (m_regs m rl) (m_regs m rr)) = Inr v \<and>
      ir_steps (c_ext c) P (At i m) (At (i + length [I (BPF_ALU64_REG op rl rr)]) (set_reg rl v (set_reg rr w m)))"
    using set_reg_same [of rr m] by metis
qed

lemma post2_alu:
  assumes "op AND 15 = 0" "\<And>a b. bpf_alu op a b = Some (g a b)"
  shows "post2 c (\<lambda>rl rr s. Some (code s [I (BPF_ALU64_REG op rl rr)])) (\<lambda>a b. Inr (g a b))"
  unfolding post2_def
proof (intro allI impI)
  fix s and rl rr :: nat
  have "plain [I (BPF_ALU64_REG op rl rr)]" using assms(1) by (simp add: plain_def insn_kinds)
  then show "\<exists>seg s'. Some (code s [I (BPF_ALU64_REG op rl rr)]) = Some s' \<and> pcb_regs s' = pcb_regs s \<and> emits s seg s' \<and>
      seg_ok (dl_label (pcb_ir s)) (dl_label (pcb_ir s')) seg \<and> blk2 c seg rl rr (\<lambda>a b. Inr (g a b))"
    using alu_block [OF assms] by (intro exI [of _ "[I (BPF_ALU64_REG op rl rr)]"] exI [of _ "code s [I (BPF_ALU64_REG op rl rr)]"]) (simp add: plain_seg)
qed

section \<open>Signed division\<close>

definition neg64 :: "u64 \<Rightarrow> bool" where
  "neg64 a \<longleftrightarrow> sint a < 0"

definition mag :: "u64 \<Rightarrow> u64" where
  "mag a = (if neg64 a then - a else a)"

definition by_sign :: "(u64 \<Rightarrow> u64 \<Rightarrow> u64) \<Rightarrow> u64 \<Rightarrow> u64 \<Rightarrow> u64" where
  "by_sign g a b = (if neg64 a = neg64 b then g (mag a) (mag b) else - g (mag a) (mag b))"

lemma uint_mag: "uint (mag a) = \<bar>sint a\<bar>"
proof -
  have r: "- (2 ^ 63) \<le> sint a" "sint a < 2 ^ 63" using sint_greater_eq [of a] sint_lt [of a] by simp_all
  have e: "uint (word_of_int k :: u64) = k" if "0 \<le> k" "k \<le> 2 ^ 63" for k
    using that by (simp add: unsigned_of_int take_bit_int_eq_self)
  have "uint (- a) = - sint a" if "sint a < 0"
    using e [of "- sint a"] r that by simp
  moreover have "uint a = sint a" if "\<not> sint a < 0"
    using e [of "sint a"] r that by simp
  ultimately show ?thesis by (simp add: mag_def neg64_def)
qed

lemma by_sign_div: "by_sign (div) a b = word_of_int (sint a sdiv sint b)"
proof -
  have u: "uint (mag a div mag b) = \<bar>sint a\<bar> div \<bar>sint b\<bar>" by (simp add: uint_div_distrib uint_mag)
  then have w: "mag a div mag b = word_of_int (\<bar>sint a\<bar> div \<bar>sint b\<bar>)" by (metis word_of_int_uint)
  show ?thesis unfolding by_sign_def w neg64_def signed_divide_int_def
    by (cases "sint a < 0"; cases "sint b < 0"; cases "sint a = 0"; cases "sint b = 0") (simp_all add: sgn_if)
qed

lemma by_sign_mod:
  assumes "0 \<le> sint b"
  shows "by_sign (mod) a b = word_of_int (sint a smod sint b)"
proof -
  have u: "uint (mag a mod mag b) = \<bar>sint a\<bar> mod \<bar>sint b\<bar>" by (simp add: uint_mod_distrib uint_mag)
  then have w: "mag a mod mag b = word_of_int (\<bar>sint a\<bar> mod \<bar>sint b\<bar>)" by (metis word_of_int_uint)
  have "\<bar>sint a\<bar> mod \<bar>sint b\<bar> = \<bar>sint a\<bar> - \<bar>sint a\<bar> div \<bar>sint b\<bar> * \<bar>sint b\<bar>" by (simp add: minus_div_mult_eq_mod)
  then have "sint a smod sint b = (if sint a < 0 then - (\<bar>sint a\<bar> mod \<bar>sint b\<bar>) else \<bar>sint a\<bar> mod \<bar>sint b\<bar>)"
    using assms by (cases "sint b = 0"; cases "sint a = 0") (auto simp: signed_modulo_int_def signed_divide_int_def sgn_if)
  then show ?thesis using assms unfolding by_sign_def w neg64_def by simp
qed

lemma signed_div_runs:
  assumes "op AND 15 = 0" "\<And>a b. bpf_alu op a b = Some (g a b)" "rl \<noteq> rr" "0 \<notin> {l1, l2, l3, l4, l5}" "distinct [l1, l2, l3, l4, l5]"
  shows "blk2 c (signed_div op rl rr l1 l2 l3 l4 l5) rl rr (\<lambda>a b. Inr (by_sign g a b))"
proof (rule blk2I)
  let ?ns = "signed_div op rl rr l1 l2 l3 l4 l5"
  fix P i and m :: mstate assume p: "prog_ok P" "at_code P i ?ns"
  note lab = at_code_label [OF p] prog_ok_label [OF p]
  have l: "l1 < 2 ^ 15" "l2 < 2 ^ 15" "l3 < 2 ^ 15" "l4 < 2 ^ 15" "l5 < 2 ^ 15"
    "label_pos P l1 = Some (Suc (Suc (Suc i)))" "label_pos P l2 = Some (Suc (Suc (Suc (Suc i))))"
    "label_pos P l3 = Some (Suc (Suc (Suc (Suc (Suc (Suc (Suc i)))))))"
    "label_pos P l4 = Some (Suc (Suc (Suc (Suc (Suc (Suc (Suc (Suc (Suc (Suc i))))))))))"
    "label_pos P l5 = Some (Suc (Suc (Suc (Suc (Suc (Suc (Suc (Suc (Suc (Suc (Suc i)))))))))))"
    using lab [of l1] lab [of l2] lab [of l3] lab [of l4] lab [of l5] assms(4,5) by (simp_all add: signed_div_def)
  let ?a = "m_regs m rl" and ?b = "m_regs m rr"
  have "ir_steps (c_ext c) P (At i m) (At (i + length ?ns) (set_reg rl (by_sign g ?a ?b) (set_reg rr (mag ?b) m)))"
    using p(2) l assms
    by (intro ir_run_steps [where k = "if neg64 ?a then if neg64 ?b then Suc (Suc (Suc (Suc (Suc (Suc 0))))) else Suc (Suc (Suc (Suc (Suc (Suc (Suc 0))))))
        else if neg64 ?b then Suc (Suc (Suc (Suc (Suc (Suc (Suc 0)))))) else Suc (Suc (Suc (Suc (Suc 0))))"])
      (simp add: signed_div_def at_code_simps ir_step_at nth_instr_at insn_simps insn_kinds is_jop_def bpf_cond_def set_reg_def
        by_sign_def mag_def neg64_def fun_upd_twist del: ir_step.simps)
  then show "\<exists>v w. Inr (by_sign g ?a ?b) = Inr v \<and> ir_steps (c_ext c) P (At i m) (At (i + length ?ns) (set_reg rl v (set_reg rr w m)))"
    by blast
qed

lemma signed_div_ok:
  assumes "op AND 15 = 0" "distinct [l1, l2, l3, l4, l5]" "{l1, l2, l3, l4, l5} \<subseteq> {lo..<hi}" "0 < lo"
  shows "seg_ok lo hi (signed_div op rl rr l1 l2 l3 l4 l5)"
  using assms by (auto simp: seg_ok_def signed_div_def insn_kinds is_jop_def)

lemma blk2_check:
  assumes "blk1 c a rr (\<lambda>v mm. if v = 0 then Inl flt else Inr v)" "blk2 c b rl rr g" "rl \<noteq> rr" "rl \<noteq> 10" "rr \<noteq> 10"
  shows "blk2 c (a @ b) rl rr (\<lambda>x y. if y = 0 then Inl flt else g x y)"
  unfolding blk2_def
proof (intro allI impI, elim conjE)
  fix P i and m :: mstate
  assume p: "prog_ok P" "at_code P i (a @ b)" and f: "m_regs m 10 = c_fp c" "lay_mem c (m_mem m)"
  then have at: "at_code P i a" "at_code P (i + length a) b" by (simp_all add: at_code_append)
  show "case if m_regs m rr = 0 then Inl flt else g (m_regs m rl) (m_regs m rr) of Inl flt \<Rightarrow> fails c P (At i m) flt
     | Inr v \<Rightarrow> \<exists>m'. ir_steps (c_ext c) P (At i m) (At (i + length (a @ b)) m') \<and> m_regs m' rl = v \<and> m_mem m' = m_mem m \<and>
         (\<forall>q. q \<noteq> rl \<and> q \<noteq> rr \<longrightarrow> m_regs m' q = m_regs m q)"
  proof (rule blk1E [OF assms(1) p(1) at(1) f])
    fix m1 assume m1: "(if m_regs m rr = 0 then Inl flt else Inr (m_regs m rr)) = Inr (m_regs m1 rr)"
      "ir_steps (c_ext c) P (At i m) (At (i + length a) m1)" "m_mem m1 = m_mem m" "\<And>q. q \<noteq> rr \<Longrightarrow> m_regs m1 q = m_regs m q"
    have f1: "m_regs m1 10 = c_fp c" "lay_mem c (m_mem m1)" using m1(3,4) f assms(5) by simp_all
    have e: "m_regs m rr \<noteq> 0" "m_regs m1 rr = m_regs m rr" "m_regs m1 rl = m_regs m rl"
      using m1(1,4) assms(3) by (auto split: if_splits)
    show ?thesis
    proof (rule blk2E [OF assms(2) p(1) at(2) f1])
      fix flt' assume "g (m_regs m1 rl) (m_regs m1 rr) = Inl flt'" "fails c P (At (i + length a) m1) flt'"
      then show ?thesis using e fails_steps [OF m1(2)] by simp
    next
      fix m2 assume "g (m_regs m1 rl) (m_regs m1 rr) = Inr (m_regs m2 rl)"
        "ir_steps (c_ext c) P (At (i + length a) m1) (At (i + length a + length b) m2)" "m_mem m2 = m_mem m1"
        "\<And>q. q \<noteq> rl \<Longrightarrow> q \<noteq> rr \<Longrightarrow> m_regs m2 q = m_regs m1 q"
      then show ?thesis using e m1(3,4) rtranclp_trans [OF m1(2)] by (auto simp: add.assoc)
    qed
  qed (auto split: if_splits)
qed

lemma imm32_four [simp]: "imm32 4 = 4"
  by (simp add: imm32_small)

lemma post2_signed_div:
  assumes "env_ok c e" "op AND 15 = 0" "\<And>a b. bpf_alu op a b = Some (g a b)"
  shows "post2 c (cg_signed_div e op) (\<lambda>a b. if b = 0 then Inl (Fault 4) else Inr (by_sign g a b))"
  unfolding post2_def
proof (intro allI impI)
  fix s rl rr assume s: "cg_ok c s \<and> rl < 9 \<and> rr < 9 \<and> rl \<noteq> rr \<and> active (pcb_regs s) rl \<and> active (pcb_regs s) rr"
  let ?l = "dl_label (pcb_ir s)" and ?v = "Suc (Suc (Suc (Suc (Suc (dl_label (pcb_ir s))))))"
  let ?s1 = "code (bump 6 s) [I (BPF_BRANCH_IMM BPF_JNE rr 0 (int ?v))]"
  have ok: "regs_ok (pcb_regs ?s1)" and l: "?l \<noteq> 0" using s by (auto simp: cg_ok_def)
  obtain pe where pe: "dt_cg_probe_error e (- 1) 4 0 ?s1 = Some (code ?s1 pe)" "plain pe"
    "\<forall>P i m. at_code P i pe \<and> m_regs m 10 = c_fp c \<and> lay_mem c (m_mem m) \<longrightarrow> fails c P (At i m) (Fault 4)"
    using dt_cg_probe_error_reports [OF assms(1) ok, of 4 4] by auto
  let ?d = "signed_div op rl rr ?l (Suc ?l) (Suc (Suc ?l)) (Suc (Suc (Suc ?l))) (Suc (Suc (Suc (Suc ?l))))"
  let ?seg = "zero_check rr ?v pe @ ?d"
  have b6: "bump (Suc (Suc (Suc (Suc (Suc (Suc 0)))))) s = bump 6 s" by (simp add: eval_nat_numeral)
  have "cg_signed_div e op rl rr s = Some (code (bump 6 s) ?seg)"
    using pe(1) by (simp add: cg_signed_div_def cg_label_bump b6 zero_check_def)
  moreover have "emits s ?seg (code (bump 6 s) ?seg)" by (intro emits_bump0 emits_code)
  moreover have "seg_ok ?l (?l + 6) ?seg"
    using zero_check_ok [OF pe(2), of ?v rr] signed_div_ok [OF assms(2), of ?l "Suc ?l" "Suc (Suc ?l)" "Suc (Suc (Suc ?l))" "Suc (Suc (Suc (Suc ?l)))" ?l ?v rl rr] l
    by (intro seg_ok_append2 [of ?v "Suc ?v" _ ?l ?v]) auto
  moreover have "blk2 c ?seg rl rr (\<lambda>a b. if b = 0 then Inl (Fault 4) else Inr (by_sign g a b))"
    using s zero_check_runs [OF pe(2) _ pe(3), of ?v rr] signed_div_runs [OF assms(2,3), of rl rr] l
    by (intro blk2_check) auto
  ultimately show "\<exists>seg s'. cg_signed_div e op rl rr s = Some s' \<and> pcb_regs s' = pcb_regs s \<and> emits s seg s' \<and>
      seg_ok ?l (dl_label (pcb_ir s')) seg \<and> blk2 c seg rl rr (\<lambda>a b. if b = 0 then Inl (Fault 4) else Inr (by_sign g a b))"
    by (intro exI [of _ ?seg] exI [of _ "code (bump 6 s) ?seg"]) simp
qed

section \<open>Arithmetic operators\<close>

lemma sem_post_id [simp]: "sem_post (\<lambda>v mm. Inr v) ev = ev"
  by (auto simp: sem_post_def sem_bind_def split: sum.splits prod.splits)

lemma post_id: "post c (\<lambda>r s. Some s) (\<lambda>v mm. Inr v)"
proof -
  have "plain []" by (simp add: plain_def)
  then have "post c (\<lambda>r s. Some (code s [])) (\<lambda>v mm. Inr v)"
    using post_code [of "\<lambda>r. []" c "\<lambda>v. v"] block_Nil by auto
  moreover have "code s [] = s" for s by (simp add: code_def)
  ultimately show ?thesis by simp
qed

lemma alu_imm_block:
  assumes "op AND 15 = 0" "\<And>a. bpf_alu op a (imm32 n) = Some (g a)"
  shows "plain [I (BPF_ALU64_IMM op r n)] \<and> block_runs c [I (BPF_ALU64_IMM op r n)] r g"
  using assms block_Cons [OF _ block_Nil, of "BPF_ALU64_IMM op r n" r g c]
  by (auto simp: plain_def insn_kinds insn_simps)

lemma post_alu_imm:
  assumes "op AND 15 = 0" "\<And>a. bpf_alu op a (imm32 n) = Some (g a)"
  shows "post c (\<lambda>r s. Some (code s [I (BPF_ALU64_IMM op r n)])) (\<lambda>v mm. Inr (g v))"
  using alu_imm_block [OF assms] by (intro post_code)

text \<open>The size of what a pointer points to.\<close>

definition ptr_size :: "'ty cgenv \<Rightarrow> 'ty nattr \<Rightarrow> int option" where
  "ptr_size e a = do {
     let type = ctf_type_resolve e (dn_type a);
     let kind = ctf_type_kind e type;
     type \<leftarrow> (if kind = CTF_K_ARRAY then ctf_array_info e type
              else if kind = CTF_K_POINTER then Some (ctf_type_reference e type) else None);
     Some (ctf_type_size e type) }"

definition sized :: "int option \<Rightarrow> bool" where
  "sized n \<longleftrightarrow> (case n of Some k \<Rightarrow> 0 < k \<and> k < 2 ^ 31 | None \<Rightarrow> False)"

lemma dt_cg_ptrsize_eq:
  "dt_cg_ptrsize e a op r s =
     map_option (\<lambda>n. if n = 1 then s else code s [I (BPF_ALU64_IMM op r n)]) (ptr_size e a)"
  by (auto simp: dt_cg_ptrsize_def ptr_size_def Let_def map_option_bind intro!: Option.bind_cong)

lemma post_ptrsize:
  assumes "sized (ptr_size e a)" "op AND 15 = 0" "\<And>x y. bpf_alu op x y = Some (g x y)" "\<And>x. g x 1 = x"
  shows "post c (dt_cg_ptrsize e a op) (\<lambda>v mm. Inr (g v (word_of_int (the (ptr_size e a)))))"
proof -
  obtain n where n: "ptr_size e a = Some n" "0 < n" "n < 2 ^ 31" using assms(1) by (auto simp: sized_def split: option.splits)
  have i: "imm32 n = word_of_int n" using n by (intro imm32_small) auto
  have e: "dt_cg_ptrsize e a op = (if n = 1 then (\<lambda>r s. Some s) else (\<lambda>r s. Some (code s [I (BPF_ALU64_IMM op r n)])))"
    using n(1) by (intro ext) (simp add: dt_cg_ptrsize_eq)
  show ?thesis
  proof (cases "n = 1")
    case True
    then show ?thesis using post_id [of c] assms(4) n(1) e by simp
  next
    case False
    then show ?thesis using post_alu_imm [of op n "\<lambda>v. g v (word_of_int n)" c] assms(2,3) i n(1) e by simp
  qed
qed

lemma post_if: "(b \<Longrightarrow> post c h g) \<Longrightarrow> post c (\<lambda>r s. if b then h r s else Some s) (\<lambda>v mm. if b then g v mm else Inr v)"
  using post_id [of c] by (cases b) simp_all

text \<open>
  What the operators compute.  Pointers are scaled by the size of what they point to, with a signed
  quotient for differences.  The code divides unsigned: a negative difference is \<open>Unchecked\<close> (unless the size is 1, where it
  does not divide).
\<close>

definition scale :: "bool \<Rightarrow> int option \<Rightarrow> u64 \<Rightarrow> u64" where
  "scale b n v = (if b then v * word_of_int (the n) else v)"

definition unscale :: "bool \<Rightarrow> int option \<Rightarrow> u64 \<Rightarrow> fault + u64" where
  "unscale b n v =
     (if \<not> b then Inr v
      else if sint v < 0 \<and> the n \<noteq> 1 then Inl Unchecked
      else Inr (word_of_int (sint v sdiv the n)))"

lemma udiv_pos:
  fixes v :: u64
  assumes "0 \<le> sint v" "0 < n" "n < 2 ^ 31"
  shows "v div word_of_int n = word_of_int (sint v sdiv n)"
proof -
  have s: "sint v = uint v" using uint_mag [of v] assms(1) by (simp add: mag_def neg64_def)
  have n: "uint (word_of_int n :: u64) = n" using assms(2,3) by (simp add: unsigned_of_int take_bit_int_eq_self)
  have "sint v sdiv n = uint v div n" unfolding s using assms(2) by (simp add: signed_divide_int_def sgn_if)
  moreover have "uint (v div word_of_int n) = uint v div n" by (simp add: uint_div_distrib n)
  ultimately show ?thesis by (metis word_of_int_uint)
qed

lemma unscale_div:
  assumes "b \<Longrightarrow> sized n"
  shows "unscale b n v = Inl Unchecked \<or> unscale b n v = Inr (if b then v div word_of_int (the n) else v)"
proof (cases "b \<and> \<not> (sint v < 0 \<and> the n \<noteq> 1)")
  case True
  then obtain k where k: "n = Some k" "0 < k" "k < 2 ^ 31" using assms by (auto simp: sized_def split: option.splits)
  have "v div word_of_int k = word_of_int (sint v sdiv k)"
  proof (cases "k = 1")
    case False
    then show ?thesis using True k by (intro udiv_pos) auto
  next
    case True
    have "sint v sdiv 1 = sint v" by (simp add: signed_divide_int_def sgn_if)
    then show ?thesis using True by simp
  qed
  then show ?thesis using True k(1) by (auto simp: unscale_def)
qed (auto simp: unscale_def)

definition arith_sem :: "'ty cgenv \<Rightarrow> 'ty nattr \<Rightarrow> tok \<Rightarrow> 'ty nattr \<Rightarrow> 'ty nattr \<Rightarrow> (u64 \<Rightarrow> u64 \<Rightarrow> fault + u64) \<Rightarrow> sem \<Rightarrow> sem \<Rightarrow> sem" where
  "arith_sem e a dn_op l r g evl evr =
     (let lptr = dt_node_is_pointer e l; rptr = dt_node_is_pointer e r;
          ptrop = (dn_op \<in> {DT_TOK_ADD, DT_TOK_SUB, DT_TOK_ADD_EQ, DT_TOK_SUB_EQ} \<and> \<not> (lptr \<and> rptr))
      in sem_post (\<lambda>v mm. unscale (lptr \<and> rptr) (ptr_size e r) v)
           (sem_bin g (sem_post (\<lambda>v mm. Inr (scale (ptrop \<and> rptr) (ptr_size e a) v)) evl)
              (sem_post (\<lambda>v mm. Inr (scale (ptrop \<and> lptr) (ptr_size e a) v)) evr)))"

definition arith_ok :: "'ty cgenv \<Rightarrow> 'ty nattr \<Rightarrow> tok \<Rightarrow> 'ty nattr \<Rightarrow> 'ty nattr \<Rightarrow> bool" where
  "arith_ok e a dn_op l r \<longleftrightarrow>
     (let lptr = dt_node_is_pointer e l; rptr = dt_node_is_pointer e r
      in if lptr \<and> rptr then dn_op = DT_TOK_SUB \<and> sized (ptr_size e r)
         else if lptr \<or> rptr then dn_op \<in> {DT_TOK_ADD, DT_TOK_SUB, DT_TOK_ADD_EQ, DT_TOK_SUB_EQ} \<longrightarrow> sized (ptr_size e a)
         else True)"

lemma post_scale:
  assumes "b \<Longrightarrow> sized (ptr_size e a)"
  shows "post c (\<lambda>r s. if b then dt_cg_ptrsize e a BPF_MUL r s else Some s) (\<lambda>v mm. Inr (scale b (ptr_size e a) v))"
    "post c (\<lambda>r s. if b then dt_cg_ptrsize e a BPF_DIV r s else Some s) (\<lambda>v mm. unscale b (ptr_size e a) v)"
proof -
  have "post c (\<lambda>r s. if b then dt_cg_ptrsize e a BPF_MUL r s else Some s) (\<lambda>v mm. if b then Inr (v * word_of_int (the (ptr_size e a))) else Inr v)"
    using assms by (intro post_if post_ptrsize) (simp_all add: bpf_alu_def)
  then show "post c (\<lambda>r s. if b then dt_cg_ptrsize e a BPF_MUL r s else Some s) (\<lambda>v mm. Inr (scale b (ptr_size e a) v))"
    by (simp add: scale_def if_distrib [of Inr])
  have "post c (\<lambda>r s. if b then dt_cg_ptrsize e a BPF_DIV r s else Some s) (\<lambda>v mm. if b then Inr (v div word_of_int (the (ptr_size e a))) else Inr v)"
    using assms by (intro post_if post_ptrsize) (simp_all add: bpf_alu_def)
  then show "post c (\<lambda>r s. if b then dt_cg_ptrsize e a BPF_DIV r s else Some s) (\<lambda>v mm. unscale b (ptr_size e a) v)"
    by (rule post_weaken) (use unscale_div [OF assms] in \<open>simp add: if_distrib [of Inr]\<close>)
qed

lemma gen_arith:
  assumes "gen c k1 (fl False) evl" "gen c k2 (fr False) evr" "arith_ok e a dn_op (dn_attrs l) (dn_attrs r)"
    and h: "post2 c (\<lambda>rl rr s. if (op = BPF_MOD \<or> op = BPF_DIV) \<and> nf a DT_NF_SIGNED then cg_signed_div e op rl rr s
       else Some (code s [I (BPF_ALU64_REG op rl rr)])) g"
  shows "gen c (max k1 (Suc k2)) (dt_cg_arithmetic_op e a dn_op l r op fl fr) (arith_sem e a dn_op (dn_attrs l) (dn_attrs r) g evl evr)"
proof -
  let ?lp = "dt_node_is_pointer e (dn_attrs l)" and ?rp = "dt_node_is_pointer e (dn_attrs r)"
  let ?po = "dn_op \<in> {DT_TOK_ADD, DT_TOK_SUB, DT_TOK_ADD_EQ, DT_TOK_SUB_EQ} \<and> \<not> (?lp \<and> ?rp)"
  let ?h = "\<lambda>rl rr s. if (op = BPF_MOD \<or> op = BPF_DIV) \<and> nf a DT_NF_SIGNED then cg_signed_div e op rl rr s
       else Some (code s [I (BPF_ALU64_REG op rl rr)])"
  have A: "post c (\<lambda>r s. if ?po \<and> ?rp then dt_cg_ptrsize e a BPF_MUL r s else Some s) (\<lambda>v mm. Inr (scale (?po \<and> ?rp) (ptr_size e a) v))"
    and B: "post c (\<lambda>r s. if ?po \<and> ?lp then dt_cg_ptrsize e a BPF_MUL r s else Some s) (\<lambda>v mm. Inr (scale (?po \<and> ?lp) (ptr_size e a) v))"
    and C: "post c (\<lambda>rg s. if ?lp \<and> ?rp then dt_cg_ptrsize e (dn_attrs r) BPF_DIV rg s else Some s) (\<lambda>v mm. unscale (?lp \<and> ?rp) (ptr_size e (dn_attrs r)) v)"
    using assms(3) by (intro post_scale; auto simp: arith_ok_def Let_def split: if_splits)+
  note G = gen_then [OF gen_bin [OF gen_then [OF assms(1) A] gen_then [OF assms(2) B] h] C]
  have ok: "(?lp \<and> ?rp \<and> dn_op \<noteq> DT_TOK_SUB) = False" using assms(3) by (auto simp: arith_ok_def Let_def)
  show ?thesis
  proof (rule gen_cong [OF G])
    fix s
    show "do { (rg, ts, s) \<leftarrow> do { (rl, lts, s) \<leftarrow> do { (r, ts, s) \<leftarrow> fl False s; s \<leftarrow> (if ?po \<and> ?rp then dt_cg_ptrsize e a BPF_MUL r s else Some s); Some (r, None, s) };
              (rr, rts, s) \<leftarrow> do { (r, ts, s) \<leftarrow> fr False s; s \<leftarrow> (if ?po \<and> ?lp then dt_cg_ptrsize e a BPF_MUL r s else Some s); Some (r, None, s) };
              s \<leftarrow> ?h rl rr s; s \<leftarrow> cg_free rr s; Some (rl, None, s) };
            s \<leftarrow> (if ?lp \<and> ?rp then dt_cg_ptrsize e (dn_attrs r) BPF_DIV rg s else Some s); Some (rg, None, s) } =
          dt_cg_arithmetic_op e a dn_op l r op fl fr s"
      unfolding dt_cg_arithmetic_op_def Let_def ok if_False by (simp add: Option.bind_assoc case_prod_beta' cong: if_cong)
  qed (simp_all add: arith_sem_def Let_def)
qed

end
