(* ===== verification/DTCgCond.thy ===== *)
theory DTCgCond
  imports DTCgGen
begin

unbundle bit_operations_syntax

text \<open>
  Generators with branches: negation, comparisons, the logical operators with their short cuts, and the
  conditional operator, which reaches back into the list.
\<close>

section \<open>Operators with labels of their own\<close>

lemma lddw_ok_seg: "seg_ok lo hi a \<Longrightarrow> lddw_ok a"
  by (simp add: seg_ok_def)

lemma gen_label_post:
  assumes "gen c k f ev" "\<And>r l. r < 9 \<Longrightarrow> 0 < l \<Longrightarrow> seg_ok l (l + n) (ns r l) \<and> blk1 c (ns r l) r g"
  shows "gen c k (\<lambda>s. do { (r, ts, s') \<leftarrow> f (bump n s); Some (r, None, code s' (ns r (dl_label (pcb_ir s)))) }) (sem_post g ev)"
proof (rule genI)
  fix s assume s: "cg_ok c s" "k \<le> nfree (pcb_regs s)"
  let ?l = "dl_label (pcb_ir s)"
  have l: "0 < ?l" using s(1) by (simp add: cg_ok_def)
  obtain r seg s' where f: "f (bump n s) = Some (r, None, s')" "top_free (pcb_regs s) r" "pcb_regs s' = take_reg r (pcb_regs s)"
    "emits (bump n s) seg s'" "seg_ok (?l + n) (dl_label (pcb_ir s')) seg" "seg_runs c (keep (pcb_regs s)) seg r ev"
    using genE [OF assms(1) cg_ok_bump [OF s(1)], of n] s(2) by (metis bump_simps(1,2))
  have r: "r < 9" "r \<notin> keep (pcb_regs s)" using f(2) top_free_less top_free_keep by blast+
  have n: "seg_ok ?l (?l + n) (ns r ?l)" "blk1 c (ns r ?l) r g" using assms(2) [OF r(1) l] by auto
  have le: "?l + n \<le> dl_label (pcb_ir s')" and em: "emits s seg s'" using emits_bump [OF f(4)] by auto
  have "seg_ok ?l (dl_label (pcb_ir s')) (seg @ ns r ?l)" using seg_ok_append2 [OF f(5) n(1)] le by simp
  then show "\<exists>r' seg s''. do { (r, ts, s') \<leftarrow> f (bump n s); Some (r, None, code s' (ns r ?l)) } = Some (r', None, s'') \<and> top_free (pcb_regs s) r' \<and>
      pcb_regs s'' = take_reg r' (pcb_regs s) \<and> emits s seg s'' \<and> seg_ok ?l (dl_label (pcb_ir s'')) seg \<and>
      seg_runs c (keep (pcb_regs s)) seg r' (sem_post g ev)"
    using f(1-3) emits_trans [OF em emits_code] seg_runs_blk1 [OF f(6) n(2) r(2)]
    by (intro exI [of _ r] exI [of _ "seg @ ns r ?l"] exI [of _ "code s' (ns r ?l)"]) simp
qed

lemma gen_label_bin:
  assumes "gen c k1 fl evl" "gen c k2 fr evr"
    and x: "\<And>r l. r < 9 \<Longrightarrow> 0 < l \<Longrightarrow> lddw_ok (x r l) \<and> blk1 c (x r l) r (\<lambda>v mm. Inr (h v))"
    and z: "\<And>rl rr l. rl < 9 \<Longrightarrow> rr < 9 \<Longrightarrow> rl \<noteq> rr \<Longrightarrow> 0 < l \<Longrightarrow> seg_ok l (l + n) (x rl l @ z rl rr l @ w rl rr l) \<and>
       lddw_ok (z rl rr l @ w rl rr l) \<and> blk2 c (z rl rr l @ w rl rr l) rl rr g"
  shows "gen c (max k1 (Suc k2)) (\<lambda>s. do { (rl, lts, s1) \<leftarrow> fl (bump n s);
       (rr, rts, s2) \<leftarrow> fr (code s1 (x rl (dl_label (pcb_ir s))));
       s3 \<leftarrow> cg_free rr (code s2 (z rl rr (dl_label (pcb_ir s))));
       Some (rl, None, code s3 (w rl rr (dl_label (pcb_ir s)))) })
     (sem_bin g (sem_post (\<lambda>v mm. Inr (h v)) evl) evr)"
proof (rule genI)
  fix s assume s: "cg_ok c s" "max k1 (Suc k2) \<le> nfree (pcb_regs s)"
  let ?l = "dl_label (pcb_ir s)" and ?d = "pcb_regs s"
  have l: "0 < ?l" using s(1) by (simp add: cg_ok_def)
  have k: "k1 \<le> nfree ?d" using s(2) by simp
  obtain rl a s1 where f: "fl (bump n s) = Some (rl, None, s1)" "top_free ?d rl" "pcb_regs s1 = take_reg rl ?d"
    "emits (bump n s) a s1" "seg_ok (?l + n) (dl_label (pcb_ir s1)) a" "seg_runs c (keep ?d) a rl evl"
    using genE [OF assms(1) cg_ok_bump [OF s(1)], of n] k by (metis bump_simps(1,2))
  have r: "rl < 9" "rl \<notin> keep ?d" using f(2) top_free_less top_free_keep by blast+
  note ok = cg_okD(1) [OF s(1)]
  have ok1: "regs_ok (take_reg rl ?d)" using regs_ok_take [OF ok r(1)] .
  let ?x = "x rl ?l"
  have em1: "emits s a s1" "?l + n \<le> dl_label (pcb_ir s1)" using emits_bump [OF f(4)] by auto
  have em2: "emits s (a @ ?x) (code s1 ?x)" using emits_trans [OF em1(1) emits_code] .
  have s1: "cg_ok c (code s1 ?x)" using cg_ok_emits [OF s(1) em2 _ ok1] f(3) by simp
  have "k2 \<le> nfree (pcb_regs (code s1 ?x))" using s(2) nfree_take [OF ok f(2)] f(3) by auto
  then obtain rr b s2 where g: "fr (code s1 ?x) = Some (rr, None, s2)" "top_free (take_reg rl ?d) rr" "pcb_regs s2 = take_reg rr (take_reg rl ?d)"
    "emits (code s1 ?x) b s2" "seg_ok (dl_label (pcb_ir s1)) (dl_label (pcb_ir s2)) b" "seg_runs c (keep (take_reg rl ?d)) b rr evr"
    using genE [OF assms(2) s1] f(3) by (metis code_simps(2,4))
  have q: "rr < 9" "rr \<notin> insert rl (keep ?d)" using g(2) top_free_less top_free_keep keep_take [OF ok r(1)] by blast+
  let ?z1 = "z rl rr ?l" let ?z2 = "w rl rr ?l" let ?z = "z rl rr ?l @ w rl rr ?l"
  have zz: "seg_ok ?l (?l + n) (?x @ ?z)" "lddw_ok ?z" "blk2 c ?z rl rr g" using z [OF r(1) q(1) _ l] q(2) by auto
  have xx: "lddw_ok ?x" "blk1 c ?x rl (\<lambda>v mm. Inr (h v))" using x [OF r(1) l] by auto
  have fr: "cg_free rr (code s2 ?z1) = Some ((code s2 ?z1)\<lparr>pcb_regs := take_reg rl ?d\<rparr>)" using cg_free_eq [OF ok1 g(2)] g(3) by simp
  have ab: "seg_ok (?l + n) (dl_label (pcb_ir s2)) (a @ b)"
    using seg_ok_append [OF f(5) g(5)] em1(2) emits_le [OF g(4)] by simp
  have "seg_ok ?l (dl_label (pcb_ir s2)) ((a @ b) @ ?x @ ?z)"
    using seg_ok_append2 [OF ab zz(1), of ?l "dl_label (pcb_ir s2)"] em1(2) emits_le [OF g(4)] by simp
  then have ok2: "seg_ok ?l (dl_label (pcb_ir s2)) ((a @ ?x) @ b @ ?z)"
    using xx(1) zz(2) lddw_ok_seg [OF f(5)] lddw_ok_seg [OF g(5)] by (rule_tac seg_ok_perm) (auto intro!: lddw_ok_append)
  have "seg_runs c (keep ?d) ((a @ ?x) @ b @ ?z) rl (sem_bin g (sem_post (\<lambda>v mm. Inr (h v)) evl) evr)"
    using seg_runs_blk2 [OF seg_runs_blk1 [OF f(6) xx(2) r(2)]] g(6) keep_take [OF ok r(1)] zz(3) r(2) q(2) by simp
  moreover have "emits s ((a @ ?x) @ b @ ?z) (code s2 ?z)" using emits_trans [OF em2 emits_trans [OF g(4) emits_code]] .
  ultimately show "\<exists>r' seg s'. do { (rl, lts, s1) \<leftarrow> fl (bump n s); (rr, rts, s2) \<leftarrow> fr (code s1 (x rl ?l));
       s3 \<leftarrow> cg_free rr (code s2 (z rl rr ?l)); Some (rl, None, code s3 (w rl rr ?l)) } = Some (r', None, s') \<and> top_free ?d r' \<and>
      pcb_regs s' = take_reg r' ?d \<and> emits s seg s' \<and> seg_ok ?l (dl_label (pcb_ir s')) seg \<and>
      seg_runs c (keep ?d) seg r' (sem_bin g (sem_post (\<lambda>v mm. Inr (h v)) evl) evr)"
    using f(1,2) g(1) fr ok2
    by (intro exI [of _ rl] exI [of _ "(a @ ?x) @ b @ ?z"] exI [of _ "(code s2 ?z)\<lparr>pcb_regs := take_reg rl ?d\<rparr>"]) simp
qed

definition of_cond :: "bool \<Rightarrow> u64" where
  "of_cond b = (if b then 1 else 0)"

lemma gen_neg:
  assumes "gen c k (fc False) ev"
  shows "gen c k (dt_cg_logical_neg fc) (sem_post (\<lambda>v mm. Inr (of_cond (v = 0))) ev)"
proof (rule gen_cong [OF gen_label_post [OF assms]])
  let ?ns = "\<lambda>r l. [I (BPF_BRANCH_IMM BPF_JEQ r 0 (int l)), I (BPF_MOV_IMM r 0), I (BPF_JUMP (int (Suc l))), L l (BPF_MOV_IMM r 1), L (Suc l) BPF_NOP]"
  fix r l :: nat assume l: "0 < l"
  have "seg_ok l (l + 2) (?ns r l)" using l by (auto simp: seg_ok_def insn_kinds is_jop_def br_label_simps [of "Suc l", simplified])
  moreover have "blk1 c (?ns r l) r (\<lambda>v mm. Inr (of_cond (v = 0)))"
    unfolding of_cond_def using l by (intro block_blk1 neg_block) auto
  ultimately show "seg_ok l (l + 2) (?ns r l) \<and> blk1 c (?ns r l) r (\<lambda>v mm. Inr (of_cond (v = 0)))" by simp
next
  fix s
  show "do { (r, ts, s') \<leftarrow> fc False (bump 2 s); Some (r, None, code s' [I (BPF_BRANCH_IMM BPF_JEQ r 0 (int (dl_label (pcb_ir s)))), I (BPF_MOV_IMM r 0),
       I (BPF_JUMP (int (Suc (dl_label (pcb_ir s))))), L (dl_label (pcb_ir s)) (BPF_MOV_IMM r 1), L (Suc (dl_label (pcb_ir s))) BPF_NOP]) } = dt_cg_logical_neg fc s"
    by (simp add: dt_cg_logical_neg_def cg_label_bump numeral_2_eq_2)
qed simp_all

lemma code_Nil [simp]: "code s [] = s"
  by (simp add: code_def)

lemma regs_idem: "m_regs m r = v \<Longrightarrow> m\<lparr>m_regs := (m_regs m)(r := v)\<rparr> = m"
  by auto

lemma compare_block:
  assumes "is_jop op" "\<And>a b. bpf_cond op a b = Some (g a b)" "0 < l" "rl \<noteq> rr"
  shows "blk2 c ([I (BPF_BRANCH_REG op rl rr (int l))] @ [I (BPF_MOV_IMM rl 0), I (BPF_JUMP (int (Suc l))), L l (BPF_MOV_IMM rl 1), L (Suc l) BPF_NOP])
    rl rr (\<lambda>a b. Inr (of_cond (g a b)))"
proof (rule blk2I)
  let ?ns = "[I (BPF_BRANCH_REG op rl rr (int l))] @ [I (BPF_MOV_IMM rl 0), I (BPF_JUMP (int (Suc l))), L l (BPF_MOV_IMM rl 1), L (Suc l) BPF_NOP]"
  fix P i and m :: mstate assume p: "prog_ok P" "at_code P i ?ns"
  note lab = at_code_label [OF p] prog_ok_label [OF p]
  have l: "l < 2 ^ 15" "Suc l < 2 ^ 15" "label_pos P l = Some (Suc (Suc (Suc i)))" "label_pos P (Suc l) = Some (Suc (Suc (Suc (Suc i))))"
    using lab [of l] lab [of "Suc l"] assms(3) by simp_all
  let ?b = "g (m_regs m rl) (m_regs m rr)"
  have "ir_steps (c_ext c) P (At i m) (At (i + length ?ns) (set_reg rl (of_cond ?b) (set_reg rr (m_regs m rr) m)))"
    using p(2) l assms br_label_simps(3) [OF l(2)] kinds_ja [OF _ l(2)]
    by (intro ir_run_steps [where k = "if ?b then Suc (Suc (Suc 0)) else Suc (Suc (Suc (Suc 0)))"])
      (simp add: at_code_simps ir_step_at insn_simps insn_kinds set_reg_def of_cond_def fun_upd_twist del: ir_step.simps)
  then show "\<exists>v w. Inr (of_cond ?b) = Inr v \<and> ir_steps (c_ext c) P (At i m) (At (i + length ?ns) (set_reg rl v (set_reg rr w m)))"
    by blast
qed

lemma gen_compare:
  assumes "gen c k1 (fl False) evl" "gen c k2 (fr False) evr" "\<not> dt_node_is_string e (dn_attrs l)" "\<not> dt_node_is_string e (dn_attrs r)"
    "is_jop op" "\<And>a b. bpf_cond op a b = Some (g a b)"
  shows "gen c (max k1 (Suc k2)) (dt_cg_compare_op e l r op fl fr) (sem_bin (\<lambda>a b. Inr (of_cond (g a b))) evl evr)"
proof (rule gen_cong [OF gen_label_bin [OF assms(1,2), where x = "\<lambda>r l. []" and h = "\<lambda>v. v" and n = 2
      and z = "\<lambda>rl rr l. [I (BPF_BRANCH_REG op rl rr (int l))]"
      and w = "\<lambda>rl rr l. [I (BPF_MOV_IMM rl 0), I (BPF_JUMP (int (Suc l))), L l (BPF_MOV_IMM rl 1), L (Suc l) BPF_NOP]"
      and g = "\<lambda>a b. Inr (of_cond (g a b))"]])
  fix rl rr l' :: nat assume "rl \<noteq> rr" and l: "0 < l'"
  let ?z = "[I (BPF_BRANCH_REG op rl rr (int l'))] @ [I (BPF_MOV_IMM rl 0), I (BPF_JUMP (int (Suc l'))), L l' (BPF_MOV_IMM rl 1), L (Suc l') BPF_NOP]"
  have "seg_ok l' (l' + 2) ([] @ ?z)" using l assms(5) by (auto simp: seg_ok_def insn_kinds br_label_simps [of "Suc l'", simplified])
  moreover have "lddw_ok ?z" using assms(5) by (simp add: insn_kinds)
  ultimately show "seg_ok l' (l' + 2) ([] @ ?z) \<and> lddw_ok ?z \<and> blk2 c ?z rl rr (\<lambda>a b. Inr (of_cond (g a b)))"
    using compare_block [OF assms(5,6) l \<open>rl \<noteq> rr\<close>] by simp
next
  fix r l :: nat
  show "lddw_ok [] \<and> blk1 c [] r (\<lambda>v mm. Inr v)" using block_blk1 [OF block_Nil] by simp
next
  fix s
  show "do { (rl, lts, s1) \<leftarrow> fl False (bump 2 s); (rr, rts, s2) \<leftarrow> fr False (code s1 []);
       s3 \<leftarrow> cg_free rr (code s2 [I (BPF_BRANCH_REG op rl rr (int (dl_label (pcb_ir s))))]);
       Some (rl, None, code s3 [I (BPF_MOV_IMM rl 0), I (BPF_JUMP (int (Suc (dl_label (pcb_ir s))))), L (dl_label (pcb_ir s)) (BPF_MOV_IMM rl 1),
         L (Suc (dl_label (pcb_ir s))) BPF_NOP]) } = dt_cg_compare_op e l r op fl fr s"
    using assms(3,4) by (simp add: dt_cg_compare_op_def cg_label_bump numeral_2_eq_2)
qed simp_all

definition xor_first :: "nat \<Rightarrow> nat \<Rightarrow> irnode list" where
  "xor_first r l = [I (BPF_BRANCH_IMM BPF_JEQ r 0 (int l)), I (fst (BPF_LDDW r 1)), I (snd (BPF_LDDW r 1)), L l BPF_NOP]"

definition xor_second :: "nat \<Rightarrow> nat \<Rightarrow> nat \<Rightarrow> irnode list" where
  "xor_second rl rr l = [I (BPF_BRANCH_IMM BPF_JEQ rr 0 (int (Suc l))), I (fst (BPF_LDDW rr 1)), I (snd (BPF_LDDW rr 1)), L (Suc l) (BPF_ALU64_REG BPF_XOR rl rr)]"

lemma xor_first_runs:
  assumes "0 < l"
  shows "blk1 c (xor_first r l) r (\<lambda>v mm. Inr (of_cond (v \<noteq> 0)))"
proof (rule blk1I)
  fix P i and m :: mstate assume p: "prog_ok P" "at_code P i (xor_first r l)"
  have l: "l < 2 ^ 15" "label_pos P l = Some (Suc (Suc (Suc i)))"
    using at_code_label [OF p, of l] prog_ok_label [OF p, of l] assms by (simp_all add: xor_first_def)
  have "ir_steps (c_ext c) P (At i m) (At (i + length (xor_first r l)) (set_reg r (of_cond (m_regs m r \<noteq> 0)) m))"
    using p(2) l assms
    by (intro ir_run_steps [where k = "if m_regs m r = 0 then Suc (Suc 0) else Suc (Suc (Suc 0))"])
      (simp add: xor_first_def at_code_simps run_simps of_cond_def set_reg_def regs_idem del: ir_step.simps)
  then show "(\<exists>flt. Inr (of_cond (m_regs m r \<noteq> 0)) = Inl flt \<and> fails c P (At i m) flt) \<or>
      (\<exists>v. Inr (of_cond (m_regs m r \<noteq> 0)) = Inr v \<and> ir_steps (c_ext c) P (At i m) (At (i + length (xor_first r l)) (set_reg r v m)))"
    by blast
qed

lemma xor_second_runs:
  assumes "0 < l" "rl \<noteq> rr"
  shows "blk2 c (xor_second rl rr l) rl rr (\<lambda>a b. Inr (a XOR of_cond (b \<noteq> 0)))"
proof (rule blk2I)
  fix P i and m :: mstate assume p: "prog_ok P" "at_code P i (xor_second rl rr l)"
  have l: "Suc l < 2 ^ 15" "label_pos P (Suc l) = Some (Suc (Suc (Suc i)))"
    using at_code_label [OF p, of "Suc l"] prog_ok_label [OF p, of "Suc l"] by (simp_all add: xor_second_def)
  let ?a = "m_regs m rl" and ?b = "m_regs m rr"
  have "ir_steps (c_ext c) P (At i m) (At (i + length (xor_second rl rr l)) (set_reg rl (?a XOR of_cond (?b \<noteq> 0)) (set_reg rr (of_cond (?b \<noteq> 0)) m)))"
    using p(2) l assms br_label_simps(1) [OF l(1)]
    by (intro ir_run_steps [where k = "if ?b = 0 then Suc (Suc 0) else Suc (Suc (Suc 0))"])
      (simp add: xor_second_def at_code_simps run_simps of_cond_def set_reg_def fun_upd_twist fun_upd_idem del: ir_step.simps)
  then show "\<exists>v w. Inr (?a XOR of_cond (?b \<noteq> 0)) = Inr v \<and> ir_steps (c_ext c) P (At i m) (At (i + length (xor_second rl rr l)) (set_reg rl v (set_reg rr w m)))"
    by blast
qed

lemma gen_xor:
  assumes "gen c k1 (fl False) evl" "gen c k2 (fr False) evr"
  shows "gen c (max k1 (Suc k2)) (dt_cg_logical_xor fl fr) (sem_bin (\<lambda>a b. Inr (of_cond ((a \<noteq> 0) \<noteq> (b \<noteq> 0)))) evl evr)"
proof (rule gen_cong [OF gen_label_bin [OF assms(1,2), where x = xor_first and h = "\<lambda>v. of_cond (v \<noteq> 0)" and n = 2
      and z = xor_second and w = "\<lambda>rl rr l. []" and g = "\<lambda>a b. Inr (a XOR of_cond (b \<noteq> 0))"]])
  fix rl rr l :: nat assume "rl \<noteq> rr" and l: "0 < l"
  have "seg_ok l (l + 2) (xor_first rl l @ xor_second rl rr l @ [])"
    using l by (auto simp: seg_ok_def xor_first_def xor_second_def insn_kinds is_jop_def ir_counts_def br_label_simps [of "Suc l", simplified])
  moreover have "lddw_ok (xor_second rl rr l @ [])" by (simp add: xor_second_def insn_kinds is_jop_def ir_counts_def)
  ultimately show "seg_ok l (l + 2) (xor_first rl l @ xor_second rl rr l @ []) \<and> lddw_ok (xor_second rl rr l @ []) \<and>
      blk2 c (xor_second rl rr l @ []) rl rr (\<lambda>a b. Inr (a XOR of_cond (b \<noteq> 0)))"
    using xor_second_runs [OF l \<open>rl \<noteq> rr\<close>] by simp
next
  fix r l :: nat assume "0 < l"
  then show "lddw_ok (xor_first r l) \<and> blk1 c (xor_first r l) r (\<lambda>v mm. Inr (of_cond (v \<noteq> 0)))"
    using xor_first_runs by (simp add: xor_first_def insn_kinds is_jop_def ir_counts_def)
next
  fix s
  show "do { (rl, lts, s1) \<leftarrow> fl False (bump 2 s); (rr, rts, s2) \<leftarrow> fr False (code s1 (xor_first rl (dl_label (pcb_ir s))));
       s3 \<leftarrow> cg_free rr (code s2 (xor_second rl rr (dl_label (pcb_ir s)))); Some (rl, None, code s3 []) } = dt_cg_logical_xor fl fr s"
    by (simp add: dt_cg_logical_xor_def cg_label_bump numeral_2_eq_2 setx_code xor_first_def xor_second_def)
next
  fix mm
  show "sem_bin (\<lambda>a b. Inr (a XOR of_cond (b \<noteq> 0))) (sem_post (\<lambda>v mm. Inr (of_cond (v \<noteq> 0))) evl) evr mm =
    sem_bin (\<lambda>a b. Inr (of_cond ((a \<noteq> 0) \<noteq> (b \<noteq> 0)))) evl evr mm"
    by (auto simp: sem_bin_def sem_post_def sem_bind_def of_cond_def split: sum.splits prod.splits)
qed simp

section \<open>Short-circuit evaluation\<close>

definition sem_short :: "(u64 \<Rightarrow> bool) \<Rightarrow> u64 \<Rightarrow> (u64 \<Rightarrow> u64) \<Rightarrow> sem \<Rightarrow> sem \<Rightarrow> sem" where
  "sem_short T R g evl evr mm =
     sem_bind (evl mm) (\<lambda>v mm. if T v then Inr (R, mm) else sem_bind (evr mm) (\<lambda>w mm. Inr (g w, mm)))"

text \<open>The code \<open>x\<close> behind the left operand jumps into the code \<open>z\<close> behind the right operand, or falls through.\<close>

definition skips :: "ctx \<Rightarrow> irnode list \<Rightarrow> irnode list \<Rightarrow> irnode list \<Rightarrow> nat \<Rightarrow> (u64 \<Rightarrow> bool) \<Rightarrow> u64 \<Rightarrow> bool" where
  "skips c x b z r T R \<longleftrightarrow>
     (\<forall>P i m. prog_ok P \<and> at_code P i (x @ b @ z) \<longrightarrow>
        (if T (m_regs m r) then ir_steps (c_ext c) P (At i m) (At (i + length (x @ b @ z)) (set_reg r R m))
         else ir_steps (c_ext c) P (At i m) (At (i + length x) m)))"

lemma seg_runs_short:
  assumes "seg_runs c K a r evl" "skips c x b z r T R" "seg_runs c K b r evr" "block_runs c z r g" "r \<notin> K" "10 \<in> K"
  shows "seg_runs c K (a @ x @ b @ z) r (sem_short T R g evl evr)"
proof (rule seg_runsI)
  fix P i and m :: mstate
  assume p: "prog_ok P" "at_code P i (a @ x @ b @ z)" and f: "m_regs m 10 = c_fp c" "lay_mem c (m_mem m)"
  let ?j = "i + length a" and ?k = "i + length a + length x"
  have a: "at_code P i a" "at_code P ?j (x @ b @ z)" "at_code P ?k b" "at_code P (?k + length b) z"
    using p(2) by (simp_all add: at_code_append add.assoc)
  have e: "?j + length (x @ b @ z) = i + length (a @ x @ b @ z)" "?k + length b + length z = i + length (a @ x @ b @ z)" by simp_all
  show "case sem_short T R g evl evr (m_mem m) of Inl flt \<Rightarrow> fails c P (At i m) flt
         | Inr (v, mm) \<Rightarrow> lay_mem c mm \<and> (\<exists>m'. ir_steps (c_ext c) P (At i m) (At (i + length (a @ x @ b @ z)) m') \<and>
             m_regs m' r = v \<and> m_mem m' = mm \<and> (\<forall>q\<in>K. m_regs m' q = m_regs m q))"
  proof (rule seg_runsE [OF assms(1) p(1) a(1) f])
    fix v mm m1 assume v: "evl (m_mem m) = Inr (v, mm)" "lay_mem c mm" "ir_steps (c_ext c) P (At i m) (At ?j m1)"
      "m_regs m1 r = v" "m_mem m1 = mm" "\<forall>q\<in>K. m_regs m1 q = m_regs m q"
    have f1: "m_regs m1 10 = c_fp c" "lay_mem c (m_mem m1)" using v f assms(6) by simp_all
    have sk: "if T (m_regs m1 r) then ir_steps (c_ext c) P (At ?j m1) (At (?j + length (x @ b @ z)) (set_reg r R m1))
         else ir_steps (c_ext c) P (At ?j m1) (At (?j + length x) m1)"
      using assms(2) p(1) a(2) unfolding skips_def by blast
    show ?thesis
    proof (cases "T v")
      case True
      have "ir_steps (c_ext c) P (At ?j m1) (At (i + length (a @ x @ b @ z)) (set_reg r R m1))"
        using sk True v(4) by (simp add: add.assoc)
      moreover have "\<forall>q\<in>K. m_regs (set_reg r R m1) q = m_regs m q" using v(6) assms(5) by auto
      ultimately show ?thesis using v(1,2,5) True rtranclp_trans [OF v(3)]
        by (auto simp: sem_short_def intro!: exI [of _ "set_reg r R m1"])
    next
      case False
      have st: "ir_steps (c_ext c) P (At i m) (At ?k m1)"
        using sk False v(4) rtranclp_trans [OF v(3)] by (simp add: add.assoc)
      show ?thesis
      proof (rule seg_runsE [OF assms(3) p(1) a(3) f1])
        fix flt assume "evr (m_mem m1) = Inl flt" "fails c P (At ?k m1) flt"
        then show ?thesis using v False fails_steps [OF st] by (simp add: sem_short_def)
      next
        fix w mm' m2 assume w: "evr (m_mem m1) = Inr (w, mm')" "lay_mem c mm'" "ir_steps (c_ext c) P (At ?k m1) (At (?k + length b) m2)"
          "m_regs m2 r = w" "m_mem m2 = mm'" "\<forall>q\<in>K. m_regs m2 q = m_regs m1 q"
        have "ir_steps (c_ext c) P (At (?k + length b) m2) (At (?k + length b + length z) (set_reg r (g w) m2))"
          using assms(4) p(1) a(4) w(4) unfolding block_runs_def by blast
        then have "ir_steps (c_ext c) P (At i m) (At (i + length (a @ x @ b @ z)) (set_reg r (g w) m2))"
          using rtranclp_trans [OF st rtranclp_trans [OF w(3)]] by (simp add: add.assoc)
        moreover have "\<forall>q\<in>K. m_regs (set_reg r (g w) m2) q = m_regs m q" using v(6) w(6) assms(5) by auto
        ultimately show ?thesis using v(1,5) w False by (auto simp: sem_short_def intro!: exI [of _ "set_reg r (g w) m2"])
      qed
    qed
  qed (simp add: sem_short_def)
qed

lemma gen_short:
  assumes "gen c k1 fl evl" "gen c k2 fr evr"
    and ok: "\<And>r l. r < 9 \<Longrightarrow> 0 < l \<Longrightarrow> seg_ok l (l + n) (x r l @ z r l) \<and> lddw_ok (x r l) \<and> lddw_ok (z r l) \<and> block_runs c (z r l) r g"
    and sk: "\<And>r l b hi. r < 9 \<Longrightarrow> 0 < l \<Longrightarrow> seg_ok (l + n) hi b \<Longrightarrow> skips c (x r l) b (z r l) r T R"
  shows "gen c (max k1 k2) (\<lambda>s. do { (rl, lts, s1) \<leftarrow> fl (bump n s); s1 \<leftarrow> cg_free rl (code s1 (x rl (dl_label (pcb_ir s))));
       (reg, rts, s2) \<leftarrow> fr s1; Some (reg, None, code s2 (z reg (dl_label (pcb_ir s)))) })
     (sem_short T R g evl evr)"
proof (rule genI)
  fix s assume s: "cg_ok c s" "max k1 k2 \<le> nfree (pcb_regs s)"
  let ?l = "dl_label (pcb_ir s)" and ?d = "pcb_regs s"
  have l: "0 < ?l" using s(1) by (simp add: cg_ok_def)
  have k: "k1 \<le> nfree ?d" "k2 \<le> nfree ?d" using s(2) by auto
  obtain r a s1 where f: "fl (bump n s) = Some (r, None, s1)" "top_free ?d r" "pcb_regs s1 = take_reg r ?d"
    "emits (bump n s) a s1" "seg_ok (?l + n) (dl_label (pcb_ir s1)) a" "seg_runs c (keep ?d) a r evl"
    using genE [OF assms(1) cg_ok_bump [OF s(1)], of n] k by (metis bump_simps(1,2))
  have r: "r < 9" "r \<notin> keep ?d" using f(2) top_free_less top_free_keep by blast+
  note okd = cg_okD(1) [OF s(1)]
  let ?x = "x r ?l" let ?z = "z r ?l" let ?s1 = "(code s1 ?x)\<lparr>pcb_regs := ?d\<rparr>"
  have em1: "emits s a s1" "?l + n \<le> dl_label (pcb_ir s1)" using emits_bump [OF f(4)] by auto
  have fr: "cg_free r (code s1 ?x) = Some ?s1" using cg_free_eq [OF okd f(2)] f(3) by simp
  have em2: "emits s (a @ ?x) ?s1" using emits_trans [OF em1(1) emits_code] by simp
  have s1: "cg_ok c ?s1" using cg_ok_emits [OF s(1) em2 _ okd] by simp
  have k1: "k2 \<le> nfree (pcb_regs ?s1)" using k(2) by simp
  from genE [OF assms(2) s1 k1]
  obtain r' b s2 where g0: "fr ?s1 = Some (r', None, s2)" "top_free (pcb_regs ?s1) r'" "pcb_regs s2 = take_reg r' (pcb_regs ?s1)"
    "emits ?s1 b s2" "seg_ok (dl_label (pcb_ir ?s1)) (dl_label (pcb_ir s2)) b" "seg_runs c (keep (pcb_regs ?s1)) b r' evr" by blast
  have g: "fr ?s1 = Some (r', None, s2)" "top_free ?d r'" "pcb_regs s2 = take_reg r' ?d"
    "emits ?s1 b s2" "seg_ok (dl_label (pcb_ir s1)) (dl_label (pcb_ir s2)) b" "seg_runs c (keep ?d) b r' evr" using g0 by simp_all
  have r': "r' = r" using top_free_unique [OF f(2) g(2)] .
  have xz: "seg_ok ?l (?l + n) (?x @ ?z)" "lddw_ok ?x" "lddw_ok ?z" "block_runs c ?z r g" using ok [OF r(1) l] by auto
  have le: "dl_label (pcb_ir s1) \<le> dl_label (pcb_ir s2)" using emits_le [OF g(4)] by simp
  have ab: "seg_ok (?l + n) (dl_label (pcb_ir s2)) (a @ b)" using seg_ok_append [OF f(5) g(5)] em1(2) le by simp
  have "seg_ok ?l (dl_label (pcb_ir s2)) ((a @ b) @ ?x @ ?z)"
    using seg_ok_append2 [OF ab xz(1), of ?l "dl_label (pcb_ir s2)"] em1(2) le by simp
  then have ok2: "seg_ok ?l (dl_label (pcb_ir s2)) (a @ ?x @ b @ ?z)"
    using xz(2,3) lddw_ok_seg [OF f(5)] lddw_ok_seg [OF g(5)] by (rule_tac seg_ok_perm) (auto intro!: lddw_ok_append)
  have "seg_ok (?l + n) (dl_label (pcb_ir s2)) b" using seg_ok_append [OF plain_seg(1) g(5), of "[]" "?l + n"] em1(2) le by (simp add: plain_def)
  then have sk': "skips c ?x b ?z r T R" using sk [OF r(1) l] by blast
  have "seg_runs c (keep ?d) (a @ ?x @ b @ ?z) r (sem_short T R g evl evr)"
    using seg_runs_short [OF f(6) sk' _ xz(4) r(2)] g(6) r' by simp
  moreover have "emits s (a @ ?x @ b @ ?z) (code s2 ?z)" using emits_trans [OF em2 emits_trans [OF g(4) emits_code]] by simp
  ultimately show "\<exists>r' seg s'. do { (rl, lts, s1) \<leftarrow> fl (bump n s); s1 \<leftarrow> cg_free rl (code s1 (x rl ?l));
       (reg, rts, s2) \<leftarrow> fr s1; Some (reg, None, code s2 (z reg ?l)) } = Some (r', None, s') \<and> top_free ?d r' \<and>
      pcb_regs s' = take_reg r' ?d \<and> emits s seg s' \<and> seg_ok ?l (dl_label (pcb_ir s')) seg \<and>
      seg_runs c (keep ?d) seg r' (sem_short T R g evl evr)"
    using f(1,2) g(1,3) fr ok2 r'
    by (intro exI [of _ r] exI [of _ "a @ ?x @ b @ ?z"] exI [of _ "code s2 ?z"]) simp
qed

definition and_code :: "nat \<Rightarrow> nat \<Rightarrow> irnode list" where
  "and_code r l = [I (BPF_BRANCH_IMM BPF_JEQ r 0 (int l)), I (fst (BPF_LDDW r 1)), I (snd (BPF_LDDW r 1)), I (BPF_JUMP (int (Suc l))),
     L l (BPF_MOV_IMM r 0), L (Suc l) BPF_NOP]"

definition or_code :: "nat \<Rightarrow> nat \<Rightarrow> irnode list" where
  "or_code r l = [I (BPF_BRANCH_IMM BPF_JEQ r 0 (int (Suc l))), L l (BPF_MOV_IMM r 1), I (BPF_JUMP (int (Suc (Suc l)))),
     L (Suc l) (BPF_MOV_IMM r 0), L (Suc (Suc l)) BPF_NOP]"

lemma and_code_runs:
  assumes "0 < l"
  shows "block_runs c (and_code r l) r (\<lambda>v. of_cond (v \<noteq> 0))"
  unfolding block_runs_def
proof (intro allI impI, elim conjE)
  fix P i m assume p: "prog_ok P" "at_code P i (and_code r l)"
  note lab = at_code_label [OF p] prog_ok_label [OF p]
  have l: "l < 2 ^ 15" "Suc l < 2 ^ 15" "label_pos P l = Some (Suc (Suc (Suc (Suc i))))" "label_pos P (Suc l) = Some (Suc (Suc (Suc (Suc (Suc i)))))"
    using lab [of l] lab [of "Suc l"] assms by (simp_all add: and_code_def)
  show "ir_steps (c_ext c) P (At i m) (At (i + length (and_code r l)) (set_reg r (of_cond (m_regs m r \<noteq> 0)) m))"
    using p(2) l assms br_label_simps(3) [OF l(2)] kinds_ja [OF _ l(2)]
    by (intro ir_run_steps [where k = "if m_regs m r = 0 then Suc (Suc (Suc 0)) else Suc (Suc (Suc (Suc 0)))"])
      (simp add: and_code_def at_code_simps run_simps of_cond_def set_reg_def regs_idem del: ir_step.simps)
qed

lemma or_code_runs:
  assumes "0 < l"
  shows "block_runs c (or_code r l) r (\<lambda>v. of_cond (v \<noteq> 0))"
  unfolding block_runs_def
proof (intro allI impI, elim conjE)
  fix P i m assume p: "prog_ok P" "at_code P i (or_code r l)"
  note lab = at_code_label [OF p] prog_ok_label [OF p]
  have l: "Suc l < 2 ^ 15" "Suc (Suc l) < 2 ^ 15" "label_pos P (Suc l) = Some (Suc (Suc (Suc i)))" "label_pos P (Suc (Suc l)) = Some (Suc (Suc (Suc (Suc i))))"
    using lab [of "Suc l"] lab [of "Suc (Suc l)"] assms by (simp_all add: or_code_def)
  show "ir_steps (c_ext c) P (At i m) (At (i + length (or_code r l)) (set_reg r (of_cond (m_regs m r \<noteq> 0)) m))"
    using p(2) l assms br_label_simps(3) [OF l(2)] kinds_ja [OF _ l(2)] br_label_simps(1) [OF l(1)]
    by (intro ir_run_steps [where k = "if m_regs m r = 0 then Suc (Suc (Suc 0)) else Suc (Suc (Suc (Suc 0)))"])
      (simp add: or_code_def at_code_simps run_simps of_cond_def set_reg_def regs_idem del: ir_step.simps)
qed

lemma skips_intro:
  assumes "is_jop op" "0 < l" "\<And>v. bpf_cond op v (imm32 0) = Some (T v)" "seg_ok lo hi b" "\<not> (lo \<le> l \<and> l < hi)"
    "label_pos z l = Some k"
    "\<And>P i m. prog_ok P \<Longrightarrow> at_code P i z \<Longrightarrow> ir_steps (c_ext c) P (At (i + k) m) (At (i + length z) (set_reg r R m))"
  shows "skips c [I (BPF_BRANCH_IMM op r 0 (int l))] b z r T R"
  unfolding skips_def
proof (intro allI impI, elim conjE)
  let ?x = "[I (BPF_BRANCH_IMM op r 0 (int l))]"
  fix P i m assume p: "prog_ok P" "at_code P i (?x @ b @ z)"
  have "label_pos (?x @ b @ z) l = Some (Suc (length b + k))"
    using seg_label_pos [OF assms(4) _ assms(5), of z] assms(2,6) by simp
  then have l: "label_pos P l = Some (Suc (i + length b) + k)" "l < 2 ^ 15"
    using at_code_label [OF p, of l] prog_ok_label [OF p, of l] assms(2) by simp_all
  have a: "i < length P" "P ! i = I (BPF_BRANCH_IMM op r 0 (int l))" "at_code P (Suc (i + length b)) z"
    using p(2) by (simp_all add: at_code_simps)
  have z: "ir_steps (c_ext c) P (At (Suc (i + length b) + k) m) (At (Suc (i + length b) + length z) (set_reg r R m))"
    using assms(7) [OF p(1) a(3)] .
  have t: "ir_step (c_ext c) P (At i m) = Some (if T (m_regs m r) then At (Suc (i + length b) + k) m else At (Suc i) m)"
    using a(1,2) l assms(1,3) by (simp add: ir_step_at insn_simps insn_kinds del: ir_step.simps)
  show "if T (m_regs m r) then ir_steps (c_ext c) P (At i m) (At (i + length (?x @ b @ z)) (set_reg r R m))
         else ir_steps (c_ext c) P (At i m) (At (i + length ?x) m)"
  proof (cases "T (m_regs m r)")
    case True
    then have "ir_steps (c_ext c) P (At i m) (At (Suc (i + length b) + length z) (set_reg r R m))"
      using converse_rtranclp_into_rtranclp [OF _ z] t by simp
    then show ?thesis using True by (simp add: add.assoc)
  next
    case False
    then show ?thesis using t by (simp add: r_into_rtranclp del: ir_step.simps)
  qed
qed

lemma gen_and:
  assumes "gen c k1 (fl False) evl" "gen c k2 (fr False) evr"
  shows "gen c (max k1 k2) (dt_cg_logical_and fl fr) (sem_short (\<lambda>v. v = 0) 0 (\<lambda>w. of_cond (w \<noteq> 0)) evl evr)"
proof (rule gen_cong [OF gen_short [OF assms, where n = 2 and x = "\<lambda>r l. [I (BPF_BRANCH_IMM BPF_JEQ r 0 (int l))]" and z = and_code]])
  fix r l :: nat assume l: "0 < l"
  have "seg_ok l (l + 2) ([I (BPF_BRANCH_IMM BPF_JEQ r 0 (int l))] @ and_code r l)"
    using l by (auto simp: seg_ok_def and_code_def insn_kinds is_jop_def ir_counts_def br_label_simps [of "Suc l", simplified])
  moreover have "lddw_ok [I (BPF_BRANCH_IMM BPF_JEQ r 0 (int l))]" "lddw_ok (and_code r l)"
    by (simp_all add: and_code_def insn_kinds is_jop_def ir_counts_def)
  ultimately show "seg_ok l (l + 2) ([I (BPF_BRANCH_IMM BPF_JEQ r 0 (int l))] @ and_code r l) \<and> lddw_ok [I (BPF_BRANCH_IMM BPF_JEQ r 0 (int l))] \<and>
     lddw_ok (and_code r l) \<and> block_runs c (and_code r l) r (\<lambda>w. of_cond (w \<noteq> 0))"
    using and_code_runs [OF l] by simp
next
  fix r l b hi assume l: "0 < l" and b: "seg_ok (l + 2) hi b"
  show "skips c [I (BPF_BRANCH_IMM BPF_JEQ r 0 (int l))] b (and_code r l) r (\<lambda>v. v = 0) 0"
  proof (rule skips_intro [OF _ l _ b])
    fix P i m assume "prog_ok P" "at_code P i (and_code r l)"
    then show "ir_steps (c_ext c) P (At (i + 4) m) (At (i + length (and_code r l)) (set_reg r 0 m))"
      by (intro ir_run_steps [where k = "Suc (Suc 0)"]) (simp add: and_code_def at_code_simps run_simps set_reg_def eval_nat_numeral del: ir_step.simps)
  qed (use l in \<open>simp_all add: is_jop_def bpf_cond_def and_code_def\<close>)
next
  fix s
  show "do { (rl, lts, s1) \<leftarrow> fl False (bump 2 s); s1 \<leftarrow> cg_free rl (code s1 [I (BPF_BRANCH_IMM BPF_JEQ rl 0 (int (dl_label (pcb_ir s))))]);
       (reg, rts, s2) \<leftarrow> fr False s1; Some (reg, None, code s2 (and_code reg (dl_label (pcb_ir s)))) } = dt_cg_logical_and fl fr s"
    by (simp add: dt_cg_logical_and_def cg_label_bump numeral_2_eq_2 setx_code and_code_def)
qed simp_all

lemma gen_or:
  assumes "gen c k1 (fl False) evl" "gen c k2 (fr False) evr"
  shows "gen c (max k1 k2) (dt_cg_logical_or fl fr) (sem_short (\<lambda>v. v \<noteq> 0) 1 (\<lambda>w. of_cond (w \<noteq> 0)) evl evr)"
proof (rule gen_cong [OF gen_short [OF assms, where n = 3 and x = "\<lambda>r l. [I (BPF_BRANCH_IMM BPF_JNE r 0 (int l))]" and z = or_code]])
  fix r l :: nat assume l: "0 < l"
  have "seg_ok l (l + 3) ([I (BPF_BRANCH_IMM BPF_JNE r 0 (int l))] @ or_code r l)"
    using l by (auto simp: seg_ok_def or_code_def insn_kinds is_jop_def br_label_simps [of "Suc l", simplified] br_label_simps [of "Suc (Suc l)", simplified])
  moreover have "lddw_ok [I (BPF_BRANCH_IMM BPF_JNE r 0 (int l))]" "lddw_ok (or_code r l)"
    by (simp_all add: or_code_def insn_kinds is_jop_def)
  ultimately show "seg_ok l (l + 3) ([I (BPF_BRANCH_IMM BPF_JNE r 0 (int l))] @ or_code r l) \<and> lddw_ok [I (BPF_BRANCH_IMM BPF_JNE r 0 (int l))] \<and>
     lddw_ok (or_code r l) \<and> block_runs c (or_code r l) r (\<lambda>w. of_cond (w \<noteq> 0))"
    using or_code_runs [OF l] by simp
next
  fix r l b hi assume l: "0 < l" and b: "seg_ok (l + 3) hi b"
  show "skips c [I (BPF_BRANCH_IMM BPF_JNE r 0 (int l))] b (or_code r l) r (\<lambda>v. v \<noteq> 0) 1"
  proof (rule skips_intro [OF _ l _ b])
    fix P i m assume p: "prog_ok P" "at_code P i (or_code r l)"
    have l2: "Suc (Suc l) < 2 ^ 15" "label_pos P (Suc (Suc l)) = Some (Suc (Suc (Suc (Suc i))))"
      using at_code_label [OF p, of "Suc (Suc l)"] prog_ok_label [OF p, of "Suc (Suc l)"] by (simp_all add: or_code_def)
    then show "ir_steps (c_ext c) P (At (i + 1) m) (At (i + length (or_code r l)) (set_reg r 1 m))"
      using p br_label_simps(3) [OF l2(1)] kinds_ja [OF _ l2(1)]
      by (intro ir_run_steps [where k = "Suc (Suc (Suc 0))"]) (simp add: or_code_def at_code_simps run_simps set_reg_def del: ir_step.simps)
  qed (use l in \<open>simp_all add: is_jop_def bpf_cond_def or_code_def\<close>)
next
  fix s
  show "do { (rl, lts, s1) \<leftarrow> fl False (bump 3 s); s1 \<leftarrow> cg_free rl (code s1 [I (BPF_BRANCH_IMM BPF_JNE rl 0 (int (dl_label (pcb_ir s))))]);
       (reg, rts, s2) \<leftarrow> fr False s1; Some (reg, None, code s2 (or_code reg (dl_label (pcb_ir s)))) } = dt_cg_logical_or fl fr s"
    by (simp add: dt_cg_logical_or_def cg_label_bump numeral_3_eq_3 or_code_def)
qed simp_all

section \<open>The conditional operator\<close>

definition sem_cond :: "sem \<Rightarrow> sem \<Rightarrow> sem \<Rightarrow> sem" where
  "sem_cond evc evl evr mm = sem_bind (evc mm) (\<lambda>v mm. if v = 0 then evr mm else evl mm)"

definition cond_test :: "nat \<Rightarrow> nat \<Rightarrow> irnode list" where
  "cond_test r l = [I (BPF_BRANCH_IMM BPF_JEQ r 0 (int l))]"

definition cond_join :: "nat \<Rightarrow> nat \<Rightarrow> irnode list" where
  "cond_join r l = [I (BPF_MOV_REG r r), I (BPF_JUMP (int (Suc l))), L l BPF_NOP]"

definition cond_end :: "nat \<Rightarrow> irnode list" where
  "cond_end l = [L (Suc l) BPF_NOP]"

lemma seg_runs_cond:
  assumes runs: "seg_runs c K a r evc" "seg_runs c K b r evl" "seg_runs c K d r evr" and K: "r \<notin> K" "10 \<in> K"
    and fresh: "seg_ok lo1 hi1 b" "seg_ok lo2 hi2 d" "0 < l" "Suc l < lo1" "Suc l < lo2"
  shows "seg_runs c K (a @ cond_test r l @ b @ cond_join r l @ d @ cond_end l) r (sem_cond evc evl evr)"
proof (rule seg_runsI)
  let ?rest = "cond_test r l @ b @ cond_join r l @ d @ cond_end l" let ?seg = "a @ ?rest"
  fix P i and m :: mstate
  assume p: "prog_ok P" "at_code P i ?seg" and f: "m_regs m 10 = c_fp c" "lay_mem c (m_mem m)"
  define j where "j = i + length a"
  define k where "k = Suc j + length b"
  define n where "n = Suc (Suc (Suc k)) + length d"
  have at: "at_code P i a" "at_code P j ?rest" using p(2) by (simp_all add: at_code_append j_def)
  have c: "j < length P" "P ! j = I (BPF_BRANCH_IMM BPF_JEQ r 0 (int l))" "at_code P (Suc j) b"
    "k < length P" "P ! k = I (BPF_MOV_REG r r)" "Suc k < length P" "P ! Suc k = I (BPF_JUMP (int (Suc l)))"
    "Suc (Suc k) < length P" "P ! Suc (Suc k) = L l BPF_NOP" "at_code P (Suc (Suc (Suc k))) d"
    "n < length P" "P ! n = L (Suc l) BPF_NOP"
    using at(2) by (simp_all add: at_code_simps cond_test_def cond_join_def cond_end_def k_def n_def add.assoc)
  have e: "i + length ?seg = Suc n" by (simp add: cond_test_def cond_join_def cond_end_def n_def k_def j_def)
  have "label_pos ?rest l = Some (Suc (length b + Suc (Suc 0)))"
    using seg_label_pos [OF fresh(1), of l "cond_join r l @ d @ cond_end l"] fresh(3,4) by (simp add: cond_test_def cond_join_def)
  then have l1: "label_pos P l = Some (Suc (Suc k))"
    using at_code_label [OF p(1) at(2), of l] fresh(3) by (simp add: k_def)
  have "label_pos (d @ cond_end l) (Suc l) = Some (length d)"
    using seg_label_pos [OF fresh(2), of "Suc l" "cond_end l"] fresh(5) by (simp add: cond_end_def)
  then have "label_pos (cond_join r l @ d @ cond_end l) (Suc l) = Some (Suc (Suc (Suc (length d))))"
    by (simp add: cond_join_def)
  then have "label_pos ?rest (Suc l) = Some (Suc (length b + Suc (Suc (Suc (length d)))))"
    using seg_label_pos [OF fresh(1), of "Suc l" "cond_join r l @ d @ cond_end l"] fresh(4) by (simp add: cond_test_def)
  then have l2: "label_pos P (Suc l) = Some n" "Suc l < 2 ^ 15"
    using at_code_label [OF p(1) at(2), of "Suc l"] prog_ok_label [OF p(1) at(2), of "Suc l"] by (simp_all add: k_def n_def)
  have "l < 2 ^ 15" using l2(2) by linarith
  note lab = l1 l2 this
  have skip: "ir_steps (c_ext c) P (At (Suc (Suc (Suc k)) + length d) m') (At (Suc n) m')" for m'
    using c(11,12) by (intro ir_run_steps [where k = "Suc 0"]) (simp add: run_simps n_def del: ir_step.simps)
  have "ir_steps (c_ext c) P (At k m') (At (Suc n) m')" for m'
    using c lab br_label_simps(3) [OF lab(3)] kinds_ja [OF _ lab(3)]
    by (intro ir_run_steps [where k = "Suc (Suc (Suc 0))"]) (simp add: run_simps set_reg_def regs_idem del: ir_step.simps)
  then have over: "ir_steps (c_ext c) P (At (Suc j + length b) m') (At (Suc n) m')" for m' by (simp add: k_def)
  have else_: "ir_steps (c_ext c) P (At j m') (At (Suc (Suc (Suc k))) m')" if "m_regs m' r = 0" for m'
    using c lab that by (intro ir_run_steps [where k = "Suc (Suc 0)"]) (simp add: run_simps del: ir_step.simps)
  have then_: "ir_steps (c_ext c) P (At j m') (At (Suc j) m')" if "m_regs m' r \<noteq> 0" for m'
    using c that by (intro ir_run_steps [where k = "Suc 0"]) (simp add: run_simps del: ir_step.simps)
  show "case sem_cond evc evl evr (m_mem m) of Inl flt \<Rightarrow> fails c P (At i m) flt
         | Inr (v, mm) \<Rightarrow> lay_mem c mm \<and> (\<exists>m'. ir_steps (c_ext c) P (At i m) (At (i + length ?seg) m') \<and>
             m_regs m' r = v \<and> m_mem m' = mm \<and> (\<forall>q\<in>K. m_regs m' q = m_regs m q))"
  proof (rule seg_runsE [OF runs(1) p(1) at(1) f])
    fix v mm m1 assume v: "evc (m_mem m) = Inr (v, mm)" "lay_mem c mm" "ir_steps (c_ext c) P (At i m) (At (i + length a) m1)"
      "m_regs m1 r = v" "m_mem m1 = mm" "\<forall>q\<in>K. m_regs m1 q = m_regs m q"
    have f1: "m_regs m1 10 = c_fp c" "lay_mem c (m_mem m1)" using v f K(2) by simp_all
    have branch: ?thesis if st: "ir_steps (c_ext c) P (At i m) (At q m1)" and run: "seg_runs c K sg r ev" "at_code P q sg"
      and fin: "\<And>m'. ir_steps (c_ext c) P (At (q + length sg) m') (At (Suc n) m')" and ev: "sem_cond evc evl evr (m_mem m) = ev (m_mem m1)" for q sg ev
    proof (rule seg_runsE [OF run(1) p(1) run(2) f1])
      fix flt assume "ev (m_mem m1) = Inl flt" "fails c P (At q m1) flt"
      then show ?thesis using fails_steps [OF st] ev by simp
    next
      fix w mm' m2 assume w: "ev (m_mem m1) = Inr (w, mm')" "lay_mem c mm'" "ir_steps (c_ext c) P (At q m1) (At (q + length sg) m2)"
        "m_regs m2 r = w" "m_mem m2 = mm'" "\<forall>q\<in>K. m_regs m2 q = m_regs m1 q"
      have "ir_steps (c_ext c) P (At i m) (At (Suc n) m2)" using rtranclp_trans [OF st rtranclp_trans [OF w(3) fin]] .
      then show ?thesis using w v(6) ev e by auto
    qed
    show ?thesis
    proof (cases "v = 0")
      case True
      then have "ir_steps (c_ext c) P (At i m) (At (Suc (Suc (Suc k))) m1)" using rtranclp_trans [OF v(3)] else_ [of m1] v(4) by (simp add: j_def)
      from branch [OF this runs(3) c(10) skip] show ?thesis using v(1,5) True by (simp add: sem_cond_def)
    next
      case False
      then have "ir_steps (c_ext c) P (At i m) (At (Suc j) m1)" using rtranclp_trans [OF v(3)] then_ [of m1] v(4) by (simp add: j_def)
      from branch [OF this runs(2) c(3) over] show ?thesis using v(1,5) False by (simp add: sem_cond_def)
    qed
  qed (simp add: sem_cond_def)
qed

text \<open>A generator called on a state that has \<open>k\<close> free registers, with the facts at hand.\<close>

lemma gen_use:
  assumes "gen c k f ev" "cg_ok c s" "emits s a s1" "pcb_regs s1 = pcb_regs s" "k \<le> nfree (pcb_regs s)"
  obtains r b s2 where "f s1 = Some (r, None, s2)" "top_free (pcb_regs s) r" "pcb_regs s2 = take_reg r (pcb_regs s)"
    "emits s1 b s2" "seg_ok (dl_label (pcb_ir s1)) (dl_label (pcb_ir s2)) b" "seg_runs c (keep (pcb_regs s)) b r ev"
proof -
  have "cg_ok c s1" using cg_ok_emits [OF assms(2,3,4)] cg_okD(1) [OF assms(2)] by simp
  moreover have "k \<le> nfree (pcb_regs s1)" using assms(4,5) by simp
  ultimately show ?thesis using genE [OF assms(1), of s1] that unfolding assms(4) by blast
qed

lemma I_update [simp]: "(I i)\<lparr>di_instr := j\<rparr> = I j"
  by (simp add: I_def dt_cg_node_alloc_def)

lemma emits_patch:
  assumes "emits s (a @ I i # b) s'" "k = length (dl_list (pcb_ir s)) + length a"
  shows "emits s (a @ I j # b) (patch k j s')"
  using assms by (auto simp: emits_def same_rest_def patch_def Let_def nth_append list_update_append ir_counts_def)

lemma patch_simps [simp]: "pcb_regs (patch k j s) = pcb_regs s" "dl_label (pcb_ir (patch k j s)) = dl_label (pcb_ir s)"
  by (simp_all add: patch_def Let_def)

lemma gen_ternary:
  assumes "gen c k1 (fe False) evc" "gen c k2 (fl False) evl" "gen c k3 (fr False) evr" "\<not> dt_node_is_string e a0"
  shows "gen c (max k1 (max k2 k3)) (dt_cg_ternary_op e a0 fe fl fr) (sem_cond evc evl evr)"
proof (rule genI)
  fix s assume s: "cg_ok c s" "max k1 (max k2 k3) \<le> nfree (pcb_regs s)"
  let ?l = "dl_label (pcb_ir s)" and ?d = "pcb_regs s"
  have l: "0 < ?l" using s(1) by (simp add: cg_ok_def)
  have k: "k1 \<le> nfree ?d" "k2 \<le> nfree ?d" "k3 \<le> nfree ?d" using s(2) by auto
  note okd = cg_okD(1) [OF s(1)]
  have e0: "emits s [] (bump 2 s)" by (simp add: emits_def same_rest_def bump_def)
  obtain r a s1 where f: "fe False (bump 2 s) = Some (r, None, s1)" "top_free ?d r" "pcb_regs s1 = take_reg r ?d"
    "emits (bump 2 s) a s1" "seg_ok (?l + 2) (dl_label (pcb_ir s1)) a" "seg_runs c (keep ?d) a r evc"
    using gen_use [OF assms(1) s(1) e0 _ k(1)] by (metis bump_simps(1,2))
  have r: "r < 9" "r \<notin> keep ?d" using f(2) top_free_less top_free_keep by blast+
  let ?x = "cond_test r ?l" let ?s1 = "(code s1 ?x)\<lparr>pcb_regs := ?d\<rparr>"
  have em1: "emits s a s1" "?l + 2 \<le> dl_label (pcb_ir s1)" using emits_bump [OF f(4)] by auto
  have fr1: "cg_free r (code s1 ?x) = Some ?s1" using cg_free_eq [OF okd f(2)] f(3) by simp
  have em2: "emits s (a @ ?x) ?s1" using emits_trans [OF em1(1) emits_code] by simp
  have p1: "pcb_regs ?s1 = ?d" by simp
  obtain r2 b s2 where g: "fl False ?s1 = Some (r2, None, s2)" "top_free ?d r2" "pcb_regs s2 = take_reg r2 ?d"
    "emits ?s1 b s2" "seg_ok (dl_label (pcb_ir ?s1)) (dl_label (pcb_ir s2)) b" "seg_runs c (keep ?d) b r2 evl"
    using gen_use [OF assms(2) s(1) em2 p1 k(2)] by blast
  have r2: "r2 = r" using top_free_unique [OF f(2) g(2)] .
  let ?y = "[I (BPF_MOV_IMM r 0), I (BPF_JUMP (int (Suc ?l))), L ?l BPF_NOP]"
  let ?s2 = "(code s2 ?y)\<lparr>pcb_regs := ?d\<rparr>"
  have fr2: "cg_free r (code s2 [I (BPF_MOV_IMM r 0)]) = Some ((code s2 [I (BPF_MOV_IMM r 0)])\<lparr>pcb_regs := ?d\<rparr>)"
    using cg_free_eq [OF okd f(2)] g(3) r2 by simp
  have em3: "emits s (a @ ?x @ b @ ?y) ?s2" using emits_trans [OF em2 emits_trans [OF g(4) emits_code]] by simp
  have p2: "pcb_regs ?s2 = ?d" by simp
  obtain r3 d s3 where h: "fr False ?s2 = Some (r3, None, s3)" "top_free ?d r3" "pcb_regs s3 = take_reg r3 ?d"
    "emits ?s2 d s3" "seg_ok (dl_label (pcb_ir ?s2)) (dl_label (pcb_ir s3)) d" "seg_runs c (keep ?d) d r3 evr"
    using gen_use [OF assms(3) s(1) em3 p2 k(3)] by blast
  have r3: "r3 = r" using top_free_unique [OF f(2) h(2)] .
  let ?dip = "length (dl_list (pcb_ir s2))"
  have dip: "?dip = length (dl_list (pcb_ir s)) + length (a @ ?x @ b)"
    using emits_trans [OF em2 g(4)] by (simp add: emits_def)
  let ?seg = "a @ ?x @ b @ cond_join r ?l @ d @ cond_end ?l"
  let ?s3 = "code (patch ?dip (BPF_MOV_REG r r) s3) (cond_end ?l)"
  have "emits s ((a @ ?x @ b) @ I (BPF_MOV_IMM r 0) # [I (BPF_JUMP (int (Suc ?l))), L ?l BPF_NOP] @ d) s3"
    using emits_trans [OF em3 h(4)] by simp
  from emits_trans [OF emits_patch [OF this dip] emits_code] have em4: "emits s ?seg ?s3" by (simp add: cond_join_def)
  have res: "dt_cg_ternary_op e a0 fe fl fr s = Some (r, None, ?s3)"
    using f(1) fr1 g(1) fr2 h(1) r2 r3 assms(4)
    by (simp add: dt_cg_ternary_op_def cg_label_bump numeral_2_eq_2 cond_test_def cond_end_def)
  have lab: "dl_label (pcb_ir ?s1) = dl_label (pcb_ir s1)" "dl_label (pcb_ir ?s2) = dl_label (pcb_ir s2)" by simp_all
  have le: "dl_label (pcb_ir s1) \<le> dl_label (pcb_ir s2)" "dl_label (pcb_ir s2) \<le> dl_label (pcb_ir s3)"
    using emits_le [OF g(4)] emits_le [OF h(4)] by simp_all
  have own: "seg_ok ?l (?l + 2) (?x @ cond_join r ?l @ cond_end ?l)" "lddw_ok ?x" "lddw_ok (cond_join r ?l)" "lddw_ok (cond_end ?l)"
    using l by (auto simp: seg_ok_def cond_test_def cond_join_def cond_end_def insn_kinds is_jop_def br_label_simps [of "Suc ?l", simplified])
  have "seg_ok (?l + 2) (dl_label (pcb_ir s3)) (a @ b @ d)"
    using seg_ok_append [OF f(5) seg_ok_append [OF g(5) [unfolded lab] h(5) [unfolded lab]]] le em1(2) by simp
  from seg_ok_append2 [OF this own(1), of ?l "dl_label (pcb_ir s3)"]
  have "seg_ok ?l (dl_label (pcb_ir s3)) ((a @ b @ d) @ ?x @ cond_join r ?l @ cond_end ?l)" using em1(2) le by simp
  then have ok: "seg_ok ?l (dl_label (pcb_ir ?s3)) ?seg"
    using own(2-4) lddw_ok_seg [OF f(5)] lddw_ok_seg [OF g(5)] lddw_ok_seg [OF h(5)]
    by (rule_tac seg_ok_perm) (auto intro!: lddw_ok_append)
  have "seg_runs c (keep ?d) ?seg r (sem_cond evc evl evr)"
    using g(6) h(6) r2 r3 lab em1(2) le l
    by (intro seg_runs_cond [OF f(6) _ _ r(2) _ g(5) h(5)]) auto
  then show "\<exists>r seg s'. dt_cg_ternary_op e a0 fe fl fr s = Some (r, None, s') \<and> top_free ?d r \<and> pcb_regs s' = take_reg r ?d \<and>
      emits s seg s' \<and> seg_ok ?l (dl_label (pcb_ir s')) seg \<and> seg_runs c (keep ?d) seg r (sem_cond evc evl evr)"
    using res f(2) em4 ok h(3) r3 by (intro exI [of _ r] exI [of _ ?seg] exI [of _ ?s3]) simp
qed

end
