(* ===== verification/DTCgVar.thy ===== *)
theory DTCgVar
  imports DTCgCond
begin

unbundle bit_operations_syntax

text \<open>
  Variables, stores, casts, and what is read through pointers and members of structures.
\<close>

section \<open>Values of a type\<close>

text \<open>The value of \<open>b\<close> bits, by sign.\<close>

definition narrow :: "bool \<Rightarrow> nat \<Rightarrow> u64 \<Rightarrow> u64" where
  "narrow sg b v = (if sg then signed_take_bit (b - 1) v else take_bit b v)"

text \<open>
  The value of \<open>n\<close> bytes that were loaded.  The code does not extend the sign: a negative value of a signed
  type of less than eight bytes is \<open>Unchecked\<close>.
\<close>

definition load_val :: "bool \<Rightarrow> nat \<Rightarrow> u64 \<Rightarrow> fault + u64" where
  "load_val sg n x = (if sg \<and> n < 8 \<and> bit x (8 * n - 1) then Inl Unchecked else Inr (narrow sg (8 * n) x))"

lemma narrow_64: "narrow sg 64 v = v"
  unfolding narrow_def by (intro bit_word_eqI) (auto simp: bit_simps)

lemma load_val_mem:
  assumes "size_ok n"
  shows "load_val sg (nat n) (mem_load (nat n) mm a) = Inl Unchecked \<or> load_val sg (nat n) (mem_load (nat n) mm a) = Inr (mem_load (nat n) mm a)"
proof -
  let ?x = "mem_load (nat n) mm a"
  have n: "1 \<le> nat n" "nat n \<le> 8" using assms by (auto simp: size_ok_def)
  have t: "take_bit (8 * nat n) ?x = ?x" by (rule bit_word_eqI) (auto simp: bit_simps bit_mem_load)
  have "narrow sg (8 * nat n) ?x = ?x" if "\<not> (sg \<and> nat n < 8 \<and> bit ?x (8 * nat n - 1))"
  proof (cases "sg \<and> nat n < 8")
    case True
    then have b: "\<not> bit ?x (8 * nat n - 1)" using that by blast
    have "signed_take_bit (8 * nat n - 1) ?x = take_bit (8 * nat n - 1) ?x" using b by (simp add: signed_take_bit_eq_if_positive)
    also have "\<dots> = take_bit (8 * nat n) ?x"
    proof (rule bit_word_eqI)
      fix k
      show "bit (take_bit (8 * nat n - 1) ?x) k = bit (take_bit (8 * nat n) ?x) k"
        using b n(1) by (cases "k = 8 * nat n - 1") (auto simp: bit_take_bit_iff)
    qed
    finally show ?thesis using True t by (simp add: narrow_def)
  next
    case False
    then show ?thesis
    proof (cases sg)
      case True
      then have "nat n = 8" using False n(2) by simp
      then show ?thesis using narrow_64 by simp
    qed (simp add: narrow_def t)
  qed
  then show ?thesis by (auto simp: load_val_def)
qed

section \<open>Variables\<close>

lemma ident_core_eq:
  assumes "ident_core a = ident_core b"
  shows "di_id a = di_id b" "di_offset a = di_offset b" "di_kind a = di_kind b" "di_size a = di_size b"
    "di_flags a AND NOT (DT_IDFLG_DIFR OR DT_IDFLG_DIFW) = di_flags b AND NOT (DT_IDFLG_DIFR OR DT_IDFLG_DIFW)"
  using arg_cong [OF assms, of di_id] arg_cong [OF assms, of di_offset] arg_cong [OF assms, of di_kind]
    arg_cong [OF assms, of di_size] arg_cong [OF assms, of di_flags] by (simp_all add: ident_core_def)

lemma ident_flag_eq:
  assumes "ident_core a = ident_core b" "f AND NOT (DT_IDFLG_DIFR OR DT_IDFLG_DIFW) = f"
  shows "di_flags a AND f = di_flags b AND f"
  using arg_cong [OF ident_core_eq(5) [OF assms(1)], of "\<lambda>w. w AND f"] assms(2)
  by (simp only: and.assoc and.commute [of "NOT (DT_IDFLG_DIFR OR DT_IDFLG_DIFW)" f])

definition is_local :: "ident \<Rightarrow> bool" where
  "is_local idp \<longleftrightarrow> di_flags idp AND DT_IDFLG_LOCAL \<noteq> 0"

definition var_addr :: "ctx \<Rightarrow> nat \<Rightarrow> u64" where
  "var_addr c i = (let idp = c_ids c i in (if is_local idp then c_lvars c else c_gvars c) + word_of_int (di_offset idp))"

text \<open>A variable of the clause or a global one, in its storage.\<close>

definition var_ok :: "ctx \<Rightarrow> nat \<Rightarrow> int \<Rightarrow> bool" where
  "var_ok c i n \<longleftrightarrow>
     (let idp = c_ids c i in
      di_kind idp = DT_IDENT_SCALAR \<and> di_flags idp AND DT_IDFLG_TLS = 0 \<and> di_flags idp AND DT_IDFLG_CGREG = 0 \<and>
      (is_local idp \<or> di_id idp \<ge> DIF_VAR_OTHER_UBASE) \<and>
      size_ok n \<and> 0 \<le> di_offset idp \<and> di_offset idp < 2 ^ 15 \<and>
      di_offset idp + n \<le> int (if is_local idp then c_lsize c else c_gsize c))"

lemma ldstw_ok:
  assumes "size_ok n"
  shows "(ldstw ! nat n) AND 0xe7 = 0" "size_bytes (ldstw ! nat n) = nat n"
  using assms by (auto simp: size_ok_def ldstw_def size_bytes_def)

lemma lay_memD:
  assumes "lay_mem c mm"
  shows "mem_load 8 mm (c_fp c + off16 DT_STK_DCTX) = c_dctx c" "mem_load 8 mm (c_dctx c + off16 DCTX_GVARS) = c_gvars c"
    "mem_load 8 mm (c_dctx c + off16 DCTX_LVARS) = c_lvars c"
  using assms by (simp_all add: lay_mem_def DT_STK_DCTX_def off16_small)

lemma var_load_runs:
  assumes "var_ok c i n" "idp = c_ids c i"
  shows "seg_runs c (- {r}) (var_base r (is_local idp) @ [I (BPF_LOAD (ldstw ! nat n) r r (di_offset idp))]) r
    (\<lambda>mm. Inr (mem_load (nat n) mm (var_addr c i), mm))"
proof (rule leaf_runs)
  fix P k and m :: mstate
  assume a: "at_code P k (var_base r (is_local idp) @ [I (BPF_LOAD (ldstw ! nat n) r r (di_offset idp))])"
    "m_regs m 10 = c_fp c" "lay_mem c (m_mem m)"
  have n: "size_ok n" "off16 (di_offset idp) = word_of_int (di_offset idp)" using assms by (auto simp: var_ok_def Let_def off16_small)
  show "ir_steps (c_ext c) P (At k m) (At (k + length (var_base r (is_local idp) @ [I (BPF_LOAD (ldstw ! nat n) r r (di_offset idp))]))
      (set_reg r (mem_load (nat n) (m_mem m) (var_addr c i)) m))"
    using a lay_memD [OF a(3)] n ldstw_ok [OF n(1)] assms(2)
    by (intro ir_run_steps [where k = "Suc (Suc (Suc 0))"])
      (simp add: var_base_def at_code_simps run_simps size_bytes_def set_reg_def var_addr_def Let_def del: ir_step.simps)
qed

lemma cg_ids_eq:
  assumes "cg_ok c s"
  shows "di_id (cg_idents s i) = di_id (c_ids c i)" "di_offset (cg_idents s i) = di_offset (c_ids c i)"
    "di_kind (cg_idents s i) = di_kind (c_ids c i)" "di_size (cg_idents s i) = di_size (c_ids c i)"
    "di_flags (cg_idents s i) AND DT_IDFLG_LOCAL = di_flags (c_ids c i) AND DT_IDFLG_LOCAL"
    "di_flags (cg_idents s i) AND DT_IDFLG_TLS = di_flags (c_ids c i) AND DT_IDFLG_TLS"
    "di_flags (cg_idents s i) AND DT_IDFLG_CGREG = di_flags (c_ids c i) AND DT_IDFLG_CGREG"
  using ident_core_eq(1-4) [of "cg_idents s i" "c_ids c i"] ident_flag_eq [of "cg_idents s i" "c_ids c i"] assms
  by (simp_all add: cg_ok_def)

lemma mark_simps [simp]: "pcb_regs (cg_mark i f s) = pcb_regs s" "pcb_ir (cg_mark i f s) = pcb_ir s"
  by (simp_all add: cg_mark_def)

lemma gen_load_var:
  assumes "var_ok c i (dt_node_type_size e (NVar a i args))" "\<not> nf a DT_NF_REF"
  shows "gen c 1 (dt_cg_load_var e (NVar a i args) i False)
    (\<lambda>mm. Inr (mem_load (nat (dt_node_type_size e (NVar a i args))) mm (var_addr c i), mm))"
proof (rule gen_leaf)
  let ?n = "dt_node_type_size e (NVar a i args)" and ?idp = "c_ids c i"
  fix r :: nat
  let ?ns = "var_base r (is_local ?idp) @ [I (BPF_LOAD (ldstw ! nat ?n) r r (di_offset ?idp))]"
  have "size_ok ?n" using assms(1) by (simp add: var_ok_def Let_def)
  then have "plain ?ns" using ldstw_ok(1) by (simp add: plain_def var_base_def insn_kinds)
  then show "plain ?ns \<and> seg_runs c (- {r}) ?ns r (\<lambda>mm. Inr (mem_load (nat ?n) mm (var_addr c i), mm))"
    using var_load_runs [OF assms(1)] by simp
next
  let ?n = "dt_node_type_size e (NVar a i args)" and ?idp = "c_ids c i"
  fix s assume s: "cg_ok c s"
  let ?s = "cg_mark i DT_IDFLG_DIFR s"
  have em: "emits s [] ?s" by simp
  have "cg_ok c ?s" using cg_ok_emits [OF s em] cg_okD(1) [OF s] by simp
  note ids = cg_ids_eq [OF this, of i]
  have "dt_cg_load_var e (NVar a i args) i False s = do { (r, s) \<leftarrow> cg_alloc ?s;
     Some (r, None, code s (var_base r (is_local ?idp) @ [I (BPF_LOAD (ldstw ! nat ?n) r r (di_offset ?idp))])) }"
    using assms by (simp add: dt_cg_load_var_def Let_def ids var_ok_def is_local_def case_prod_beta')
  then show "\<exists>s0. emits s [] s0 \<and> pcb_regs s0 = pcb_regs s \<and> dl_label (pcb_ir s0) = dl_label (pcb_ir s) \<and>
       dt_cg_load_var e (NVar a i args) i False s = do { (r, s) \<leftarrow> cg_alloc s0;
         Some (r, None, code s (var_base r (is_local ?idp) @ [I (BPF_LOAD (ldstw ! nat ?n) r r (di_offset ?idp))])) }"
    using em by (intro exI [of _ ?s]) simp
qed

text \<open>The value of a variable.\<close>

definition sem_var :: "ctx \<Rightarrow> nat \<Rightarrow> bool \<Rightarrow> nat \<Rightarrow> sem" where
  "sem_var c i sg n mm =
     (case load_val sg n (mem_load n mm (var_addr c i)) of Inl flt \<Rightarrow> Inl flt | Inr v \<Rightarrow> Inr (v, mm))"

lemma gen_read_var:
  assumes "var_ok c i (dt_node_type_size e (NVar a i args))" "\<not> nf a DT_NF_REF"
  shows "gen c 1 (dt_cg_load_var e (NVar a i args) i False) (sem_var c i sg (nat (dt_node_type_size e (NVar a i args))))"
proof (rule gen_weaken [OF gen_load_var [OF assms]])
  fix mm
  let ?n = "dt_node_type_size e (NVar a i args)"
  have "size_ok ?n" using assms(1) by (simp add: var_ok_def Let_def)
  from load_val_mem [OF this, of sg mm "var_addr c i"]
  show "sem_var c i sg (nat ?n) mm = Inl Unchecked \<or> sem_var c i sg (nat ?n) mm = Inr (mem_load (nat ?n) mm (var_addr c i), mm)"
    by (auto simp: sem_var_def)
qed

section \<open>Effects\<close>

text \<open>Code that, with the value of a register, changes the memory and no register in \<open>K\<close>.\<close>

definition eff_runs :: "ctx \<Rightarrow> nat set \<Rightarrow> irnode list \<Rightarrow> nat \<Rightarrow> (u64 \<Rightarrow> memory \<Rightarrow> memory) \<Rightarrow> bool" where
  "eff_runs c K seg r g \<longleftrightarrow>
     (\<forall>P i m. prog_ok P \<and> at_code P i seg \<and> m_regs m 10 = c_fp c \<and> lay_mem c (m_mem m) \<longrightarrow>
        lay_mem c (g (m_regs m r) (m_mem m)) \<and>
        (\<exists>m'. ir_steps (c_ext c) P (At i m) (At (i + length seg) m') \<and> m_mem m' = g (m_regs m r) (m_mem m) \<and>
           (\<forall>q \<in> K. m_regs m' q = m_regs m q)))"

definition effect :: "ctx \<Rightarrow> nat \<Rightarrow> (nat \<Rightarrow> cg \<Rightarrow> cg option) \<Rightarrow> (u64 \<Rightarrow> memory \<Rightarrow> memory) \<Rightarrow> bool" where
  "effect c k h g \<longleftrightarrow>
     (\<forall>s r. cg_ok c s \<and> r < 9 \<and> active (pcb_regs s) r \<and> k \<le> nfree (pcb_regs s) \<longrightarrow>
        (\<exists>seg s'. h r s = Some s' \<and> pcb_regs s' = pcb_regs s \<and> emits s seg s' \<and>
           seg_ok (dl_label (pcb_ir s)) (dl_label (pcb_ir s')) seg \<and> eff_runs c (keep (pcb_regs s)) seg r g))"

definition sem_eff :: "(u64 \<Rightarrow> memory \<Rightarrow> memory) \<Rightarrow> sem \<Rightarrow> sem" where
  "sem_eff g ev mm = sem_bind (ev mm) (\<lambda>v mm. Inr (v, g v mm))"

lemma effectE:
  assumes "effect c k h g" "cg_ok c s" "r < 9" "active (pcb_regs s) r" "k \<le> nfree (pcb_regs s)"
  obtains seg s' where "h r s = Some s'" "pcb_regs s' = pcb_regs s" "emits s seg s'"
    "seg_ok (dl_label (pcb_ir s)) (dl_label (pcb_ir s')) seg" "eff_runs c (keep (pcb_regs s)) seg r g"
  using assms unfolding effect_def by blast

lemma effectI:
  assumes "\<And>s r. cg_ok c s \<Longrightarrow> r < 9 \<Longrightarrow> active (pcb_regs s) r \<Longrightarrow> k \<le> nfree (pcb_regs s) \<Longrightarrow>
     \<exists>seg s'. h r s = Some s' \<and> pcb_regs s' = pcb_regs s \<and> emits s seg s' \<and>
        seg_ok (dl_label (pcb_ir s)) (dl_label (pcb_ir s')) seg \<and> eff_runs c (keep (pcb_regs s)) seg r g"
  shows "effect c k h g"
  using assms unfolding effect_def by blast

lemma eff_runsE:
  assumes "eff_runs c K seg r g" "prog_ok P" "at_code P i seg" "m_regs m 10 = c_fp c" "lay_mem c (m_mem m)"
  obtains m' where "lay_mem c (g (m_regs m r) (m_mem m))" "ir_steps (c_ext c) P (At i m) (At (i + length seg) m')"
    "m_mem m' = g (m_regs m r) (m_mem m)" "\<forall>q \<in> K. m_regs m' q = m_regs m q"
  using assms unfolding eff_runs_def by blast

lemma eff_runsI:
  assumes "\<And>P i m. prog_ok P \<Longrightarrow> at_code P i seg \<Longrightarrow> m_regs m 10 = c_fp c \<Longrightarrow> lay_mem c (m_mem m) \<Longrightarrow>
        lay_mem c (g (m_regs m r) (m_mem m)) \<and>
        (\<exists>m'. ir_steps (c_ext c) P (At i m) (At (i + length seg) m') \<and> m_mem m' = g (m_regs m r) (m_mem m) \<and>
           (\<forall>q \<in> K. m_regs m' q = m_regs m q))"
  shows "eff_runs c K seg r g"
  using assms unfolding eff_runs_def by blast

lemma seg_runs_eff:
  assumes "seg_runs c K a r ev" "r \<notin> K" "10 \<in> K" "eff_runs c (insert r K) b r g"
  shows "seg_runs c K (a @ b) r (sem_eff g ev)"
proof (rule seg_runsI)
  fix P i and m :: mstate
  assume p: "prog_ok P" "at_code P i (a @ b)" and f: "m_regs m 10 = c_fp c" "lay_mem c (m_mem m)"
  then have a: "at_code P i a" "at_code P (i + length a) b" by (simp_all add: at_code_append)
  show "case sem_eff g ev (m_mem m) of Inl flt \<Rightarrow> fails c P (At i m) flt
         | Inr (v, mm) \<Rightarrow> lay_mem c mm \<and> (\<exists>m'. ir_steps (c_ext c) P (At i m) (At (i + length (a @ b)) m') \<and>
             m_regs m' r = v \<and> m_mem m' = mm \<and> (\<forall>q\<in>K. m_regs m' q = m_regs m q))"
  proof (rule seg_runsE [OF assms(1) p(1) a(1) f])
    fix v mm m' assume v: "ev (m_mem m) = Inr (v, mm)" "lay_mem c mm" "ir_steps (c_ext c) P (At i m) (At (i + length a) m')"
      "m_regs m' r = v" "m_mem m' = mm" "\<forall>q\<in>K. m_regs m' q = m_regs m q"
    have f': "m_regs m' 10 = c_fp c" "lay_mem c (m_mem m')" using v f assms(3) by simp_all
    obtain m2 where w: "lay_mem c (g (m_regs m' r) (m_mem m'))"
        "ir_steps (c_ext c) P (At (i + length a) m') (At (i + length a + length b) m2)" "m_mem m2 = g (m_regs m' r) (m_mem m')"
        "\<forall>q\<in>insert r K. m_regs m2 q = m_regs m' q"
      by (rule eff_runsE [OF assms(4) p(1) a(2) f'])
    show ?thesis using v w rtranclp_trans [OF v(3) w(2)] by (auto simp: sem_eff_def add.assoc)
  qed (simp add: sem_eff_def)
qed

lemma gen_effect:
  assumes "gen c k1 f ev" "effect c k2 h g"
  shows "gen c (max k1 (Suc k2)) (\<lambda>s. do { (r, ts, s) \<leftarrow> f s; s \<leftarrow> h r s; Some (r, None, s) }) (sem_eff g ev)"
proof (rule genI)
  fix s assume s: "cg_ok c s" "max k1 (Suc k2) \<le> nfree (pcb_regs s)"
  then have k1: "k1 \<le> nfree (pcb_regs s)" and k2: "Suc k2 \<le> nfree (pcb_regs s)" by auto
  obtain r seg s1 where f: "f s = Some (r, None, s1)" "top_free (pcb_regs s) r" "pcb_regs s1 = take_reg r (pcb_regs s)"
    "emits s seg s1" "seg_ok (dl_label (pcb_ir s)) (dl_label (pcb_ir s1)) seg" "seg_runs c (keep (pcb_regs s)) seg r ev"
    by (rule genE [OF assms(1) s(1) k1])
  note ok = cg_okD(1) [OF s(1)]
  have r: "r < 9" "r \<notin> keep (pcb_regs s)" using f(2) top_free_less top_free_keep by blast+
  have s1: "cg_ok c s1" using cg_ok_emits [OF s(1) f(4,3)] regs_ok_take [OF ok r(1)] by simp
  have act: "active (pcb_regs s1) r" using active_take [OF ok r(1)] f(3) by simp
  have k: "k2 \<le> nfree (pcb_regs s1)" using nfree_take [OF ok f(2)] k2 f(3) by simp
  obtain seg2 s2 where h: "h r s1 = Some s2" "pcb_regs s2 = pcb_regs s1" "emits s1 seg2 s2"
    "seg_ok (dl_label (pcb_ir s1)) (dl_label (pcb_ir s2)) seg2"
    "eff_runs c (keep (pcb_regs s1)) seg2 r g"
    by (rule effectE [OF assms(2) s1 r(1) act k])
  have kp: "keep (pcb_regs s1) = insert r (keep (pcb_regs s))" using keep_take [OF ok r(1)] f(3) by simp
  have "seg_runs c (keep (pcb_regs s)) (seg @ seg2) r (sem_eff g ev)"
    using seg_runs_eff [OF f(6) r(2) keep_simps(2)] h(5) unfolding kp by simp
  then show "\<exists>r' seg s'. do { (r, ts, s) \<leftarrow> f s; s \<leftarrow> h r s; Some (r, None, s) } = Some (r', None, s') \<and> top_free (pcb_regs s) r' \<and>
      pcb_regs s' = take_reg r' (pcb_regs s) \<and> emits s seg s' \<and> seg_ok (dl_label (pcb_ir s)) (dl_label (pcb_ir s')) seg \<and>
      seg_runs c (keep (pcb_regs s)) seg r' (sem_eff g ev)"
    using f(1-5) h(1-4) emits_trans [OF f(4) h(3)] seg_ok_append [OF f(5) h(4) emits_le [OF f(4)] emits_le [OF h(3)]]
    by (intro exI [of _ r] exI [of _ "seg @ seg2"] exI [of _ s2]) simp
qed

section \<open>Stores\<close>

lemma lay_mem_store:
  assumes "ctx_ok c" "var_ok c i n" "di_size (c_ids c i) = n" "lay_mem c mm"
  shows "lay_mem c (mem_store (nat n) mm (var_addr c i) v)"
proof -
  let ?idp = "c_ids c i" and ?b = "if is_local (c_ids c i) then c_lvars c else c_gvars c"
    and ?z = "if is_local (c_ids c i) then c_lsize c else c_gsize c"
  have o: "0 \<le> di_offset ?idp" "nat (di_offset ?idp) + nat n \<le> ?z" "0 < nat n"
    using assms(2) by (auto simp: var_ok_def Let_def size_ok_def)
  have a: "var_addr c i = ?b + of_nat (nat (di_offset ?idp))" using o(1) by (simp add: var_addr_def Let_def)
  have b: "apart ?b ?z (c_fp c - 72) 8" "apart ?b ?z (c_dctx c) 72" using assms(1) by (auto simp: ctx_ok_def)
  have "apart (var_addr c i) (nat n) (c_fp c - 72) 8" "apart (var_addr c i) (nat n) (c_dctx c + 56) 8"
    "apart (var_addr c i) (nat n) (c_dctx c + 64) 8"
    unfolding a using apart_sub [OF b(1) o(2), of 0 8] apart_sub [OF b(2) o(2), of 56 8] apart_sub [OF b(2) o(2), of 64 8] o(3) by simp_all
  from this [THEN apart_sym] show ?thesis using assms(4) by (simp add: lay_mem_def mem_load_store_apart)
qed

lemma store_runs:
  assumes "ctx_ok c" "var_ok c i n" "di_size (c_ids c i) = n" "idp = c_ids c i" "r \<noteq> q" "q \<notin> K" "q < 9"
  shows "eff_runs c K (var_base q (is_local idp) @ [I (BPF_STORE (ldstw ! nat n) q (di_offset idp) r)]) r
    (\<lambda>v mm. mem_store (nat n) mm (var_addr c i) v)"
proof (rule eff_runsI)
  let ?ns = "var_base q (is_local idp) @ [I (BPF_STORE (ldstw ! nat n) q (di_offset idp) r)]"
  fix P k and m :: mstate
  assume p: "prog_ok P" and a: "at_code P k ?ns" "m_regs m 10 = c_fp c" "lay_mem c (m_mem m)"
  let ?mm = "mem_store (nat n) (m_mem m) (var_addr c i) (m_regs m r)"
  let ?m = "set_mem ?mm (set_reg q (if is_local idp then c_lvars c else c_gvars c) m)"
  have n: "size_ok n" "off16 (di_offset idp) = word_of_int (di_offset idp)" using assms by (auto simp: var_ok_def Let_def off16_small)
  have "ir_steps (c_ext c) P (At k m) (At (k + length ?ns) ?m)"
    using a lay_memD [OF a(3)] n ldstw_ok [OF n(1)] assms(4,5)
    by (intro ir_run_steps [where k = "Suc (Suc (Suc 0))"])
      (simp add: var_base_def at_code_simps run_simps size_bytes_def set_reg_def var_addr_def Let_def del: ir_step.simps)
  moreover have "\<forall>x \<in> K. m_regs ?m x = m_regs m x" using assms(6) by auto
  ultimately show "lay_mem c ?mm \<and>
     (\<exists>m'. ir_steps (c_ext c) P (At k m) (At (k + length ?ns) m') \<and> m_mem m' = ?mm \<and> (\<forall>q \<in> K. m_regs m' q = m_regs m q))"
    using lay_mem_store [OF assms(1-3) a(3)] by (intro conjI exI [of _ ?m]) simp_all
qed

lemma store_plain: "size_ok n \<Longrightarrow> plain (var_base q b @ [I (BPF_STORE (ldstw ! nat n) q off r)])"
  using ldstw_ok(1) [of n] by (simp add: plain_def var_base_def insn_kinds)

lemma effect_store_var:
  assumes "ctx_ok c" "var_ok c i n" "di_size (c_ids c i) = n"
  shows "effect c 1 (\<lambda>r s. dt_cg_store_var e False r src i s) (\<lambda>v mm. mem_store (nat n) mm (var_addr c i) v)"
proof (rule effectI)
  fix s r assume s: "cg_ok c s" "r < 9" "active (pcb_regs s) r" "1 \<le> nfree (pcb_regs s)"
  let ?idp = "c_ids c i" and ?s = "cg_mark i DT_IDFLG_DIFW s"
  obtain q where q: "top_free (pcb_regs s) q" using top_free_exists [of "pcb_regs s"] s(4) by auto
  note ok = cg_okD(1) [OF s(1)] and l = top_free_less [OF q] and k = top_free_keep [OF q]
  let ?ns = "var_base q (is_local ?idp) @ [I (BPF_STORE (ldstw ! nat n) q (di_offset ?idp) r)]"
  have em: "emits s [] ?s" by simp
  have "cg_ok c ?s" using cg_ok_emits [OF s(1) em] ok by simp
  note ids = cg_ids_eq [OF this, of i]
  have al: "cg_alloc ?s = Some (q, ?s\<lparr>pcb_regs := take_reg q (pcb_regs s)\<rparr>)" using cg_alloc_eq [of ?s q] ok q by simp
  have fr: "cg_free q ((code ?s ?ns)\<lparr>pcb_regs := take_reg q (pcb_regs s)\<rparr>) = Some ((code ?s ?ns)\<lparr>pcb_regs := pcb_regs s\<rparr>)"
    using cg_free_eq [OF ok q, of "(code ?s ?ns)\<lparr>pcb_regs := take_reg q (pcb_regs s)\<rparr>"] by simp
  have sz: "size_ok n" and fl: "di_flags ?idp AND DT_IDFLG_TLS = 0" using assms(2) by (simp_all add: var_ok_def Let_def)
  have "dt_cg_store_var e False r src i s = Some ((code ?s ?ns)\<lparr>pcb_regs := pcb_regs s\<rparr>)"
    using al fr sz fl assms(3) by (simp add: dt_cg_store_var_def Let_def ids is_local_def)
  moreover have "emits s ?ns (code ?s ?ns)" using emits_trans [OF em emits_code] by simp
  moreover have "eff_runs c (keep (pcb_regs s)) ?ns r (\<lambda>v mm. mem_store (nat n) mm (var_addr c i) v)"
    using s(3) l k by (intro store_runs [OF assms]) auto
  ultimately show "\<exists>seg s'. dt_cg_store_var e False r src i s = Some s' \<and> pcb_regs s' = pcb_regs s \<and> emits s seg s' \<and>
       seg_ok (dl_label (pcb_ir s)) (dl_label (pcb_ir s')) seg \<and>
       eff_runs c (keep (pcb_regs s)) seg r (\<lambda>v mm. mem_store (nat n) mm (var_addr c i) v)"
    using plain_seg(1) [OF store_plain [OF sz]]
    by (intro exI [of _ ?ns] exI [of _ "(code ?s ?ns)\<lparr>pcb_regs := pcb_regs s\<rparr>"]) simp
qed

text \<open>An effect of the new value, computed in a copy of the register.\<close>

lemma effect_copy:
  assumes "effect c k h g" "op AND 15 = 0" "\<And>a. bpf_alu op a (imm32 n) = Some (x a)"
  shows "effect c (Suc k) (\<lambda>r s. do {
     (q, s) \<leftarrow> cg_alloc s;
     let s = code s [I (BPF_MOV_REG q r), I (BPF_ALU64_IMM op q n)];
     s \<leftarrow> h q s;
     cg_free q s }) (\<lambda>v mm. g (x v) mm)"
proof (rule effectI)
  fix s r assume s: "cg_ok c s" "r < 9" "active (pcb_regs s) r" "Suc k \<le> nfree (pcb_regs s)"
  obtain q where q: "top_free (pcb_regs s) q" using top_free_exists [of "pcb_regs s"] s(4) by auto
  note ok = cg_okD(1) [OF s(1)] and l = top_free_less [OF q]
  let ?ns = "[I (BPF_MOV_REG q r), I (BPF_ALU64_IMM op q n)]"
  let ?s = "(code s ?ns)\<lparr>pcb_regs := take_reg q (pcb_regs s)\<rparr>"
  have al: "cg_alloc s = Some (q, s\<lparr>pcb_regs := take_reg q (pcb_regs s)\<rparr>)" using cg_alloc_eq ok q by simp
  have em: "emits s ?ns ?s" by simp
  have s1: "cg_ok c ?s" using cg_ok_emits [OF s(1) em] regs_ok_take [OF ok] l by simp
  have act: "active (pcb_regs ?s) q" using active_take [OF ok] l by simp
  have nf: "k \<le> nfree (pcb_regs ?s)" using nfree_take [OF ok q] s(4) by simp
  obtain seg s2 where h: "h q ?s = Some s2" "pcb_regs s2 = pcb_regs ?s" "emits ?s seg s2"
    "seg_ok (dl_label (pcb_ir ?s)) (dl_label (pcb_ir s2)) seg" "eff_runs c (keep (pcb_regs ?s)) seg q g"
    by (rule effectE [OF assms(1) s1 conjunct1 [OF l] act nf])
  have fr: "cg_free q s2 = Some (s2\<lparr>pcb_regs := pcb_regs s\<rparr>)" using cg_free_eq [OF ok q] h(2) by simp
  have pl: "plain ?ns" using assms(2) by (simp add: plain_def insn_kinds)
  have kp: "keep (pcb_regs ?s) = insert q (keep (pcb_regs s))" using keep_take [OF ok] l by simp
  have "eff_runs c (keep (pcb_regs s)) (?ns @ seg) r (\<lambda>v mm. g (x v) mm)"
  proof (rule eff_runsI)
    fix P i and m :: mstate
    assume p: "prog_ok P" "at_code P i (?ns @ seg)" "m_regs m 10 = c_fp c" "lay_mem c (m_mem m)"
    then have a: "at_code P i ?ns" "at_code P (i + length ?ns) seg" using at_code_append [of P i ?ns seg] by simp_all
    let ?m = "set_reg q (x (m_regs m r)) m"
    have st: "ir_steps (c_ext c) P (At i m) (At (i + length ?ns) ?m)"
      using a(1) assms(2,3) by (intro ir_run_steps [where k = "Suc (Suc 0)"])
        (simp add: at_code_simps ir_step_at nth_instr_at insn_simps insn_kinds set_reg_def del: ir_step.simps)
    have f: "m_regs ?m 10 = c_fp c" "lay_mem c (m_mem ?m)" using p l by auto
    obtain m2 where m2: "lay_mem c (g (m_regs ?m q) (m_mem ?m))" "ir_steps (c_ext c) P (At (i + length ?ns) ?m) (At (i + length ?ns + length seg) m2)"
      "m_mem m2 = g (m_regs ?m q) (m_mem ?m)" "\<forall>y \<in> keep (pcb_regs ?s). m_regs m2 y = m_regs ?m y"
      by (rule eff_runsE [OF h(5) p(1) a(2) f])
    have "\<forall>y \<in> keep (pcb_regs s). m_regs m2 y = m_regs m y" using m2(4) top_free_keep [OF q] unfolding kp by auto
    moreover have "ir_steps (c_ext c) P (At i m) (At (i + length (?ns @ seg)) m2)" using rtranclp_trans [OF st m2(2)] by (simp add: add.assoc)
    ultimately show "lay_mem c (g (x (m_regs m r)) (m_mem m)) \<and> (\<exists>m'. ir_steps (c_ext c) P (At i m) (At (i + length (?ns @ seg)) m') \<and>
        m_mem m' = g (x (m_regs m r)) (m_mem m) \<and> (\<forall>q\<in>keep (pcb_regs s). m_regs m' q = m_regs m q))"
      using m2(1,3) by auto
  qed
  moreover have "emits s (?ns @ seg) (s2\<lparr>pcb_regs := pcb_regs s\<rparr>)" using emits_trans [OF em h(3)] by simp
  moreover have "seg_ok (dl_label (pcb_ir s)) (dl_label (pcb_ir s2)) (?ns @ seg)"
    using seg_ok_append [OF plain_seg(1) [OF pl] h(4)] emits_le [OF h(3)] by simp
  ultimately show "\<exists>seg s'. do { (q, s) \<leftarrow> cg_alloc s; let s = code s [I (BPF_MOV_REG q r), I (BPF_ALU64_IMM op q n)]; s \<leftarrow> h q s; cg_free q s } = Some s' \<and>
      pcb_regs s' = pcb_regs s \<and> emits s seg s' \<and> seg_ok (dl_label (pcb_ir s)) (dl_label (pcb_ir s')) seg \<and>
      eff_runs c (keep (pcb_regs s)) seg r (\<lambda>v mm. g (x v) mm)"
    using al fr h(1) by (intro exI [of _ "?ns @ seg"] exI [of _ "s2\<lparr>pcb_regs := pcb_regs s\<rparr>"]) simp
qed

section \<open>Casts\<close>

definition cast_bytes :: "'ty cgenv \<Rightarrow> 'ty node \<Rightarrow> 'ty node \<Rightarrow> int" where
  "cast_bytes e src dst = min (dt_node_type_size e dst) (dt_node_type_size e src)"

text \<open>
  Casts to a narrower type, or to one of the same size and another sign, narrow the value; those to a
  wider type with another sign keep what the value is in that type.  For the latter the code narrows to the
  source's width with the sign of the target, which is the same for values in the lower half of the source's range;
  the others are \<open>Unchecked\<close>.
\<close>

definition cast_val :: "'ty cgenv \<Rightarrow> 'ty node \<Rightarrow> 'ty node \<Rightarrow> u64 \<Rightarrow> fault + u64" where
  "cast_val e src dst v =
     (let sg = nf (dn_attrs dst) DT_NF_SIGNED; dsize = dt_node_type_size e dst; ssize = dt_node_type_size e src
      in if \<not> ctf_any e (dn_type (dn_attrs dst)) \<and> dt_node_is_scalar e (dn_attrs dst) \<and>
            (dsize < ssize \<or> nf (dn_attrs src) DT_NF_SIGNED \<noteq> sg)
         then if ssize < dsize \<and> drop_bit (8 * nat ssize - 1) v \<noteq> 0 then Inl Unchecked
              else Inr (narrow sg (8 * nat dsize) v)
         else Inr v)"

definition cast_code :: "'ty cgenv \<Rightarrow> 'ty node \<Rightarrow> 'ty node \<Rightarrow> u64 \<Rightarrow> u64" where
  "cast_code e src dst v =
     (let sg = nf (dn_attrs dst) DT_NF_SIGNED
      in if \<not> ctf_any e (dn_type (dn_attrs dst)) \<and> dt_node_is_scalar e (dn_attrs dst) \<and>
            (dt_node_type_size e dst < dt_node_type_size e src \<or> nf (dn_attrs src) DT_NF_SIGNED \<noteq> sg)
         then narrow sg (8 * nat (cast_bytes e src dst)) v else v)"

definition cast_ok :: "'ty cgenv \<Rightarrow> 'ty node \<Rightarrow> 'ty node \<Rightarrow> bool" where
  "cast_ok e src dst \<longleftrightarrow> 1 \<le> cast_bytes e src dst \<and> cast_bytes e src dst \<le> 8 \<and> dt_node_type_size e dst \<le> 8"

lemma narrow_shifts:
  fixes v :: u64
  assumes "n < 64"
  shows "signed_drop_bit n (push_bit n v) = narrow True (64 - n) v" "drop_bit n (push_bit n v) = narrow False (64 - n) v"
proof -
  show "signed_drop_bit n (push_bit n v) = narrow True (64 - n) v"
    using assms unfolding narrow_def by (intro bit_word_eqI) (auto simp: bit_simps min_def not_le not_less dest: le_antisym)
  show "drop_bit n (push_bit n v) = narrow False (64 - n) v"
    using assms unfolding narrow_def by (intro bit_word_eqI) (auto simp: bit_simps)
qed

lemma imm32_shift: "n < 64 \<Longrightarrow> unat (imm32 (int n) AND 63) = n"
proof -
  assume n: "n < 64"
  have "imm32 (int n) = of_nat n" using n imm32_small [of "int n"] by simp
  moreover have "(of_nat n :: u64) AND 63 = take_bit 6 (of_nat n)" by (simp add: take_bit_eq_mask mask_eq_exp_minus_1)
  moreover have "take_bit 6 n = n" using n by (simp add: take_bit_nat_eq_self)
  ultimately show ?thesis using n by (simp add: unsigned_take_bit_eq unat_of_nat)
qed

lemma shift_block:
  assumes "n < 64" "op = BPF_ARSH \<and> sg \<or> op = BPF_RSH \<and> \<not> sg"
  shows "plain [I (BPF_MOV_REG r r), I (BPF_ALU64_IMM BPF_LSH r (int n)), I (BPF_ALU64_IMM op r (int n))] \<and>
    block_runs c [I (BPF_MOV_REG r r), I (BPF_ALU64_IMM BPF_LSH r (int n)), I (BPF_ALU64_IMM op r (int n))] r (narrow sg (64 - n))"
proof -
  have op: "op AND 15 = 0" using assms(2) by auto
  have a: "bpf_alu BPF_LSH a (imm32 (int n)) = Some (push_bit n a)" "bpf_alu op a (imm32 (int n)) = Some (if sg then signed_drop_bit n a else drop_bit n a)" for a
    using assms(2) imm32_shift [OF assms(1)] by (auto simp: bpf_alu_def)
  have "block_runs c [I (BPF_MOV_REG r r), I (BPF_ALU64_IMM BPF_LSH r (int n)), I (BPF_ALU64_IMM op r (int n))] r
      (\<lambda>v. (if sg then signed_drop_bit n (push_bit n v) else drop_bit n (push_bit n v)))"
  proof -
    have "block_runs c [I (BPF_ALU64_IMM op r (int n))] r (\<lambda>v. if sg then signed_drop_bit n v else drop_bit n v)"
      using alu_imm_block [OF op a(2)] by blast
    from block_Cons [OF _ this, of "BPF_ALU64_IMM BPF_LSH r (int n)" "push_bit n"] a(1)
    have "block_runs c [I (BPF_ALU64_IMM BPF_LSH r (int n)), I (BPF_ALU64_IMM op r (int n))] r (\<lambda>v. if sg then signed_drop_bit n (push_bit n v) else drop_bit n (push_bit n v))"
      by (simp add: insn_simps)
    from block_Cons [OF _ this, of "BPF_MOV_REG r r" "\<lambda>v. v"] show ?thesis by (simp add: insn_simps)
  qed
  moreover have "plain [I (BPF_MOV_REG r r), I (BPF_ALU64_IMM BPF_LSH r (int n)), I (BPF_ALU64_IMM op r (int n))]"
    using op by (simp add: plain_def insn_kinds)
  moreover have "(\<lambda>v. if sg then signed_drop_bit n (push_bit n v) else drop_bit n (push_bit n v)) = narrow sg (64 - n)"
    using narrow_shifts [OF assms(1)] by (cases sg) (auto simp del: push_bit_of_1)
  ultimately show ?thesis by metis
qed

lemma narrow_small:
  fixes v :: u64
  assumes "drop_bit (k - 1) v = 0" "0 < k" "k \<le> b" "b \<le> 64"
  shows "narrow sg b v = v"
proof -
  have z: "\<not> bit v j" if "k - 1 \<le> j" for j
    using arg_cong [OF assms(1), of "\<lambda>w. bit w (j - (k - 1))"] that by (simp add: bit_drop_bit_eq)
  show ?thesis unfolding narrow_def
  proof (rule bit_word_eqI)
    fix j assume "j < LENGTH(64)"
    then show "bit (if sg then signed_take_bit (b - 1) v else take_bit b v) j = bit v j"
      using z [of j] z [of "b - 1"] assms(2,3) by (auto simp: bit_simps min_def)
  qed
qed

lemma cast_val_code:
  assumes "cast_ok e src dst"
  shows "cast_val e src dst v = Inl Unchecked \<or> cast_val e src dst v = Inr (cast_code e src dst v)"
proof -
  let ?d = "dt_node_type_size e dst" and ?s = "dt_node_type_size e src"
  have b: "1 \<le> cast_bytes e src dst" "cast_bytes e src dst \<le> 8" "?d \<le> 8" using assms by (auto simp: cast_ok_def)
  show ?thesis
  proof (cases "?s < ?d \<and> drop_bit (8 * nat ?s - 1) v = 0")
    case True
    then have s: "cast_bytes e src dst = ?s" "8 * nat ?s \<le> 8 * nat ?d" "8 * nat ?d \<le> 64" "0 < 8 * nat ?s" using b by (auto simp: cast_bytes_def)
    have "narrow sg (8 * nat ?d) v = v" "narrow sg (8 * nat ?s) v = v" for sg
      using narrow_small [of "8 * nat ?s" v "8 * nat ?d" sg] narrow_small [of "8 * nat ?s" v "8 * nat ?s" sg] True s by simp_all
    then show ?thesis using s(1) by (simp add: cast_val_def cast_code_def Let_def)
  next
    case False
    then have "cast_bytes e src dst = ?d \<or> ?s < ?d \<and> drop_bit (8 * nat ?s - 1) v \<noteq> 0" by (auto simp: cast_bytes_def)
    then show ?thesis by (auto simp: cast_val_def cast_code_def Let_def)
  qed
qed

lemma post_cast_code:
  assumes "cast_ok e src dst"
  shows "post c (\<lambda>r s. Some (dt_cg_typecast e src dst r s)) (\<lambda>v mm. Inr (cast_code e src dst v))"
proof -
  let ?b = "cast_bytes e src dst" and ?ds = "nf (dn_attrs dst) DT_NF_SIGNED"
  define n where "n = nat (64 - ?b * 8)"
  have b: "1 \<le> ?b" "?b \<le> 8" using assms by (simp_all add: cast_ok_def)
  have n: "n < 64" "64 - n = 8 * nat ?b" "int n = 64 - ?b * 8" using b by (auto simp: n_def)
  have nn: "(if dt_node_type_size e dst < dt_node_type_size e src then 64 - dt_node_type_size e dst * 8 else 64 - dt_node_type_size e src * 8) = int n"
    unfolding n(3) by (simp add: cast_bytes_def min_def)
  let ?go = "\<not> ctf_any e (dn_type (dn_attrs dst)) \<and> dt_node_is_scalar e (dn_attrs dst) \<and>
            (dt_node_type_size e dst < dt_node_type_size e src \<or> nf (dn_attrs src) DT_NF_SIGNED \<noteq> ?ds)"
  have cg: "dt_cg_typecast e src dst r s = (if ?go \<and> n \<noteq> 0 then
      code s [I (BPF_MOV_REG r r), I (BPF_ALU64_IMM BPF_LSH r (int n)), I (BPF_ALU64_IMM (if ?ds then BPF_ARSH else BPF_RSH) r (int n))] else s)" for r s
    unfolding dt_cg_typecast_def Let_def nn by auto
  show ?thesis
  proof (cases "?go \<and> n \<noteq> 0")
    case True
    then have v: "cast_code e src dst = narrow ?ds (64 - n)" by (intro ext) (simp add: cast_code_def Let_def n(2))
    have "post c (\<lambda>r s. Some (code s [I (BPF_MOV_REG r r), I (BPF_ALU64_IMM BPF_LSH r (int n)), I (BPF_ALU64_IMM (if ?ds then BPF_ARSH else BPF_RSH) r (int n))]))
       (\<lambda>v mm. Inr (narrow ?ds (64 - n) v))"
      using n(1) by (intro post_code shift_block) auto
    then show ?thesis unfolding cg v if_P [OF True] .
  next
    case False
    have "cast_code e src dst v = v" for v
    proof (cases ?go)
      case True
      then have "n = 0" using False by blast
      then have "8 * nat ?b = 64" using n(2) by simp
      then show ?thesis using narrow_64 by (simp add: cast_code_def Let_def)
    qed (auto simp: cast_code_def Let_def)
    then show ?thesis unfolding cg if_not_P [OF False] using post_id [of c] by simp
  qed
qed

lemma post_typecast:
  assumes "cast_ok e src dst"
  shows "post c (\<lambda>r s. Some (dt_cg_typecast e src dst r s)) (\<lambda>v mm. cast_val e src dst v)"
  by (rule post_weaken [OF post_cast_code [OF assms]]) (rule cast_val_code [OF assms])

section \<open>Loads through pointers\<close>

definition load_bytes :: "'ty cgenv \<Rightarrow> 'ty nattr \<Rightarrow> 'ty \<Rightarrow> int" where
  "load_bytes e a type =
     (case ctf_type_encoding e type of
        Some enc \<Rightarrow> if nf a DT_NF_BITFIELD then field_bytes (cte_bits enc) else ctf_type_size e type
      | None \<Rightarrow> ctf_type_size e type)"

lemma dt_cg_load_eq: "size_ok (load_bytes e a type) \<Longrightarrow> dt_cg_load e a type = Some (ldstw ! nat (load_bytes e a type))"
  unfolding dt_cg_load_def load_bytes_def [symmetric] size_ok_def Let_def by auto

lemma post_load:
  assumes "size_ok n"
  shows "post c (\<lambda>r s. Some (code s [I (BPF_LOAD (ldstw ! nat n) r r 0)])) (\<lambda>v mm. Inr (mem_load (nat n) mm v))"
  unfolding post_def
proof (intro allI impI)
  fix s r assume s: "cg_ok c s \<and> r < 9 \<and> active (pcb_regs s) r"
  let ?ns = "[I (BPF_LOAD (ldstw ! nat n) r r 0)]"
  have "plain ?ns" using ldstw_ok(1) [OF assms] by (simp add: plain_def insn_kinds)
  moreover have "blk1 c ?ns r (\<lambda>v mm. Inr (mem_load (nat n) mm v))"
  proof (rule blk1I)
    fix P i and m :: mstate assume "prog_ok P" "at_code P i ?ns"
    then have "ir_steps (c_ext c) P (At i m) (At (i + length ?ns) (set_reg r (mem_load (nat n) (m_mem m) (m_regs m r)) m))"
      using ldstw_ok [OF assms] by (intro ir_run_steps [where k = "Suc 0"])
        (simp add: at_code_simps run_simps off16_small del: ir_step.simps)
    then show "(\<exists>flt. Inr (mem_load (nat n) (m_mem m) (m_regs m r)) = Inl flt \<and> fails c P (At i m) flt) \<or>
      (\<exists>v. Inr (mem_load (nat n) (m_mem m) (m_regs m r)) = Inr v \<and> ir_steps (c_ext c) P (At i m) (At (i + length ?ns) (set_reg r v m)))"
      by blast
  qed
  ultimately show "\<exists>seg s'. Some (code s ?ns) = Some s' \<and> pcb_regs s' = pcb_regs s \<and> emits s seg s' \<and>
      seg_ok (dl_label (pcb_ir s)) (dl_label (pcb_ir s')) seg \<and> blk1 c seg r (\<lambda>v mm. Inr (mem_load (nat n) mm v))"
    by (intro exI [of _ ?ns] exI [of _ "code s ?ns"]) (simp add: plain_seg)
qed

lemma post_load_val:
  assumes "size_ok n"
  shows "post c (\<lambda>r s. Some (code s [I (BPF_LOAD (ldstw ! nat n) r r 0)])) (\<lambda>v mm. load_val sg (nat n) (mem_load (nat n) mm v))"
  by (rule post_weaken [OF post_load [OF assms]]) (rule load_val_mem [OF assms])

definition deref :: "bool \<Rightarrow> bool \<Rightarrow> nat \<Rightarrow> u64 \<Rightarrow> memory \<Rightarrow> fault + u64" where
  "deref ref sg n v mm = (if ref then Inr v else if v = 0 then Inl (Fault 1) else load_val sg n (mem_load n mm v))"

lemma gen_deref:
  assumes "gen c k (fc False) ev" "env_ok c e" "\<not> nf a DT_NF_REF \<Longrightarrow> size_ok (load_bytes e a (dn_type a))"
  shows "gen c k (dt_cg_deref e a fc) (sem_post (deref (nf a DT_NF_REF) (nf a DT_NF_SIGNED) (nat (load_bytes e a (dn_type a)))) ev)"
proof (cases "nf a DT_NF_REF")
  case True
  then have "gen c k (dt_cg_deref e a fc) ev"
    by (intro gen_cong [OF gen_then [OF assms(1) post_id]]) (simp_all add: dt_cg_deref_def case_prod_beta')
  moreover have "deref True sg n = (\<lambda>v mm. Inr v)" for sg n by (intro ext) (simp add: deref_def)
  ultimately show ?thesis using True by simp
next
  case False
  note sz = assms(3) [OF False]
  show ?thesis
    by (rule gen_cong [OF gen_then [OF assms(1) post_seq [OF post_notnull [OF assms(2)] post_load_val [OF sz, where sg = "nf a DT_NF_SIGNED"]]]])
      (simp_all add: dt_cg_deref_def dt_cg_load_eq [OF sz] False case_prod_beta' sem_post_def deref_def if_distrib cong: if_cong)
qed

section \<open>Members\<close>

definition field_val :: "bool \<Rightarrow> nat \<Rightarrow> nat \<Rightarrow> u64 \<Rightarrow> u64" where
  "field_val sg shift bits v = narrow sg bits (drop_bit shift v)"

lemma field_shifts:
  fixes v :: u64
  assumes "shift + bits \<le> 64" "0 < bits"
  shows "signed_drop_bit (64 - bits) (push_bit (64 - (shift + bits)) v) = field_val True shift bits v"
proof (rule bit_word_eqI)
  fix n assume n: "n < LENGTH(64)"
  consider "n = bits - 1" | "n < bits - 1" | "bits \<le> n" by linarith
  then show "bit (signed_drop_bit (64 - bits) (push_bit (64 - (shift + bits)) v)) n \<longleftrightarrow> bit (field_val True shift bits v) n"
    using assms n unfolding field_val_def narrow_def
    by cases (auto simp: bit_simps min_def not_le not_less add.commute)
qed

lemma field_mask:
  fixes v :: u64
  assumes "bits < 32"
  shows "v AND imm32 (2 ^ bits - 1) = take_bit bits v"
proof -
  have "(2 :: int) ^ bits \<le> 2 ^ 31" using assms by (intro power_increasing) auto
  moreover have "(0 :: int) < 2 ^ bits" by simp
  ultimately have "imm32 (2 ^ bits - 1) = word_of_int (2 ^ bits - 1)" by (intro imm32_small) linarith+
  also have "\<dots> = mask bits" by (simp add: mask_eq_exp_minus_1)
  finally show ?thesis by (simp add: take_bit_eq_mask)
qed

definition field_ok :: "'ty cgenv \<Rightarrow> 'ty nattr \<Rightarrow> nat \<Rightarrow> 'ty \<Rightarrow> bool" where
  "field_ok e a off type \<longleftrightarrow>
     (case ctf_type_encoding e type of
        None \<Rightarrow> False
      | Some enc \<Rightarrow> 0 < cte_bits enc \<and> off mod 8 + cte_bits enc \<le> 64 \<and> (nf a DT_NF_SIGNED \<or> cte_bits enc < 32))"

definition field_bits :: "'ty cgenv \<Rightarrow> 'ty \<Rightarrow> nat" where
  "field_bits e type = cte_bits (the (ctf_type_encoding e type))"

lemma post_field:
  assumes "field_ok e a off type"
  shows "post c (\<lambda>r s. dt_cg_field_get e a r off type s) (\<lambda>v mm. Inr (field_val (nf a DT_NF_SIGNED) (off mod 8) (field_bits e type) v))"
proof -
  obtain enc where enc: "ctf_type_encoding e type = Some enc" using assms by (auto simp: field_ok_def split: option.splits)
  let ?b = "cte_bits enc" and ?s = "off mod 8" and ?sg = "nf a DT_NF_SIGNED"
  have b: "0 < ?b" "?s + ?b \<le> 64" "\<not> ?sg \<Longrightarrow> ?b < 32" using assms enc by (auto simp: field_ok_def)
  let ?p = "\<lambda>op n r s. Some (code s [I (BPF_ALU64_IMM op r n)])"
  show ?thesis
  proof (cases ?sg)
    case True
    have i: "bpf_alu BPF_LSH x (imm32 (64 - int (?s + ?b))) = Some (push_bit (64 - (?s + ?b)) x)"
      "bpf_alu BPF_ARSH x (imm32 (64 - int ?b)) = Some (signed_drop_bit (64 - ?b) x)" for x
      using imm32_shift [of "64 - (?s + ?b)"] imm32_shift [of "64 - ?b"] b(1,2) by (simp_all add: bpf_alu_def of_nat_diff)
    have "post c (\<lambda>r s. do { s \<leftarrow> ?p BPF_LSH (64 - int (?s + ?b)) r s; ?p BPF_ARSH (64 - int ?b) r s })
        (\<lambda>v mm. case Inr (push_bit (64 - (?s + ?b)) v) of Inl flt \<Rightarrow> Inl flt | Inr w \<Rightarrow> Inr (signed_drop_bit (64 - ?b) w))"
      using i by (intro post_seq post_alu_imm) simp_all
    moreover have "dt_cg_field_get e a r off type s = do { s \<leftarrow> ?p BPF_LSH (64 - int (?s + ?b)) r s; ?p BPF_ARSH (64 - int ?b) r s }" for r s
      using True b(2) by (simp add: dt_cg_field_get_def enc Let_def code_code)
    ultimately show ?thesis using field_shifts [OF b(2,1)] True enc by (simp add: field_bits_def)
  next
    case False
    have i: "bpf_alu BPF_RSH x (imm32 (int ?s)) = Some (drop_bit ?s x)" "bpf_alu BPF_AND x (imm32 (2 ^ ?b - 1)) = Some (take_bit ?b x)" for x
      using imm32_shift [of ?s] field_mask [OF b(3) [OF False]] by (simp_all add: bpf_alu_def)
    have "post c (\<lambda>r s. do { s \<leftarrow> ?p BPF_RSH (int ?s) r s; ?p BPF_AND (2 ^ ?b - 1) r s })
        (\<lambda>v mm. case Inr (drop_bit ?s v) of Inl flt \<Rightarrow> Inl flt | Inr w \<Rightarrow> Inr (take_bit ?b w))"
      using i by (intro post_seq post_alu_imm) simp_all
    moreover have "dt_cg_field_get e a r off type s = do { s \<leftarrow> ?p BPF_RSH (int ?s) r s; ?p BPF_AND (2 ^ ?b - 1) r s }" for r s
      using False b(2) by (simp add: dt_cg_field_get_def enc Let_def code_code)
    ultimately show ?thesis using False enc by (simp add: field_bits_def field_val_def narrow_def)
  qed
qed

definition member_of :: "'ty cgenv \<Rightarrow> tok \<Rightarrow> 'ty nattr \<Rightarrow> cstr \<Rightarrow> (nat \<times> 'ty) option" where
  "member_of e op left m =
     (let type = ctf_type_resolve e (dn_type left)
      in dt_cg_membinfo e (if op = DT_TOK_PTR then ctf_type_resolve e (ctf_type_reference e type) else type) m)"

definition member_ok :: "'ty cgenv \<Rightarrow> 'ty nattr \<Rightarrow> tok \<Rightarrow> 'ty nattr \<Rightarrow> cstr \<Rightarrow> bool" where
  "member_ok e a op left m \<longleftrightarrow>
     (case member_of e op left m of
        None \<Rightarrow> False
      | Some (off, type) \<Rightarrow> off div 8 < 2 ^ 31 \<and>
          (nf a DT_NF_REF \<or> size_ok (load_bytes e a type) \<and> (nf a DT_NF_BITFIELD \<longrightarrow> field_ok e a off type)))"

text \<open>The value of a member: its address, or what is there, or the bits of a field.\<close>

definition member_val :: "'ty cgenv \<Rightarrow> 'ty nattr \<Rightarrow> tok \<Rightarrow> 'ty nattr \<Rightarrow> cstr \<Rightarrow> u64 \<Rightarrow> memory \<Rightarrow> fault + u64" where
  "member_val e a op left m v mm =
     (let (off, type) = the (member_of e op left m); p = v + of_nat (off div 8); x = mem_load (nat (load_bytes e a type)) mm p
      in if v = 0 then Inl (Fault 1)
         else if nf a DT_NF_REF then Inr p
         else if nf a DT_NF_BITFIELD then Inr (field_val (nf a DT_NF_SIGNED) (off mod 8) (field_bits e type) x)
         else load_val (nf a DT_NF_SIGNED) (nat (load_bytes e a type)) x)"

lemma post_offset:
  assumes "off div 8 < 2 ^ 31"
  shows "post c (\<lambda>r s. Some (if off \<noteq> 0 then code s [I (BPF_ALU64_IMM BPF_ADD r (int (off div 8)))] else s)) (\<lambda>v mm. Inr (v + of_nat (off div 8)))"
proof (cases "off = 0")
  case True
  then show ?thesis using post_id [of c] by simp
next
  case False
  have "imm32 (int (off div 8)) = of_nat (off div 8)" using assms imm32_small [of "int (off div 8)"] by (simp del: of_nat_div)
  then have "post c (\<lambda>r s. Some (code s [I (BPF_ALU64_IMM BPF_ADD r (int (off div 8)))])) (\<lambda>v mm. Inr (v + of_nat (off div 8)))"
    by (intro post_alu_imm) (simp_all add: bpf_alu_def)
  then show ?thesis using False by simp
qed

lemma gen_member:
  assumes "gen c k (fl False) ev" "env_ok c e" "member_ok e a op left m"
  shows "gen c k (dt_cg_member e a op left m fl) (sem_post (member_val e a op left m) ev)"
proof -
  obtain off type where mb: "member_of e op left m = Some (off, type)" and off: "off div 8 < 2 ^ 31"
    using assms(3) by (auto simp: member_ok_def split: option.splits)
  have eq: "dt_cg_member e a op left m fl s = do { (reg, ts, s) \<leftarrow> fl False s; s \<leftarrow> dt_cg_check_notnull e reg s;
      let s = (if off \<noteq> 0 then code s [I (BPF_ALU64_IMM BPF_ADD reg (int (off div NBBY)))] else s);
      if nf a DT_NF_REF then Some (reg, None, s)
      else do {
        sz \<leftarrow> dt_cg_load e a type;
        let s = code s [I (BPF_LOAD sz reg reg 0)];
        s \<leftarrow> (if nf a DT_NF_BITFIELD then dt_cg_field_get e a reg off type s else Some s);
        Some (reg, None, s) } }" for s
    using mb unfolding dt_cg_member_def member_of_def Let_def by simp
  note p = post_seq [OF post_notnull [OF assms(2)] post_offset [OF off, of c]]
  show ?thesis
  proof (cases "nf a DT_NF_REF")
    case True
    show ?thesis
    proof (rule gen_cong [OF gen_then [OF assms(1) p]])
      fix mm
      show "sem_post (\<lambda>v mm. case if v = 0 then Inl (Fault 1) else Inr v of Inl flt \<Rightarrow> Inl flt | Inr w \<Rightarrow> Inr (w + of_nat (off div 8))) ev mm =
        sem_post (member_val e a op left m) ev mm"
        using True by (auto simp: sem_post_def sem_bind_def member_val_def mb split: sum.splits prod.splits if_splits)
    qed (simp_all add: eq True case_prod_beta' Let_def)
  next
    case False
    have sz: "size_ok (load_bytes e a type)" and f: "nf a DT_NF_BITFIELD \<Longrightarrow> field_ok e a off type"
      using assms(3) mb False by (auto simp: member_ok_def)
    have ld: "post c (\<lambda>r s. do { s \<leftarrow> Some (code s [I (BPF_LOAD (ldstw ! nat (load_bytes e a type)) r r 0)]);
          if nf a DT_NF_BITFIELD then dt_cg_field_get e a r off type s else Some s })
        (\<lambda>v mm. let x = mem_load (nat (load_bytes e a type)) mm v in
           if nf a DT_NF_BITFIELD then Inr (field_val (nf a DT_NF_SIGNED) (off mod 8) (field_bits e type) x)
           else load_val (nf a DT_NF_SIGNED) (nat (load_bytes e a type)) x)"
    proof (cases "nf a DT_NF_BITFIELD")
      case True
      show ?thesis using post_seq [OF post_load [OF sz] post_field [OF f [OF True]]] True by (simp add: Let_def)
    next
      case False
      show ?thesis using post_load_val [OF sz, of c "nf a DT_NF_SIGNED"] False by (simp add: Let_def)
    qed
    show ?thesis
    proof (rule gen_cong [OF gen_then [OF assms(1) post_seq [OF p ld]]])
      fix mm
      show "sem_post (\<lambda>v mm. case case if v = 0 then Inl (Fault 1) else Inr v of Inl flt \<Rightarrow> Inl flt | Inr w \<Rightarrow> Inr (w + of_nat (off div 8)) of
           Inl flt \<Rightarrow> Inl flt
         | Inr w \<Rightarrow> let x = mem_load (nat (load_bytes e a type)) mm w in
             if nf a DT_NF_BITFIELD then Inr (field_val (nf a DT_NF_SIGNED) (off mod 8) (field_bits e type) x)
             else load_val (nf a DT_NF_SIGNED) (nat (load_bytes e a type)) x) ev mm =
        sem_post (member_val e a op left m) ev mm"
        using False by (auto simp: sem_post_def sem_bind_def member_val_def mb Let_def split: sum.splits prod.splits if_splits)
    qed (simp_all add: eq False dt_cg_load_eq [OF sz] case_prod_beta' Let_def Option.bind_assoc)
  qed
qed

section \<open>Variables by address, constants, comma\<close>

lemma gen_addr_var:
  assumes "var_ok c i n" "byref = (fref \<or> nf a DT_NF_REF)" byref
  shows "gen c 1 (dt_cg_load_var e (NVar a i args) i fref) (\<lambda>mm. Inr (var_addr c i, mm))"
proof (rule gen_leaf)
  let ?idp = "c_ids c i"
  fix r :: nat
  let ?ns = "var_base r (is_local ?idp) @ [I (BPF_ALU64_IMM BPF_ADD r (di_offset ?idp))]"
  have "seg_runs c (- {r}) ?ns r (\<lambda>mm. Inr (var_addr c i, mm))"
  proof (rule leaf_runs)
    fix P k and m :: mstate
    assume a: "at_code P k ?ns" "m_regs m 10 = c_fp c" "lay_mem c (m_mem m)"
    have n: "imm32 (di_offset ?idp) = word_of_int (di_offset ?idp)" using assms by (intro imm32_small) (auto simp: var_ok_def Let_def)
    show "ir_steps (c_ext c) P (At k m) (At (k + length ?ns) (set_reg r (var_addr c i) m))"
      using a lay_memD [OF a(3)] n
      by (intro ir_run_steps [where k = "Suc (Suc (Suc 0))"])
        (simp add: var_base_def at_code_simps run_simps size_bytes_def set_reg_def var_addr_def Let_def del: ir_step.simps)
  qed
  then show "plain ?ns \<and> seg_runs c (- {r}) ?ns r (\<lambda>mm. Inr (var_addr c i, mm))"
    by (simp add: plain_def var_base_def insn_kinds)
next
  let ?idp = "c_ids c i"
  fix s assume s: "cg_ok c s"
  let ?s = "cg_mark i DT_IDFLG_DIFR s"
  have em: "emits s [] ?s" by simp
  have "cg_ok c ?s" using cg_ok_emits [OF s em] cg_okD(1) [OF s] by simp
  note ids = cg_ids_eq [OF this, of i]
  have "dt_cg_load_var e (NVar a i args) i fref s = do { (r, s) \<leftarrow> cg_alloc ?s;
     Some (r, None, code s (var_base r (is_local ?idp) @ [I (BPF_ALU64_IMM BPF_ADD r (di_offset ?idp))])) }"
    using assms by (simp add: dt_cg_load_var_def Let_def ids var_ok_def is_local_def case_prod_beta')
  then show "\<exists>s0. emits s [] s0 \<and> pcb_regs s0 = pcb_regs s \<and> dl_label (pcb_ir s0) = dl_label (pcb_ir s) \<and>
       dt_cg_load_var e (NVar a i args) i fref s = do { (r, s) \<leftarrow> cg_alloc s0;
         Some (r, None, code s (var_base r (is_local ?idp) @ [I (BPF_ALU64_IMM BPF_ADD r (di_offset ?idp))])) }"
    using em by (intro exI [of _ ?s]) simp
qed

lemma gen_sizeof:
  assumes "sz \<noteq> 0"
  shows "gen c 1 (\<lambda>s. do { (reg, s) \<leftarrow> cg_alloc s; if sz = 0 then None else Some (reg, None, dt_cg_setx reg (word_of_int sz) s) })
    (\<lambda>mm. Inr (word_of_int sz, mm))"
proof (rule gen_leaf)
  fix r :: nat
  let ?ns = "[I (fst (BPF_LDDW r (word_of_int sz))), I (snd (BPF_LDDW r (word_of_int sz)))]"
  show "plain ?ns \<and> seg_runs c (- {r}) ?ns r (\<lambda>mm. Inr (word_of_int sz, mm))"
    using setx_runs by (simp add: plain_def insn_kinds ir_counts_def)
next
  fix s
  show "\<exists>s0. emits s [] s0 \<and> pcb_regs s0 = pcb_regs s \<and> dl_label (pcb_ir s0) = dl_label (pcb_ir s) \<and>
     do { (reg, s) \<leftarrow> cg_alloc s; if sz = 0 then None else Some (reg, None, dt_cg_setx reg (word_of_int sz) s) } =
     do { (r, s) \<leftarrow> cg_alloc s0; Some (r, None, code s [I (fst (BPF_LDDW r (word_of_int sz))), I (snd (BPF_LDDW r (word_of_int sz)))]) }"
    using assms by (intro exI [of _ s]) (simp add: setx_code emits_def)
qed

lemma gen_comma:
  assumes "gen c k1 fl evl" "gen c k2 fr evr"
  shows "gen c (max k1 k2) (\<lambda>s. do { (rl, lts, s) \<leftarrow> fl s; s \<leftarrow> cg_free rl s; (reg, ts, s) \<leftarrow> fr s; Some (reg, None, s) })
    (\<lambda>mm. sem_bind (evl mm) (\<lambda>v mm. evr mm))"
proof (rule gen_cong [OF gen_short [OF assms, where n = 0 and x = "\<lambda>r l. []" and z = "\<lambda>r l. []" and T = "\<lambda>v. False" and R = 0 and g = "\<lambda>v. v"]])
  fix r l :: nat
  show "seg_ok l (l + 0) ([] @ []) \<and> lddw_ok [] \<and> lddw_ok [] \<and> block_runs c [] r (\<lambda>v. v)"
    using plain_seg(1) [of "[]" l l] block_Nil by (simp add: plain_def)
next
  fix r l :: nat and b
  show "skips c [] b [] r (\<lambda>v. False) 0" by (simp add: skips_def)
next
  fix s
  have "bump 0 s = s" by (simp add: bump_def)
  then show "do { (rl, lts, s1) \<leftarrow> fl (bump 0 s); s1 \<leftarrow> cg_free rl (code s1 []); (reg, rts, s2) \<leftarrow> fr s1; Some (reg, None, code s2 []) } =
    do { (rl, lts, s) \<leftarrow> fl s; s \<leftarrow> cg_free rl s; (reg, ts, s) \<leftarrow> fr s; Some (reg, None, s) }"
    by (simp add: code_Nil)
next
  fix mm
  show "sem_short (\<lambda>v. False) 0 (\<lambda>v. v) evl evr mm = sem_bind (evl mm) (\<lambda>v mm. evr mm)"
    by (simp add: sem_short_def sem_bind_def split: sum.splits prod.splits)
qed simp

end
