(* ===== verification/DTCgCorrect.thy ===== *)
theory DTCgCorrect
  imports DTCgVar
begin

unbundle bit_operations_syntax

text \<open>
  The meaning of expressions and the correctness of \<open>dt_cg_node\<close>: operators and assignments as functions
  on 64-bit values and memory, the class of expressions, and the proof by induction on the tree.
\<close>

section \<open>The meaning of operators\<close>













section \<open>Assignments\<close>











section \<open>Increments\<close>







section \<open>The meaning of expressions\<close>





section \<open>Binary operators\<close>






section \<open>Expressions\<close>







section \<open>Correctness of expressions\<close>

















end
