(* ===== verification/Spec2Isabelle.thy ===== *)
theory Spec2Isabelle
  imports DTPrelude DTList DTArith128 DTString DTBuf DTHtab DTStrtab DTRegset DTBpf DTAs DTNode DTCg DTCgSubr DTCgExpr
    DTMap DTCgSem DTCgGen DTCgCond DTCgVar DTCgCorrect
begin

text \<open>
  A verification development of DTrace for Linux (the repository's \<open>libdtrace\<close> and the BPF code that
  comes with it).

  \<^bold>\<open>The program.\<close>  A D program is parsed into trees of nodes (\<open>dt_parser.c\<close>), which are typed and then
  translated by the code generator (\<open>dt_cg.c\<close>) into a list of BPF instructions with labels, using a
  register allocator (\<open>dt_regset.c\<close>) and a table of string constants (\<open>dt_strtab.c\<close>).  The assembler
  (\<open>dt_as.c\<close>) resolves labels and produces the object with its variable and relocation tables.  At
  run time the generated code calls functions of a BPF library (\<open>bpf/\<close>).  Around this are
  containers (\<open>dt_list.c\<close>, \<open>dt_htab.c\<close>, \<open>dt_buf.c\<close>), string helpers (\<open>dt_string.c\<close>), the descriptions of recorded
  data (\<open>dt_map.c\<close>), which tell the consumer where the records of a clause are, and the consumer
  of the trace data (\<open>dt_consume.c\<close>), which needs 128-bit arithmetic.

  \<^bold>\<open>The theories.\<close>
  \<^item> \<open>DTPrelude\<close>: integer types, allocation schedules (every allocation may fail), shared lemmas.
  \<^item> \<open>DTList\<close>: \<open>dt_list.c\<close>, links in a store.  Each operation implements the list operation.
  \<^item> \<open>DTString\<close>: \<open>dt_string.c\<close>.  Escaping is inverted by unescaping; the in-place routines compute
    the list functions they are meant to.
  \<^item> \<open>DTBuf\<close>: \<open>dt_buf.c\<close>.  The contents are the aligned concatenation of what was written, up to the
    write that failed.  Sizes wrap at \<open>2 ^ 64\<close>; the theorems need them below \<open>2 ^ 62\<close>, beyond which the doubling loop does not end.
  \<^item> \<open>DTHtab\<close>: \<open>dt_htab.c\<close>.  The table refines a set of entries with lookup by key; iteration visits every
    entry once; destruction unlinks every entry once and touches none that it has freed.  The locales are the laws of the hash and
    comparison functions, interpreted on those of the code.
  \<^item> \<open>DTMap\<close>: \<open>dt_map.c\<close>.  Records are laid out aligned and without overlap; enabled probe and aggregation
    identifiers keep their descriptions; descriptions are freed, with the formats of their records, when the last reference goes.
  \<^item> \<open>DTArith128\<close>: the 128-bit routines of \<open>dt_consume.c\<close>: division, square root, \<open>dt_stddev\<close>.
  \<^item> \<open>DTStrtab\<close>: \<open>dt_strtab.c\<close>.  Strings are found again at the offsets handed out.
  \<^item> \<open>DTRegset\<close>: \<open>dt_regset.c\<close> and \<open>sys/bitmap.h\<close>.  Bracketed allocation preserves registers and spills.
  \<^item> \<open>DTBpf\<close>: \<open>bpf_asm.h\<close> and the machine that runs the instructions.
  \<^item> \<open>DTAs\<close>: \<open>dt_as.c\<close>.  The assembled program simulates the labelled list; the tables are sound.
  \<^item> \<open>DTNode\<close>: nodes and their types (\<open>dt_parser.h\<close>, \<open>dt_parser.c\<close>).
  \<^item> \<open>DTCg\<close>, \<open>DTCgSubr\<close>, \<open>DTCgExpr\<close>: the code generator \<open>dt_cg.c\<close> up to expressions.
  \<^item> \<open>DTCgSem\<close>, \<open>DTCgGen\<close>, \<open>DTCgCond\<close>, \<open>DTCgVar\<close>, \<open>DTCgCorrect\<close>: the code generated for expressions computes
    their meaning.  Covered are constants, global and clause-local scalar variables, all operators, casts,
    loads through pointers, members, and assignments to variables, while the free registers last (without spilling); not strings, calls,
    built-in and thread-local variables, arrays, symbols, stores through pointers.  The meaning is \<open>Unchecked\<close>, and nothing is claimed,
    where the code is known not to do what the language says: unsigned division by zero, loads of negative values of narrow
    signed types, widening casts that change the sign, negative pointer differences.

  \<^bold>\<open>Conventions.\<close>  A C struct is a record, a pointer that may be NULL an option or an address in a
  store, an error a value; \<open>None\<close> where a function returns an option is a failed assertion, a \<open>longjmp\<close> to
  the compiler's error handler, or an access the code may not make, as the theory's first
  paragraph says.  Loops whose end is not structural are \<open>partial_function (option)\<close>, with a
  theorem that they return.  There is no fuel in the model.

  \<^bold>\<open>Not modelled.\<close>  What only talks to the kernel, to processes or to files (probes and providers,
  modules and symbols, process control, the bundled libbpf, perf events), the lexer and grammar, the
  cooking of nodes, the parts of the code generator that are compiled out (translators), output
  formatting and the command line.
\<close>

end
